(* ===== verification/Prelude.thy ===== *)
theory Prelude
  imports Complex_Main "HOL-Library.Multiset" "HOL-Library.Word" "HOL-Library.Monad_Syntax"
begin

text \<open>
  Shared vocabulary of the development: the machine integer types of the Go
  sources, signed 64-bit wrap-around, checked slice access (an access out of
  range is a Go run-time panic, here \<open>None\<close>), the collections of
  rewrite rules the component theories extend, and list lemmas that several
  components use.
\<close>

named_theorems fl_eval \<open>unfolding rules that evaluate floating-point operations on closed terms\<close>
named_theorems fl_fin \<open>conditions under which a floating-point operation stays finite\<close>
named_theorems go_simps \<open>checked accesses and panics\<close>

type_synonym u8 = "8 word"
type_synonym u16 = "16 word"
type_synonym i16 = "16 word"   \<comment> \<open>read with \<open>sint\<close>\<close>
type_synonym u32 = "32 word"
type_synonym u64 = "64 word"

subsection \<open>Signed 64-bit arithmetic\<close>

text \<open>Go's \<open>int64\<close> (and \<open>int\<close> on the 64-bit targets) wraps around.\<close>

definition wrap64 :: "int \<Rightarrow> int" where
  "wrap64 x = (x + 2 ^ 63) mod 2 ^ 64 - 2 ^ 63"

lemma wrap64_id [simp]: "- (2 ^ 63) \<le> x \<Longrightarrow> x < 2 ^ 63 \<Longrightarrow> wrap64 x = x"
  by (simp add: wrap64_def)

lemma wrap64_range: "- (2 ^ 63) \<le> wrap64 x \<and> wrap64 x < 2 ^ 63"
  by (simp add: wrap64_def)

lemma i16_range: "- 32768 \<le> sint (w :: i16) \<and> sint w \<le> 32767"
  using sint_range_size [of w] by (simp add: word_size)

lemma sint_word_of_int_i16 [simp]:
  "- 32768 \<le> x \<Longrightarrow> x \<le> 32767 \<Longrightarrow> sint (word_of_int x :: i16) = x"
  by (simp add: sint_sbintrunc' signed_take_bit_int_eq_self)

text \<open>Reading back a number stored in a machine word.\<close>

lemma unat_u8 [simp]: "n < 2 ^ 8 \<Longrightarrow> unat (of_nat n :: u8) = n"
  and unat_u16 [simp]: "n < 2 ^ 16 \<Longrightarrow> unat (of_nat n :: u16) = n"
  and unat_u32 [simp]: "n < 2 ^ 32 \<Longrightarrow> unat (of_nat n :: u32) = n"
  and unat_u64 [simp]: "n < 2 ^ 64 \<Longrightarrow> unat (of_nat n :: u64) = n"
  by (simp_all add: unat_of_nat take_bit_nat_eq_self)

subsection \<open>Checked access\<close>

definition get :: "'a list \<Rightarrow> nat \<Rightarrow> 'a option" where
  "get xs i = (if i < length xs then Some (xs ! i) else None)"

definition gslice :: "'a list \<Rightarrow> nat \<Rightarrow> nat \<Rightarrow> 'a list option" where
  \<comment> \<open>\<open>xs[lo:hi]\<close> of a slice whose capacity is its length\<close>
  "gslice xs lo hi = (if lo \<le> hi \<and> hi \<le> length xs then Some (take (hi - lo) (drop lo xs)) else None)"

lemma get_Some [go_simps]: "i < length xs \<Longrightarrow> get xs i = Some (xs ! i)"
  by (simp add: get_def)

lemma get_None [go_simps]: "length xs \<le> i \<Longrightarrow> get xs i = None"
  by (simp add: get_def)

lemma get_eq_Some_iff: "get xs i = Some x \<longleftrightarrow> i < length xs \<and> xs ! i = x"
  by (auto simp: get_def)

lemma gslice_Some [go_simps]:
  "lo \<le> hi \<Longrightarrow> hi \<le> length xs \<Longrightarrow> gslice xs lo hi = Some (take (hi - lo) (drop lo xs))"
  by (simp add: gslice_def)

lemma length_gslice: "gslice xs lo hi = Some ys \<Longrightarrow> length ys = hi - lo"
  by (auto simp: gslice_def split: if_splits)

lemma nth_gslice: "gslice xs lo hi = Some ys \<Longrightarrow> i < hi - lo \<Longrightarrow> ys ! i = xs ! (lo + i)"
  by (auto simp: gslice_def split: if_splits)

definition put :: "'a list \<Rightarrow> nat \<Rightarrow> 'a \<Rightarrow> 'a list option" where
  \<comment> \<open>\<open>xs[i] = v\<close>\<close>
  "put xs i v = (if i < length xs then Some (xs[i := v]) else None)"

lemma put_Some [go_simps]: "i < length xs \<Longrightarrow> put xs i v = Some (xs[i := v])"
  by (simp add: put_def)

lemma length_put: "put xs i v = Some ys \<Longrightarrow> length ys = length xs"
  by (auto simp: put_def split: if_splits)

text \<open>A loop whose body may panic.\<close>

fun ofold :: "('a \<Rightarrow> 's \<Rightarrow> 's option) \<Rightarrow> 'a list \<Rightarrow> 's \<Rightarrow> 's option" where
  "ofold f [] s = Some s"
| "ofold f (x # xs) s = do { s' \<leftarrow> f x s; ofold f xs s' }"

lemma ofold_append: "ofold f (xs @ ys) s = do { s' \<leftarrow> ofold f xs s; ofold f ys s' }"
  by (induction xs arbitrary: s) (auto split: bind_splits)

lemma ofold_eq_fold:
  \<comment> \<open>a loop no step of which panics\<close>
  "(\<And>x s. x \<in> set xs \<Longrightarrow> P s \<Longrightarrow> f x s = Some (g x s) \<and> P (g x s)) \<Longrightarrow> P s \<Longrightarrow>
   ofold f xs s = Some (fold g xs s) \<and> P (fold g xs s)"
  by (induction xs arbitrary: s) auto

lemma ofold_inv:
  "ofold f xs s = Some s' \<Longrightarrow> (\<And>x s s'. x \<in> set xs \<Longrightarrow> P s \<Longrightarrow> f x s = Some s' \<Longrightarrow> P s') \<Longrightarrow> P s \<Longrightarrow> P s'"
proof (induction xs arbitrary: s)
  case (Cons x xs)
  then obtain s1 where "f x s = Some s1" "ofold f xs s1 = Some s'"
    by (auto split: bind_splits)
  with Cons.IH [OF this(2)] Cons.prems show ?case by (metis list.set_intros)
qed simp

lemma ofold_prefix_rule:
  \<comment> \<open>an invariant indexed by the number of iterations done; no step panics\<close>
  assumes "P 0 s"
    and "\<And>i s. i < length xs \<Longrightarrow> P i s \<Longrightarrow> \<exists>s'. f (xs ! i) s = Some s' \<and> P (Suc i) s'"
  shows "\<exists>s'. ofold f xs s = Some s' \<and> P (length xs) s'"
  using assms
proof (induction xs arbitrary: s P)
  case (Cons x xs)
  from Cons.prems(2) [of 0 s] Cons.prems(1) obtain s1 where s1: "f x s = Some s1" "P 1 s1" by auto
  have "\<exists>s'. ofold f xs s1 = Some s' \<and> P (Suc (length xs)) s'"
  proof (rule Cons.IH [where P = "\<lambda>i. P (Suc i)"])
    show "P (Suc 0) s1" using s1 by simp
    show "\<exists>s'. f (xs ! i) s = Some s' \<and> P (Suc (Suc i)) s'" if "i < length xs" "P (Suc i) s" for i s
      using Cons.prems(2) [of "Suc i" s] that by simp
  qed
  with s1(1) show ?case by simp
qed simp

lemma fold_prefix_rule:
  assumes "P 0 s" and "\<And>i s. i < length xs \<Longrightarrow> P i s \<Longrightarrow> P (Suc i) (f (xs ! i) s)"
  shows "P (length xs) (fold f xs s)"
proof -
  have "\<exists>s'. ofold (\<lambda>x s. Some (f x s)) xs s = Some s' \<and> P (length xs) s'"
    using assms by (intro ofold_prefix_rule) auto
  moreover have "ofold (\<lambda>x s. Some (f x s)) xs s = Some (fold f xs s)" for s
    by (induction xs arbitrary: s) auto
  ultimately show ?thesis by auto
qed

subsection \<open>Lists\<close>

lemma take_sort_insort_drop:
  \<comment> \<open>only the \<open>k\<close> smallest matter for the \<open>k\<close> smallest after an insertion\<close>
  "take k (insort x xs) = take k (insort x (take k xs))" for x :: "'a::linorder"
proof (induction xs arbitrary: k)
  case Nil
  then show ?case by simp
next
  case (Cons y ys)
  then show ?case by (cases k) (auto simp: take_Cons')
qed

lemma fold_insort_sort: "fold insort xs (sort ys) = sort (xs @ ys)" for xs ys :: "'a::linorder list"
proof -
  have "sorted (fold insort xs (sort ys))" for xs ys :: "'a list"
    by (induction xs arbitrary: ys) (auto simp flip: sort_key_simps(2) simp del: sort_key_simps)
  moreover have "mset (fold insort xs zs) = mset xs + mset zs" for xs zs :: "'a list"
    by (induction xs arbitrary: zs) auto
  ultimately show ?thesis
    by (metis mset_append mset_sort properties_for_sort)
qed

lemma sort_cong_mset: "mset xs = mset ys \<Longrightarrow> sort xs = sort ys" for xs ys :: "'a::linorder list"
  by (metis mset_sort properties_for_sort sorted_sort)

lemma fold_ignore:
  "(\<And>x s. x \<in> set xs \<Longrightarrow> P s \<Longrightarrow> f x s = s) \<Longrightarrow> P s \<Longrightarrow> fold f xs s = s"
  by (induction xs) auto

end
