(* ===== verification/GoFloat.thy ===== *)
theory GoFloat
  imports Prelude
begin

text \<open>
  Go's \<open>float32\<close> and \<open>float64\<close>: IEEE 754 binary32 and binary64 values as
  exact reals, infinities and NaN.  Every operation computes the exact result
  and rounds it once, to nearest with ties to even, with gradual underflow and
  overflow to an infinity.  The sign of zero is not represented: the modelled
  code never divides by a zero it has not tested for, and prints or inspects
  no sign bit.  \<open>fmac\<close> models \<open>s += a * b\<close>, which the Go specification lets
  a compiler fuse into one rounding; its first argument says whether it does,
  and every property holds for both.

  The second half proves what the components need: rounding is monotone, exact
  on the representable values, and its relative error is at most
  \<open>2 powi (- prec)\<close>.
\<close>

datatype fmt = F32 | F64

fun prec :: "fmt \<Rightarrow> int" where
  "prec F32 = 24"
| "prec F64 = 53"

fun emin :: "fmt \<Rightarrow> int" where
  "emin F32 = - 149"
| "emin F64 = - 1074"

fun emax :: "fmt \<Rightarrow> int" where
  "emax F32 = 128"
| "emax F64 = 1024"

subsection \<open>Binary exponents\<close>

function flog2 :: "int \<Rightarrow> int" where
  "flog2 n = (if n < 2 then 0 else 1 + flog2 (n div 2))"
  by pat_completeness auto
termination
  by (relation "measure nat") auto

declare flog2.simps [simp del]

definition clog2 :: "int \<Rightarrow> int" where
  "clog2 n = (if n \<le> 1 then 0 else 1 + flog2 (n - 1))"

definition ilog2 :: "real \<Rightarrow> int" where
  "ilog2 x = (if 1 \<le> x then flog2 \<lfloor>x\<rfloor> else - clog2 \<lceil>1 / x\<rceil>)"

subsection \<open>Rounding\<close>

definition rne :: "real \<Rightarrow> int" where
  "rne x = (let f = \<lfloor>x\<rfloor>; d = x - of_int f in
     if d < 1 / 2 then f else if 1 / 2 < d then f + 1 else if even f then f else f + 1)"

definition rexp :: "fmt \<Rightarrow> real \<Rightarrow> int" where
  "rexp F x = max (ilog2 \<bar>x\<bar> - prec F + 1) (emin F)"

definition rnd :: "fmt \<Rightarrow> real \<Rightarrow> real" where
  "rnd F x = (if x = 0 then 0 else of_int (rne (x / 2 powi rexp F x)) * 2 powi rexp F x)"

datatype fl = Fin (fval: real) | Inf bool | NaN

definition fround :: "fmt \<Rightarrow> real \<Rightarrow> fl" where
  "fround F x = (let y = rnd F x in if 2 powi emax F \<le> \<bar>y\<bar> then Inf (y < 0) else Fin y)"

subsection \<open>Operations\<close>

fun fneg :: "fl \<Rightarrow> fl" where
  "fneg (Fin a) = Fin (- a)"
| "fneg (Inf s) = Inf (\<not> s)"
| "fneg NaN = NaN"

fun fadd :: "fmt \<Rightarrow> fl \<Rightarrow> fl \<Rightarrow> fl" where
  "fadd F (Fin a) (Fin b) = fround F (a + b)"
| "fadd F NaN _ = NaN"
| "fadd F _ NaN = NaN"
| "fadd F (Inf s) (Inf t) = (if s = t then Inf s else NaN)"
| "fadd F (Inf s) _ = Inf s"
| "fadd F _ (Inf s) = Inf s"

definition fsub :: "fmt \<Rightarrow> fl \<Rightarrow> fl \<Rightarrow> fl" where
  "fsub F a b = fadd F a (fneg b)"

fun fmul :: "fmt \<Rightarrow> fl \<Rightarrow> fl \<Rightarrow> fl" where
  "fmul F (Fin a) (Fin b) = fround F (a * b)"
| "fmul F NaN _ = NaN"
| "fmul F _ NaN = NaN"
| "fmul F (Inf s) (Inf t) = Inf (s \<noteq> t)"
| "fmul F (Inf s) (Fin b) = (if b = 0 then NaN else Inf (s \<noteq> (b < 0)))"
| "fmul F (Fin a) (Inf s) = (if a = 0 then NaN else Inf (s \<noteq> (a < 0)))"

fun fdiv :: "fmt \<Rightarrow> fl \<Rightarrow> fl \<Rightarrow> fl" where
  "fdiv F (Fin a) (Fin b) =
     (if b = 0 then (if a = 0 then NaN else Inf (a < 0)) else fround F (a / b))"
| "fdiv F NaN _ = NaN"
| "fdiv F _ NaN = NaN"
| "fdiv F (Inf s) (Inf t) = NaN"
| "fdiv F (Inf s) (Fin b) = Inf (s \<noteq> (b < 0))"
| "fdiv F (Fin a) (Inf s) = Fin 0"

text \<open>\<open>fma F a b s\<close> is \<open>a * b + s\<close> with one rounding.\<close>

fun fma :: "fmt \<Rightarrow> fl \<Rightarrow> fl \<Rightarrow> fl \<Rightarrow> fl" where
  "fma F (Fin a) (Fin b) (Fin s) = fround F (a * b + s)"
| "fma F a b s = fadd F (fmul F a b) s"

definition fmac :: "bool \<Rightarrow> fmt \<Rightarrow> fl \<Rightarrow> fl \<Rightarrow> fl \<Rightarrow> fl" where
  "fmac fused F s a b = (if fused then fma F a b s else fadd F s (fmul F a b))"

fun fsqrt :: "fmt \<Rightarrow> fl \<Rightarrow> fl" where
  "fsqrt F (Fin a) = (if a < 0 then NaN else fround F (sqrt a))"
| "fsqrt F (Inf s) = (if s then NaN else Inf False)"
| "fsqrt F NaN = NaN"

fun flt :: "fl \<Rightarrow> fl \<Rightarrow> bool" where
  "flt (Fin a) (Fin b) = (a < b)"
| "flt (Inf s) (Inf t) = (s \<and> \<not> t)"
| "flt (Inf s) (Fin _) = s"
| "flt (Fin _) (Inf s) = (\<not> s)"
| "flt _ _ = False"

fun fle :: "fl \<Rightarrow> fl \<Rightarrow> bool" where
  "fle (Fin a) (Fin b) = (a \<le> b)"
| "fle (Inf s) (Inf t) = (s \<or> \<not> t)"
| "fle (Inf s) (Fin _) = s"
| "fle (Fin _) (Inf s) = (\<not> s)"
| "fle _ _ = False"

fun fconv :: "fmt \<Rightarrow> fl \<Rightarrow> fl" where
  "fconv F (Fin a) = fround F a"
| "fconv F a = a"

definition fl_of_int :: "fmt \<Rightarrow> int \<Rightarrow> fl" where
  "fl_of_int F n = fround F (of_int n)"

text \<open>
  Conversion to an integer truncates towards zero.  Go leaves the result of an
  out-of-range conversion to the implementation; the components prove that
  theirs are in range.
\<close>

fun fl_trunc :: "fl \<Rightarrow> int" where
  "fl_trunc (Fin a) = (if 0 \<le> a then \<lfloor>a\<rfloor> else \<lceil>a\<rceil>)"
| "fl_trunc _ = 0"

subsection \<open>The binary exponent brackets its argument\<close>

lemma flog2_nonneg: "0 \<le> flog2 n"
  by (induction n rule: flog2.induct) (subst flog2.simps, auto)

lemma flog2_bounds:
  "1 \<le> n \<Longrightarrow> 2 powi flog2 n \<le> real_of_int n \<and> real_of_int n < 2 powi (flog2 n + 1)"
proof (induction n rule: flog2.induct)
  case (1 n)
  show ?case
  proof (cases "n < 2")
    case True
    with 1 have "n = 1" by simp
    then show ?thesis by (simp add: flog2.simps)
  next
    case False
    then have IH: "2 powi flog2 (n div 2) \<le> real_of_int (n div 2)"
        "real_of_int (n div 2) < 2 powi (flog2 (n div 2) + 1)"
      using 1 by auto
    have eq: "flog2 n = flog2 (n div 2) + 1"
      using False by (subst flog2.simps) simp
    have lo: "real_of_int (n div 2) * 2 \<le> real_of_int n" by linarith
    have "n div 2 + 1 \<le> 2 ^ nat (flog2 (n div 2) + 1)"
    proof -
      have "real_of_int (n div 2) < real_of_int (2 ^ nat (flog2 (n div 2) + 1))"
        using IH(2) flog2_nonneg [of "n div 2"] by (simp add: power_int_def)
      then show ?thesis by linarith
    qed
    then have "real_of_int (n div 2) + 1 \<le> 2 powi (flog2 (n div 2) + 1)"
      using flog2_nonneg [of "n div 2"]
      by (simp add: power_int_def) (metis (mono_tags) of_int_1 of_int_add of_int_le_iff of_int_numeral of_int_power)
    moreover have "n < (n div 2 + 1) * 2" by presburger
    then have "real_of_int n < real_of_int ((n div 2 + 1) * 2)"
      by (simp only: of_int_less_iff)
    then have "real_of_int n < (real_of_int (n div 2) + 1) * 2"
      by simp
    ultimately show ?thesis
      unfolding eq using IH(1) lo by (auto simp: power_int_add)
  qed
qed

lemma ilog2_bounds:
  assumes "0 < x"
  shows "2 powi ilog2 x \<le> x \<and> x < 2 powi (ilog2 x + 1)"
proof (cases "1 \<le> x")
  case True
  then have "1 \<le> \<lfloor>x\<rfloor>" by linarith
  note b = flog2_bounds [OF this]
  have "\<lfloor>x\<rfloor> < 2 ^ nat (flog2 \<lfloor>x\<rfloor> + 1)"
  proof -
    have "real_of_int \<lfloor>x\<rfloor> < real_of_int (2 ^ nat (flog2 \<lfloor>x\<rfloor> + 1))"
      using b flog2_nonneg [of "\<lfloor>x\<rfloor>"] by (simp add: power_int_def)
    then show ?thesis by linarith
  qed
  then have "x < real_of_int (2 ^ nat (flog2 \<lfloor>x\<rfloor> + 1))"
    by linarith
  then have "x < 2 powi (flog2 \<lfloor>x\<rfloor> + 1)"
    using flog2_nonneg [of "\<lfloor>x\<rfloor>"] by (simp add: power_int_def)
  moreover have "2 powi flog2 \<lfloor>x\<rfloor> \<le> x" using b by linarith
  ultimately show ?thesis using True by (simp add: ilog2_def)
next
  case False
  define n where "n = \<lceil>1 / x\<rceil>"
  define k where "k = flog2 (n - 1)"
  have "1 < 1 / x" using assms False by simp
  then have n: "2 \<le> n" unfolding n_def by linarith
  have k: "0 \<le> k" by (simp add: k_def flog2_nonneg)
  have b: "2 powi k \<le> real_of_int (n - 1)" "real_of_int (n - 1) < 2 powi (k + 1)"
    using flog2_bounds [of "n - 1"] n by (auto simp: k_def)
  have "real_of_int (n - 1) < 1 / x" unfolding n_def by linarith
  with b(1) have "2 powi k < 1 / x" by linarith
  then have hi: "x < 2 powi (- k)" using assms by (simp add: power_int_minus field_simps)
  have "n - 1 < 2 ^ nat (k + 1)"
  proof -
    have "real_of_int (n - 1) < real_of_int (2 ^ nat (k + 1))"
      using b(2) k by (simp add: power_int_def)
    then show ?thesis by linarith
  qed
  then have "real_of_int n \<le> real_of_int (2 ^ nat (k + 1))" by linarith
  then have "real_of_int n \<le> 2 powi (k + 1)" using k by (simp add: power_int_def)
  moreover have "1 / x \<le> real_of_int n" by (simp add: n_def)
  ultimately have "1 / x \<le> 2 powi (k + 1)" by linarith
  then have lo: "2 powi (- (k + 1)) \<le> x" using assms by (simp only: power_int_minus) (simp add: field_simps)
  have "ilog2 x = - (k + 1)"
    using False n by (simp add: ilog2_def clog2_def n_def [symmetric] k_def)
  with hi lo show ?thesis by simp
qed

lemma powi_le_iff: "(2::real) powi a \<le> 2 powi b \<longleftrightarrow> a \<le> b"
  using power_int_increasing [of a b "2::real"] power_int_strict_increasing [of b a "2::real"]
  by fastforce

lemma powi_less_iff: "(2::real) powi a < 2 powi b \<longleftrightarrow> a < b"
  using powi_le_iff [of b a] by auto

lemma ilog2_unique:
  assumes "2 powi e \<le> x" and "x < 2 powi (e + 1)"
  shows "ilog2 x = e"
proof -
  have "0 < x" using assms(1) by (smt (verit) zero_less_power_int)
  note b = ilog2_bounds [OF this]
  have "(2::real) powi ilog2 x < 2 powi (e + 1)" "(2::real) powi e < 2 powi (ilog2 x + 1)"
    using b assms by linarith+
  then show ?thesis by (simp add: powi_less_iff)
qed

lemma ilog2_mono: "0 < x \<Longrightarrow> x \<le> y \<Longrightarrow> ilog2 x \<le> ilog2 y"
  by (smt (verit) ilog2_bounds powi_less_iff)

lemma ilog2_less: "0 < x \<Longrightarrow> x < 2 powi e \<Longrightarrow> ilog2 x < e"
  by (smt (verit) ilog2_bounds powi_less_iff)

subsection \<open>Rounding to an integer\<close>

lemma rne_of_int [simp]: "rne (of_int n) = n"
  by (simp add: rne_def Let_def)

lemma rne_err: "\<bar>of_int (rne x) - x\<bar> \<le> 1 / 2"
  unfolding rne_def Let_def by (auto split: if_splits)

lemma rne_mono: "x \<le> y \<Longrightarrow> rne x \<le> rne y"
proof -
  assume xy: "x \<le> y"
  then have f: "\<lfloor>x\<rfloor> \<le> \<lfloor>y\<rfloor>" by (rule floor_mono)
  show ?thesis
  proof (cases "\<lfloor>x\<rfloor> = \<lfloor>y\<rfloor>")
    case True
    then show ?thesis using xy unfolding rne_def Let_def by auto
  next
    case False
    with f have "\<lfloor>x\<rfloor> + 1 \<le> \<lfloor>y\<rfloor>" by simp
    moreover have "rne x \<le> \<lfloor>x\<rfloor> + 1" "\<lfloor>y\<rfloor> \<le> rne y"
      unfolding rne_def Let_def by auto
    ultimately show ?thesis by linarith
  qed
qed

lemma rne_uminus: "rne (- x) = - rne x"
proof (cases "x = of_int \<lfloor>x\<rfloor>")
  case True
  then show ?thesis by (metis of_int_minus rne_of_int)
next
  case False
  then have f: "\<lfloor>- x\<rfloor> = - \<lfloor>x\<rfloor> - 1"
    unfolding floor_minus ceiling_altdef by simp
  have d: "- x - of_int \<lfloor>- x\<rfloor> = 1 - (x - of_int \<lfloor>x\<rfloor>)"
    by (simp add: f)
  have e: "even \<lfloor>- x\<rfloor> \<longleftrightarrow> odd \<lfloor>x\<rfloor>"
    by (simp add: f)
  show ?thesis
    unfolding rne_def Let_def d e unfolding f by auto
qed

lemma rne_le_of_int: "x \<le> of_int n \<Longrightarrow> rne x \<le> n"
  using rne_mono [of x "of_int n"] by simp

lemma rne_ge_of_int: "of_int n \<le> x \<Longrightarrow> n \<le> rne x"
  using rne_mono [of "of_int n" x] by simp

subsection \<open>Rounding to a format: exactness, sign, monotonicity, error\<close>

lemma prec_pos: "1 < prec F"
  by (cases F) auto

lemma rnd_zero [simp]: "rnd F 0 = 0"
  by (simp add: rnd_def)

lemma rnd_uminus: "rnd F (- x) = - rnd F x"
  by (simp add: rnd_def rexp_def rne_uminus)

lemma rnd_nonneg: "0 \<le> x \<Longrightarrow> 0 \<le> rnd F x"
  using rne_ge_of_int [of 0 "x / 2 powi rexp F x"] by (simp add: rnd_def)

lemma rnd_nonpos: "x \<le> 0 \<Longrightarrow> rnd F x \<le> 0"
  using rnd_nonneg [of "- x" F] by (simp add: rnd_uminus)

lemma rnd_abs: "\<bar>rnd F x\<bar> = rnd F \<bar>x\<bar>"
  using rnd_nonneg [of x F] rnd_nonpos [of x F]
  by (cases "0 \<le> x") (auto simp: rnd_uminus)

lemma rnd_exact:
  \<comment> \<open>a value with few enough significant bits is left alone\<close>
  assumes m: "\<bar>m\<bar> \<le> 2 ^ nat (prec F)" and k: "emin F \<le> k"
  shows "rnd F (of_int m * 2 powi k) = of_int m * 2 powi k"
proof (cases "m = 0")
  case False
  define x where "x = real_of_int m * 2 powi k"
  have x0: "x \<noteq> 0" using False by (simp add: x_def)
  have p: "real_of_int (2 ^ nat (prec F)) = 2 powi prec F"
    using prec_pos [of F] by (simp add: power_int_def)
  have int: "\<exists>n. x / 2 powi rexp F x = real_of_int n"
  proof (cases "\<bar>m\<bar> = 2 ^ nat (prec F)")
    case True
    then have "\<bar>x\<bar> = 2 powi (prec F + k)"
      using p by (simp add: x_def abs_mult power_int_add flip: of_int_abs)
    then have "ilog2 \<bar>x\<bar> = prec F + k"
      by (intro ilog2_unique) (auto simp: powi_less_iff)
    then have e: "rexp F x = k + 1" using k by (simp add: rexp_def)
    have "m = sgn m * 2 ^ nat (prec F)" using True by (metis abs_sgn mult.commute abs_mult_sgn)
    moreover have "nat (prec F) = Suc (nat (prec F - 1))" using prec_pos [of F] by simp
    ultimately have m2: "m = 2 * (sgn m * 2 ^ nat (prec F - 1))"
      by (metis mult.left_commute power_Suc)
    have "x / 2 powi (k + 1) = real_of_int m / 2"
      by (simp add: x_def power_int_add)
    also have "\<dots> = real_of_int (sgn m * 2 ^ nat (prec F - 1))"
      by (subst m2) simp
    finally show ?thesis unfolding e by blast
  next
    case less: False
    have "\<bar>x\<bar> < 2 powi (prec F + k)"
    proof -
      have "\<bar>m\<bar> < 2 ^ nat (prec F)" using less m by simp
      then have "real_of_int \<bar>m\<bar> < 2 powi prec F" by (metis of_int_less_iff p)
      then show ?thesis by (simp add: x_def abs_mult power_int_add)
    qed
    then have "ilog2 \<bar>x\<bar> < prec F + k" using x0 by (intro ilog2_less) auto
    then have e: "rexp F x \<le> k" using k by (simp add: rexp_def)
    have "x / 2 powi rexp F x = real_of_int m * 2 powi (k - rexp F x)"
      by (simp add: x_def power_int_diff)
    also have "\<dots> = real_of_int (m * 2 ^ nat (k - rexp F x))"
      using e by (simp add: power_int_def)
    finally show ?thesis by blast
  qed
  then have "of_int (rne (x / 2 powi rexp F x)) = x / 2 powi rexp F x"
    by (metis rne_of_int)
  then show ?thesis using x0 unfolding x_def [symmetric] by (simp add: rnd_def)
qed simp

lemma rnd_of_int: "\<bar>n\<bar> \<le> 2 ^ nat (prec F) \<Longrightarrow> rnd F (of_int n) = of_int n"
  using rnd_exact [of n F 0] by (cases F) auto

lemma rnd_powi: "emin F \<le> k \<Longrightarrow> rnd F (2 powi k) = 2 powi k"
  using rnd_exact [of 1 F k] by simp

lemma rexp_mono: "0 < x \<Longrightarrow> x \<le> y \<Longrightarrow> rexp F x \<le> rexp F y"
  using ilog2_mono [of x y] by (simp add: rexp_def max_def)

lemma powi_split:
  "e \<le> L \<Longrightarrow> 2 powi L = real_of_int (2 ^ nat (L - e)) * 2 powi e"
  using power_int_add [of "2::real" "L - e" e] by (simp add: power_int_def)

lemma rnd_le_powi:
  assumes "0 < x" "x \<le> 2 powi L" "rexp F x \<le> L"
  shows "rnd F x \<le> 2 powi L"
proof -
  have "x / 2 powi rexp F x \<le> of_int (2 ^ nat (L - rexp F x))"
    using assms(2) powi_split [OF assms(3)] by (simp add: divide_le_eq)
  then have "rne (x / 2 powi rexp F x) \<le> 2 ^ nat (L - rexp F x)"
    by (rule rne_le_of_int)
  then have "real_of_int (rne (x / 2 powi rexp F x)) \<le> real_of_int (2 ^ nat (L - rexp F x))"
    by (simp only: of_int_le_iff)
  then show ?thesis
    using assms(1) unfolding powi_split [OF assms(3)] by (simp add: rnd_def)
qed

lemma rnd_ge_powi:
  assumes "2 powi L \<le> x" "rexp F x \<le> L"
  shows "2 powi L \<le> rnd F x"
proof -
  have x: "0 < x" using assms(1) by (smt (verit) zero_less_power_int)
  have "of_int (2 ^ nat (L - rexp F x)) \<le> x / 2 powi rexp F x"
    using assms(1) powi_split [OF assms(2)] by (simp add: le_divide_eq)
  then have "2 ^ nat (L - rexp F x) \<le> rne (x / 2 powi rexp F x)"
    by (rule rne_ge_of_int)
  then have "real_of_int (2 ^ nat (L - rexp F x)) \<le> real_of_int (rne (x / 2 powi rexp F x))"
    by (simp only: of_int_le_iff)
  then show ?thesis
    using x unfolding powi_split [OF assms(2)] by (simp add: rnd_def)
qed

lemma rnd_mono_pos:
  assumes "0 < x" and "x \<le> y"
  shows "rnd F x \<le> rnd F y"
proof (cases "rexp F x = rexp F y")
  case True
  have "rne (x / 2 powi rexp F x) \<le> rne (y / 2 powi rexp F x)"
    using assms by (intro rne_mono divide_right_mono) auto
  then show ?thesis using assms True by (simp add: rnd_def)
next
  case False
  then have less: "rexp F x < rexp F y" using rexp_mono [OF assms, of F] by linarith
  define L where "L = ilog2 y"
  have ey: "rexp F y = L - prec F + 1" and lxy: "ilog2 x < L"
    using less assms by (auto simp: rexp_def L_def)
  have y: "2 powi L \<le> y" using ilog2_bounds [of y] assms by (simp add: L_def)
  have x: "x \<le> 2 powi L"
    using ilog2_bounds [of x] assms lxy powi_le_iff [of "ilog2 x + 1" L] by linarith
  have "rexp F x \<le> L" "rexp F y \<le> L" using less ey prec_pos [of F] by linarith+
  then have "rnd F x \<le> 2 powi L" "2 powi L \<le> rnd F y"
    using assms(1) x y by (auto intro: rnd_le_powi rnd_ge_powi)
  then show ?thesis by linarith
qed

lemma rnd_mono: "x \<le> y \<Longrightarrow> rnd F x \<le> rnd F y"
proof -
  assume xy: "x \<le> y"
  consider "0 < x" | "y < 0" | "x \<le> 0" "0 \<le> y" by linarith
  then show ?thesis
  proof cases
    case 1
    then show ?thesis using xy by (rule rnd_mono_pos)
  next
    case 2
    then have "rnd F (- y) \<le> rnd F (- x)" using xy by (intro rnd_mono_pos) auto
    then show ?thesis by (simp add: rnd_uminus)
  next
    case 3
    then show ?thesis using rnd_nonneg [of y F] rnd_nonpos [of x F] by linarith
  qed
qed

lemma rnd_abs_le: "\<bar>x\<bar> \<le> B \<Longrightarrow> rnd F B = B \<Longrightarrow> \<bar>rnd F x\<bar> \<le> B"
  using rnd_mono [of "\<bar>x\<bar>" B F] by (simp add: rnd_abs)

text \<open>The error of one rounding: relative, plus half a unit of the subnormal range.\<close>

definition ulp :: "fmt \<Rightarrow> real" where
  "ulp F = 2 powi (- prec F)"

definition tiny :: "fmt \<Rightarrow> real" where
  "tiny F = 2 powi (emin F - 1)"

lemma ulp_pos: "0 < ulp F" and tiny_pos: "0 < tiny F"
  by (simp_all add: ulp_def tiny_def)

lemma ulp_F32: "ulp F32 = 1 / 2 ^ 24" and ulp_F64: "ulp F64 = 1 / 2 ^ 53"
  by (simp_all add: ulp_def power_int_def power_divide)

lemma rnd_err_exp: "\<bar>rnd F x - x\<bar> \<le> 2 powi (rexp F x - 1)"
proof (cases "x = 0")
  case False
  define e where "e = rexp F x"
  have "rnd F x - x = (of_int (rne (x / 2 powi e)) - x / 2 powi e) * 2 powi e"
    using False by (simp add: rnd_def e_def left_diff_distrib)
  then have "\<bar>rnd F x - x\<bar> = \<bar>of_int (rne (x / 2 powi e)) - x / 2 powi e\<bar> * 2 powi e"
    by (simp add: abs_mult)
  also have "\<dots> \<le> 1 / 2 * 2 powi e"
    using rne_err by (intro mult_right_mono) auto
  also have "\<dots> = 2 powi (e - 1)" by (simp add: power_int_diff)
  finally show ?thesis by (simp add: e_def)
qed simp

lemma rnd_err_normal:
  assumes "2 powi (emin F + prec F - 1) \<le> \<bar>x\<bar>"
  shows "\<bar>rnd F x - x\<bar> \<le> ulp F * \<bar>x\<bar>"
proof -
  have x: "0 < \<bar>x\<bar>" using assms by (smt (verit) zero_less_power_int)
  have "(2::real) powi (emin F + prec F - 1) < 2 powi (ilog2 \<bar>x\<bar> + 1)"
    using assms ilog2_bounds [OF x] by linarith
  then have "rexp F x = ilog2 \<bar>x\<bar> - prec F + 1"
    by (simp add: rexp_def powi_less_iff)
  then have "\<bar>rnd F x - x\<bar> \<le> 2 powi (ilog2 \<bar>x\<bar> - prec F)"
    using rnd_err_exp [of F x] by simp
  also have "\<dots> = ulp F * 2 powi ilog2 \<bar>x\<bar>"
    by (simp add: ulp_def power_int_diff power_int_minus field_simps)
  also have "\<dots> \<le> ulp F * \<bar>x\<bar>"
    using ilog2_bounds [OF x] ulp_pos [of F] by (intro mult_left_mono) auto
  finally show ?thesis .
qed

lemma rnd_err: "\<bar>rnd F x - x\<bar> \<le> ulp F * \<bar>x\<bar> + tiny F"
proof (cases "2 powi (emin F + prec F - 1) \<le> \<bar>x\<bar>")
  case True
  then show ?thesis using rnd_err_normal [OF True] tiny_pos [of F] by linarith
next
  case False
  show ?thesis
  proof (cases "x = 0")
    case True
    then show ?thesis using tiny_pos [of F] by simp
  next
    case x: False
    have "ilog2 \<bar>x\<bar> < emin F + prec F - 1"
      using False x by (intro ilog2_less) auto
    then have "rexp F x = emin F" by (simp add: rexp_def)
    then have "\<bar>rnd F x - x\<bar> \<le> tiny F"
      using rnd_err_exp [of F x] by (simp add: tiny_def)
    then show ?thesis using ulp_pos [of F] by (smt (verit) mult_nonneg_nonneg abs_ge_zero)
  qed
qed

lemma rnd_err_ge1: "x = 0 \<or> 1 \<le> \<bar>x\<bar> \<Longrightarrow> \<bar>rnd F x - x\<bar> \<le> ulp F * \<bar>x\<bar>"
proof -
  assume x: "x = 0 \<or> 1 \<le> \<bar>x\<bar>"
  have "2 powi (emin F + prec F - 1) \<le> (2::real) powi 0"
    unfolding powi_le_iff by (cases F) auto
  then have "1 \<le> \<bar>x\<bar> \<Longrightarrow> 2 powi (emin F + prec F - 1) \<le> \<bar>x\<bar>" by simp
  with x rnd_err_normal [of F x] show ?thesis by auto
qed

lemma rnd_idem: "rnd F (rnd F x) = rnd F x"
proof (cases "x = 0")
  case False
  define e where "e = rexp F x"
  have e: "emin F \<le> e" "ilog2 \<bar>x\<bar> + 1 \<le> e + prec F" by (auto simp: e_def rexp_def)
  have "\<bar>x\<bar> < 2 powi (ilog2 \<bar>x\<bar> + 1)" using ilog2_bounds [of "\<bar>x\<bar>"] False by simp
  also have "\<dots> \<le> 2 powi (e + prec F)" using e(2) by (simp only: powi_le_iff)
  finally have "\<bar>x\<bar> \<le> 2 powi prec F * 2 powi e" by (simp add: power_int_add mult.commute)
  moreover have p: "real_of_int (2 ^ nat (prec F)) = 2 powi prec F"
    using prec_pos [of F] by (simp add: power_int_def)
  ultimately have "\<bar>x / 2 powi e\<bar> \<le> of_int (2 ^ nat (prec F))"
    unfolding p by (simp add: divide_le_eq abs_divide)
  then have "\<bar>rne (x / 2 powi e)\<bar> \<le> 2 ^ nat (prec F)"
  proof -
    assume a: "\<bar>x / 2 powi e\<bar> \<le> of_int (2 ^ nat (prec F))"
    then have "x / 2 powi e \<le> of_int (2 ^ nat (prec F))" "of_int (- (2 ^ nat (prec F))) \<le> x / 2 powi e"
      by (simp_all only: of_int_minus abs_le_iff) linarith
    from rne_le_of_int [OF this(1)] rne_ge_of_int [OF this(2)] show ?thesis by simp
  qed
  from rnd_exact [OF this e(1)] show ?thesis using False by (simp add: rnd_def [of F x] e_def)
qed simp

subsection \<open>Finite operations\<close>

lemma emin_less_emax: "emin F \<le> emax F - 1"
  by (cases F) auto

lemma fround_Fin [fl_fin]:
  assumes "\<bar>x\<bar> \<le> 2 powi (emax F - 1)"
  shows "fround F x = Fin (rnd F x)"
proof -
  have "\<bar>rnd F x\<bar> \<le> 2 powi (emax F - 1)"
    using assms by (rule rnd_abs_le) (rule rnd_powi, rule emin_less_emax)
  moreover have "2 powi (emax F - 1) < (2::real) powi emax F" by (simp add: powi_less_iff)
  ultimately show ?thesis by (simp add: fround_def Let_def)
qed

lemma fround_Fin_F32: "\<bar>x\<bar> \<le> 2 ^ 127 \<Longrightarrow> fround F32 x = Fin (rnd F32 x)"
  by (rule fround_Fin) (simp add: power_int_def)

lemma fround_Fin_F64: "\<bar>x\<bar> \<le> 2 ^ 1023 \<Longrightarrow> fround F64 x = Fin (rnd F64 x)"
  by (rule fround_Fin) (simp add: power_int_def)

lemma fround_of_int: "\<bar>n\<bar> \<le> 2 ^ nat (prec F) \<Longrightarrow> fround F (of_int n) = Fin (of_int n)"
proof -
  assume n: "\<bar>n\<bar> \<le> 2 ^ nat (prec F)"
  have "nat (prec F) \<le> nat (emax F - 1)" by (cases F) auto
  then have "(2::real) ^ nat (prec F) \<le> 2 ^ nat (emax F - 1)" by (rule power_increasing) simp
  moreover have "real_of_int \<bar>n\<bar> \<le> real_of_int (2 ^ nat (prec F))" using n by (simp only: of_int_le_iff)
  moreover have "2 ^ nat (emax F - 1) = (2::real) powi (emax F - 1)" by (cases F) (auto simp: power_int_def)
  ultimately have "\<bar>real_of_int n\<bar> \<le> 2 powi (emax F - 1)" by simp
  from fround_Fin [OF this] n show ?thesis by (simp add: rnd_of_int)
qed

lemma fl_of_int_exact [simp]: "\<bar>n\<bar> \<le> 2 ^ nat (prec F) \<Longrightarrow> fl_of_int F n = Fin (of_int n)"
  by (simp add: fl_of_int_def fround_of_int)

text \<open>A square accumulated into a non-negative sum: the only shape of rounding the distance
  kernels have.  Terms are zero or at least one, which integer differences guarantee.\<close>

lemma rnd_ge1: "1 \<le> x \<Longrightarrow> 1 \<le> rnd F x"
  using rnd_mono [of 1 x F] rnd_of_int [of 1 F] by (cases F) auto

lemma rnd_upper_ge1: "x = 0 \<or> 1 \<le> x \<Longrightarrow> rnd F x \<le> x * (1 + ulp F)"
  using rnd_err_ge1 [of x F] by (auto simp: algebra_simps abs_le_iff)

lemma square_ge1: "d = 0 \<or> 1 \<le> \<bar>d\<bar> \<Longrightarrow> d * d = 0 \<or> 1 \<le> d * d" for d :: real
  by (metis abs_1 abs_le_square_iff mult_eq_0_iff power2_eq_square one_power2)

lemma fmac_square_F32:
  assumes s: "s = 0 \<or> 1 \<le> s" and d: "d = 0 \<or> 1 \<le> \<bar>d\<bar>" and le: "s \<le> 2 ^ 60" "d * d \<le> 2 ^ 60"
  shows "\<exists>r. fmac fused F32 (Fin s) (Fin d) (Fin d) = Fin r \<and> (r = 0 \<or> 1 \<le> r) \<and>
    r \<le> (s + d * d * (1 + ulp F32)) * (1 + ulp F32)"
proof (cases fused)
  case True
  have dd: "d * d = 0 \<or> 1 \<le> d * d" using d by (rule square_ge1)
  have "\<bar>d * d + s\<bar> \<le> 2 ^ 127" using le s zero_le_square [of d] by auto
  then have "fmac fused F32 (Fin s) (Fin d) (Fin d) = Fin (rnd F32 (d * d + s))"
    using True by (simp add: fmac_def fround_Fin_F32)
  moreover have "rnd F32 (d * d + s) \<le> (d * d + s) * (1 + ulp F32)"
    using s dd by (intro rnd_upper_ge1) auto
  moreover have "(d * d + s) * (1 + ulp F32) \<le> (s + d * d * (1 + ulp F32)) * (1 + ulp F32)"
  proof (rule mult_right_mono)
    have "0 \<le> d * d * ulp F32"
      using ulp_pos [of F32] zero_le_square [of d] by (intro mult_nonneg_nonneg [of "d * d"]) auto
    then show "d * d + s \<le> s + d * d * (1 + ulp F32)" by (simp add: distrib_left)
  qed (use ulp_pos [of F32] in simp)
  moreover have "rnd F32 (d * d + s) = 0 \<or> 1 \<le> rnd F32 (d * d + s)"
    using s dd by (cases "d * d + s = 0") (auto intro!: rnd_ge1)
  ultimately show ?thesis by fastforce
next
  case False
  have dd: "d * d = 0 \<or> 1 \<le> d * d" using d by (rule square_ge1)
  define p where "p = rnd F32 (d * d)"
  have p: "p = 0 \<or> 1 \<le> p" "p \<le> d * d * (1 + ulp F32)"
    using dd rnd_upper_ge1 [of "d * d" F32] by (auto simp: p_def rnd_ge1)
  have "ulp F32 \<le> 1" by (simp add: ulp_F32)
  then have "d * d * (1 + ulp F32) \<le> 2 ^ 60 * 2"
    using le(2) dd ulp_pos [of F32] by (intro mult_mono) auto
  with p(2) have "p \<le> 2 ^ 61" by simp
  then have "\<bar>s + p\<bar> \<le> 2 ^ 127" using p(1) s le(1) by auto
  then have fin: "fround F32 (s + p) = Fin (rnd F32 (s + p))" by (rule fround_Fin_F32)
  have "\<bar>d * d\<bar> \<le> 2 ^ 127" using le(2) by simp
  then have "fmul F32 (Fin d) (Fin d) = Fin p" by (simp add: fround_Fin_F32 p_def)
  then have "fmac fused F32 (Fin s) (Fin d) (Fin d) = Fin (rnd F32 (s + p))"
    using False fin by (simp add: fmac_def)
  moreover have "rnd F32 (s + p) \<le> (s + p) * (1 + ulp F32)"
    using s p by (intro rnd_upper_ge1) auto
  moreover have "(s + p) * (1 + ulp F32) \<le> (s + d * d * (1 + ulp F32)) * (1 + ulp F32)"
    using ulp_pos [of F32] p by (intro mult_right_mono) auto
  moreover have "rnd F32 (s + p) = 0 \<or> 1 \<le> rnd F32 (s + p)"
    using s p by (cases "s + p = 0") (auto intro!: rnd_ge1)
  ultimately show ?thesis by fastforce
qed

lemmas fl_defs [fl_eval] =
  fround_def rnd_def rexp_def rne_def ilog2_def clog2_def flog2.simps fsub_def fmac_def
  fl_of_int_def Let_def power_int_def

text \<open>Small integers are exact; with these rules \<open>simp\<close> evaluates integer-valued operations.\<close>

lemma fround_numeral: "numeral k \<le> (2 :: int) ^ nat (prec F) \<Longrightarrow> fround F (numeral k) = Fin (numeral k)"
  using fround_of_int [of "numeral k" F] by simp

lemma fround_one: "fround F 1 = Fin 1"
  using fround_of_int [of 1 F] by simp

lemma fround_zero: "fround F 0 = Fin 0"
  using fround_of_int [of 0 F] by simp

lemma fround_neg_numeral: "numeral k \<le> (2 :: int) ^ nat (prec F) \<Longrightarrow> fround F (- numeral k) = Fin (- numeral k)"
  using fround_of_int [of "- numeral k" F] by simp

lemmas fl_small = fround_numeral fround_one fround_zero fround_neg_numeral fsub_def fmac_def

end
