(* ===== verification/Quantize.thy ===== *)
theory Quantize
  imports GoFloat
begin

text \<open>
  Quantisation of a real dimension to \<open>int16\<close>: \<open>quantize\<close> of
  \<open>internal/dataset/dataset.go\<close>, applied to the reference data, and
  \<open>quantClamp01\<close> of \<open>internal/vector/fast.go\<close>, applied to a request.
  The compiler may contract \<open>v * 10000 + 0.5\<close> into one fused operation; the
  flag \<open>fused\<close> says whether it does.
\<close>

definition QuantScale :: i16 where
  "QuantScale = 10000"

definition SentinelInt :: i16 where
  "SentinelInt = word_of_int (- 10000)"

definition quantize :: "bool \<Rightarrow> fl \<Rightarrow> i16" where
  "quantize fused v =
     (if fle v (fround F32 (- 1 + 1 / 1000000)) \<and> fle (fround F32 (- 1 - 1 / 1000000)) v then SentinelInt
      else if fle v (Fin 0) then 0
      else if fle (Fin 1) v then QuantScale
      else word_of_int (fl_trunc (fmac fused F32 (Fin (1 / 2)) v (Fin 10000))))"

definition quantClamp01 :: "bool \<Rightarrow> fl \<Rightarrow> i16" where
  "quantClamp01 fused x =
     (let v = fconv F32 x in
      if fle v (Fin 0) then 0
      else if fle (Fin 1) v then QuantScale
      else word_of_int (fl_trunc (fmac fused F32 (Fin (1 / 2)) v (Fin 10000))))"

subsection \<open>Range and accuracy\<close>

lemma tiny_F32_le: "tiny F32 \<le> 1 / 2 ^ 24"
proof -
  have "tiny F32 \<le> 2 powi (- 24)" unfolding tiny_def powi_le_iff by simp
  then show ?thesis by (simp add: power_int_def power_one_over)
qed

definition scaled :: "bool \<Rightarrow> real \<Rightarrow> real" where
  \<comment> \<open>the value the conversion truncates\<close>
  "scaled fused r = (if fused then rnd F32 (r * 10000 + 1 / 2) else rnd F32 (1 / 2 + rnd F32 (r * 10000)))"

lemma rnd_half_step: "rnd F32 (20001 / 2) = 20001 / 2"
proof -
  have "rnd F32 (of_int 20001 * 2 powi (- 1)) = of_int 20001 * 2 powi (- 1)"
    by (rule rnd_exact) auto
  then show ?thesis by (simp add: power_int_def)
qed

lemma scaled_bounds:
  assumes "0 \<le> r" "r \<le> 1"
  shows "0 \<le> scaled fused r" "scaled fused r \<le> 20001 / 2"
    "\<bar>scaled fused r - (r * 10000 + 1 / 2)\<bar> \<le> 1 / 512"
proof -
  define p where "p = rnd F32 (r * 10000)"
  have r: "0 \<le> r * 10000" "r * 10000 \<le> 10000" using assms by auto
  have p10: "rnd F32 10000 = 10000" using rnd_of_int [of 10000 F32] by simp
  have p: "0 \<le> p" "p \<le> 10000" using rnd_nonneg [of "r * 10000" F32] rnd_mono [of "r * 10000" 10000 F32] r p10
    by (auto simp: p_def)
  have err: "\<bar>rnd F32 x - x\<bar> \<le> 1 / 1024" if "0 \<le> x" "x \<le> 20001 / 2" for x
  proof -
    have "ulp F32 * \<bar>x\<bar> \<le> 1 / 2 ^ 24 * (20001 / 2)" using that by (intro mult_mono) (auto simp: ulp_F32)
    moreover have "tiny F32 \<le> 1 / 2 ^ 24" by (rule tiny_F32_le)
    ultimately show ?thesis using rnd_err [of F32 x] by simp
  qed
  have s: "scaled fused r = (if fused then rnd F32 (r * 10000 + 1 / 2) else rnd F32 (1 / 2 + p))"
    by (simp add: scaled_def p_def)
  show "0 \<le> scaled fused r" using r p by (auto simp: s intro!: rnd_nonneg)
  have "r * 10000 + 1 / 2 \<le> 20001 / 2" "1 / 2 + p \<le> 20001 / 2" using r p by auto
  from this [THEN rnd_mono, of F32] show "scaled fused r \<le> 20001 / 2" by (simp add: s rnd_half_step)
  show "\<bar>scaled fused r - (r * 10000 + 1 / 2)\<bar> \<le> 1 / 512"
  proof (cases fused)
    case True
    then show ?thesis using err [of "r * 10000 + 1 / 2"] r unfolding s by simp
  next
    case False
    have "\<bar>p - r * 10000\<bar> \<le> 1 / 1024" "\<bar>rnd F32 (1 / 2 + p) - (1 / 2 + p)\<bar> \<le> 1 / 1024"
      using err [of "r * 10000"] err [of "1 / 2 + p"] r p by (simp_all add: p_def)
    then have "\<bar>rnd F32 (1 / 2 + p) - (r * 10000 + 1 / 2)\<bar> \<le> 1 / 512" by linarith
    then show ?thesis using False unfolding s by simp
  qed
qed

lemma fmac_scaled:
  assumes "0 \<le> r" "r \<le> 1"
  shows "fmac fused F32 (Fin (1 / 2)) (Fin r) (Fin 10000) = Fin (scaled fused r)"
proof -
  have "\<bar>r * 10000\<bar> \<le> 2 ^ 127" "\<bar>r * 10000 + 1 / 2\<bar> \<le> 2 ^ 127" using assms by auto
  moreover have "rnd F32 (r * 10000) \<le> 10000"
    using rnd_mono [of "r * 10000" 10000 F32] rnd_of_int [of 10000 F32] assms by simp
  moreover have "0 \<le> rnd F32 (r * 10000)" using assms by (intro rnd_nonneg) simp
  ultimately have "\<bar>1 / 2 + rnd F32 (r * 10000)\<bar> \<le> 2 ^ 127" by simp
  with \<open>\<bar>r * 10000\<bar> \<le> 2 ^ 127\<close> \<open>\<bar>r * 10000 + 1 / 2\<bar> \<le> 2 ^ 127\<close> show ?thesis
    by (simp add: fmac_def scaled_def fround_Fin_F32)
qed

lemma trunc_scaled:
  assumes "0 \<le> r" "r \<le> 1"
  shows "0 \<le> fl_trunc (Fin (scaled fused r))" "fl_trunc (Fin (scaled fused r)) \<le> 10000"
    "\<bar>of_int (fl_trunc (Fin (scaled fused r))) - r * 10000\<bar> \<le> 1 / 2 + 1 / 512"
proof -
  define z where "z = scaled fused r"
  have z: "0 \<le> z" "z \<le> 20001 / 2" "\<bar>z - (r * 10000 + 1 / 2)\<bar> \<le> 1 / 512"
    using scaled_bounds [OF assms, of fused] by (simp_all add: z_def)
  have t: "fl_trunc (Fin (scaled fused r)) = \<lfloor>z\<rfloor>" using z(1) by (simp add: z_def)
  have "of_int \<lfloor>z\<rfloor> \<le> z" "z < of_int \<lfloor>z\<rfloor> + 1" by linarith+
  with z show "0 \<le> fl_trunc (Fin (scaled fused r))" "fl_trunc (Fin (scaled fused r)) \<le> 10000"
    "\<bar>of_int (fl_trunc (Fin (scaled fused r))) - r * 10000\<bar> \<le> 1 / 2 + 1 / 512"
    unfolding t by linarith+
qed

text \<open>Both functions clamp; the conversion to \<open>int16\<close> never leaves its range.\<close>

lemma clamp_cases:
  obtains "fle v (Fin 0)" | "\<not> fle v (Fin 0)" "fle (Fin 1) v" | r where "v = Fin r" "0 < r" "r < 1" | "v = NaN"
  by (cases v) (auto, smt (verit, ccfv_threshold))

lemma quantClamp01_cases:
  "sint (quantClamp01 fused x) \<in> {0..10000}"
proof (cases "fconv F32 x" rule: clamp_cases)
  case (3 r)
  then show ?thesis
    using trunc_scaled [of r fused] by (simp add: quantClamp01_def fmac_scaled del: fl_trunc.simps)
next
  case 4
  then show ?thesis by (simp add: quantClamp01_def fmac_def)
qed (auto simp: quantClamp01_def QuantScale_def)

lemma quantize_cases:
  "quantize fused v = SentinelInt \<or> sint (quantize fused v) \<in> {0..10000}"
proof (cases v rule: clamp_cases)
  case (3 r)
  then show ?thesis
    using trunc_scaled [of r fused] by (simp add: quantize_def fmac_scaled del: fl_trunc.simps)
next
  case 4
  then show ?thesis by (simp add: quantize_def fmac_def)
qed (auto simp: quantize_def QuantScale_def)

lemma sentinel_sint [simp]: "sint SentinelInt = - 10000"
  by (simp add: SentinelInt_def)

lemma quantize_range: "\<bar>sint (quantize fused v)\<bar> \<le> 10000"
  using quantize_cases [of fused v] by auto

lemma quantClamp01_range: "\<bar>sint (quantClamp01 fused v)\<bar> \<le> 10000"
  using quantClamp01_cases [of fused v] by auto

lemma above_sentinel: "- (1 / 2) \<le> r \<Longrightarrow> \<not> fle (Fin r) (fround F32 (- 1 + 1 / 1000000))"
proof -
  assume r: "- (1 / 2) \<le> r"
  have "fround F32 (- 1 + 1 / 1000000) = Fin (rnd F32 (- 1 + 1 / 1000000))" by (rule fround_Fin_F32) simp
  moreover have "rnd F32 (- 1 + 1 / 1000000) \<le> - 3 / 4"
  proof -
    have "rnd F32 (of_int (- 3) * 2 powi (- 2)) = of_int (- 3) * 2 powi (- 2)" by (rule rnd_exact) auto
    then have "rnd F32 (- 3 / 4) = - 3 / 4" by (simp add: power_int_def power2_eq_square)
    then show ?thesis using rnd_mono [of "- 1 + 1 / 1000000" "- 3 / 4" F32] by simp
  qed
  ultimately show ?thesis using r by simp
qed

text \<open>Away from the sentinel the two functions agree, so a request and a reference with the same
  float32 value get the same quantised value.\<close>

lemma quantClamp01_quantize:
  assumes "\<not> (fle (fconv F32 x) (fround F32 (- 1 + 1 / 1000000)) \<and> fle (fround F32 (- 1 - 1 / 1000000)) (fconv F32 x))"
  shows "quantClamp01 fused x = quantize fused (fconv F32 x)"
  unfolding quantClamp01_def quantize_def Let_def if_not_P [OF assms] by (rule refl)

lemma quantClamp01_sentinel:
  assumes "fle (fconv F32 x) (fround F32 (- 1 + 1 / 1000000)) \<and> fle (fround F32 (- 1 - 1 / 1000000)) (fconv F32 x)"
  shows "quantClamp01 fused x \<noteq> quantize fused (fconv F32 x)"
proof -
  have "quantize fused (fconv F32 x) = SentinelInt" using assms by (simp add: quantize_def)
  then show ?thesis using quantClamp01_cases [of fused x] sentinel_sint by (metis atLeastAtMost_iff neg_0_le_iff_le not_numeral_le_zero)
qed

lemma sentinel_ends:
  "fround F32 (- 1 + 1 / 1000000) = Fin (rnd F32 (- 1 + 1 / 1000000))"
  "fround F32 (- 1 - 1 / 1000000) = Fin (rnd F32 (- 1 - 1 / 1000000))"
  by (intro fround_Fin_F32; simp)+

lemma sentinel_band:
  "fle v (fround F32 (- 1 + 1 / 1000000)) \<and> fle (fround F32 (- 1 - 1 / 1000000)) v \<longleftrightarrow>
   (\<exists>r. v = Fin r \<and> rnd F32 (- 1 - 1 / 1000000) \<le> r \<and> r \<le> rnd F32 (- 1 + 1 / 1000000))"
  unfolding sentinel_ends by (cases v) auto

lemma sentinel_band_ends:
  "- 1 - 2 / 1000000 < rnd F32 (- 1 - 1 / 1000000)" "rnd F32 (- 1 + 1 / 1000000) < - 1 + 2 / 1000000"
proof -
  have "\<bar>rnd F32 x - x\<bar> < 1 / 1000000" if "\<bar>x\<bar> \<le> 2" for x
  proof -
    have "ulp F32 * \<bar>x\<bar> \<le> 1 / 2 ^ 24 * 2" using that by (intro mult_mono) (auto simp: ulp_F32)
    then show ?thesis using rnd_err [of F32 x] tiny_F32_le by simp
  qed
  from this [of "- 1 - 1 / 1000000"] this [of "- 1 + 1 / 1000000"]
  show "- 1 - 2 / 1000000 < rnd F32 (- 1 - 1 / 1000000)" "rnd F32 (- 1 + 1 / 1000000) < - 1 + 2 / 1000000"
    unfolding abs_less_iff by linarith+
qed

lemma quantize_near:
  assumes "0 \<le> r" "r \<le> 1"
  shows "\<bar>of_int (sint (quantize fused (Fin r))) - r * 10000\<bar> \<le> 1 / 2 + 1 / 512"
proof -
  have ns: "\<not> fle (Fin r) (fround F32 (- 1 + 1 / 1000000))" using assms by (intro above_sentinel) simp
  consider "r = 0" | "r = 1" | "0 < r" "r < 1" using assms by linarith
  then show ?thesis
  proof cases
    case 3
    then show ?thesis
      using ns trunc_scaled [of r fused] by (simp add: quantize_def fmac_scaled del: fl_trunc.simps)
  qed (use ns in \<open>auto simp: quantize_def QuantScale_def\<close>)
qed

lemma quantize_grid:
  assumes "k \<le> 10000"
  shows "quantize fused (fround F32 (of_nat k / 10000)) = word_of_int (int k)"
proof -
  define x :: real where "x = of_nat k / 10000"
  have x: "0 \<le> x" "x \<le> 1" using assms by (auto simp: x_def)
  have fr: "fround F32 x = Fin (rnd F32 x)" using x by (intro fround_Fin_F32) auto
  have r: "0 \<le> rnd F32 x" "rnd F32 x \<le> 1"
    using x rnd_nonneg [of x F32] rnd_mono [of x 1 F32] rnd_of_int [of 1 F32] by auto
  have "\<bar>rnd F32 x - x\<bar> \<le> 1 / 2 ^ 24 + tiny F32"
    using rnd_err [of F32 x] x ulp_pos [of F32] mult_left_le [of x "ulp F32"] by (simp add: ulp_F32)
  moreover have "tiny F32 \<le> 1 / 2 ^ 24" by (rule tiny_F32_le)
  ultimately have "\<bar>rnd F32 x - x\<bar> \<le> 2 / 2 ^ 24" by linarith
  moreover have "rnd F32 x * 10000 - of_nat k = 10000 * (rnd F32 x - x)" by (simp add: x_def)
  ultimately have "\<bar>rnd F32 x * 10000 - of_nat k\<bar> \<le> 10000 * (2 / 2 ^ 24)"
    by (simp only: abs_mult) simp
  moreover have "10000 * (2 / 2 ^ 24) < (1 / 4 :: real)" by simp
  ultimately have "\<bar>of_int (sint (quantize fused (fround F32 x))) - real k\<bar> < 1"
    using quantize_near [OF r, of fused] unfolding fr by linarith
  then have "sint (quantize fused (fround F32 x)) = int k" by linarith
  moreover have "sint (word_of_int (int k) :: i16) = int k" by (rule sint_word_of_int_i16) (use assms in auto)
  ultimately show ?thesis unfolding x_def by (metis signed_word_eqI)
qed

section \<open>Properties\<close>

text \<open>C22. The reference data, given with four decimals, is quantised without loss: the float32 nearest to
  \<open>k / 10000\<close> becomes exactly \<open>k\<close>.\<close>

theorem quantize_lossless:
  assumes "k \<le> 10000"
  shows "quantize fused (fround F32 (of_nat k / 10000)) = word_of_int (int k)"
  using assms by (rule quantize_grid)

theorem quantize_lossless_witness: "quantize False (fround F32 (of_nat 3333 / 10000)) = word_of_int (int 3333)"
  by (rule quantize_lossless) simp

text \<open>On the unit interval quantisation rounds to the nearest step, up to \<open>1 / 512\<close> of a step of
  rounding error.\<close>

theorem quantize_rounds:
  assumes "0 \<le> r" and "r \<le> 1"
  shows "\<bar>of_int (sint (quantize fused (Fin r))) - r * 10000\<bar> \<le> 1 / 2 + 1 / 512"
  using assms by (rule quantize_near)

theorem quantize_rounds_witness: "\<bar>of_int (sint (quantize True (Fin (1 / 4)))) - 1 / 4 * 10000\<bar> \<le> 1 / 2 + (1 / 512 :: real)"
  by (rule quantize_rounds) simp_all

text \<open>C23. A request and a reference are quantised alike exactly away from the sentinel: for every value, infinities
  and NaN included, \<open>quantClamp01\<close> is \<open>quantize\<close> of the float32 rounding, unless that rounding lies in the
  band around \<open>-1\<close> that \<open>quantize\<close> reads as a missing component, and there the two differ.  The band
  extends less than \<open>2 / 10 ^ 6\<close> to either side of \<open>-1\<close>.\<close>

theorem quantizers_agree:
  "(quantClamp01 fused x = quantize fused (fconv F32 x) \<longleftrightarrow>
     \<not> (\<exists>r. fconv F32 x = Fin r \<and> rnd F32 (- 1 - 1 / 1000000) \<le> r \<and> r \<le> rnd F32 (- 1 + 1 / 1000000))) \<and>
   - 1 - 2 / 1000000 < rnd F32 (- 1 - 1 / 1000000) \<and> rnd F32 (- 1 + 1 / 1000000) < - 1 + 2 / 1000000"
proof (intro conjI)
  show "quantClamp01 fused x = quantize fused (fconv F32 x) \<longleftrightarrow>
     \<not> (\<exists>r. fconv F32 x = Fin r \<and> rnd F32 (- 1 - 1 / 1000000) \<le> r \<and> r \<le> rnd F32 (- 1 + 1 / 1000000))"
    using quantClamp01_quantize [of x fused] quantClamp01_sentinel [of x fused] unfolding sentinel_band by blast
qed (use sentinel_band_ends in simp_all)

end
