(* ===== verification/Vectorize.thy ===== *)
theory Vectorize
  imports Quantize "HOL-Library.Signed_Division"
begin

text \<open>
  The request vectoriser: \<open>internal/vector/fast.go\<close> and
  \<open>internal/vector/vector.go\<close>.  A body is a byte string (\<open>char\<close> has exactly
  the 256 values of a byte).  \<open>VectorizeFast\<close> returns false on a malformed
  body (\<open>Reject\<close>) and panics where the code indexes out of range (\<open>Panic\<close>);
  the fourteen dimensions it writes are the result on success, and the callers
  look at them only then.
\<close>

subsection \<open>Outcomes\<close>

datatype 'a parse = Panic | Reject | Got 'a

fun pbind :: "'a parse \<Rightarrow> ('a \<Rightarrow> 'b parse) \<Rightarrow> 'b parse" where
  "pbind Panic f = Panic"
| "pbind Reject f = Reject"
| "pbind (Got x) f = f x"

lemma pbind_GotE: "pbind m f = Got y \<Longrightarrow> (\<And>x. m = Got x \<Longrightarrow> f x = Got y \<Longrightarrow> P) \<Longrightarrow> P"
  by (cases m) auto

lemma pbind_Got_iff: "pbind m f = Got y \<longleftrightarrow> (\<exists>x. m = Got x \<and> f x = Got y)"
  by (cases m) auto

subsection \<open>Bytes\<close>

definition is_ws :: "char \<Rightarrow> bool" where
  "is_ws c \<longleftrightarrow> c = CHR 0x20 \<or> c = CHR 0x09 \<or> c = CHR 0x0A \<or> c = CHR 0x0D"

definition is_digit :: "char \<Rightarrow> bool" where
  "is_digit c \<longleftrightarrow> (48 :: int) \<le> of_char c \<and> of_char c \<le> (57 :: int)"

definition dig :: "char \<Rightarrow> int" where
  \<comment> \<open>\<open>int(b - '0')\<close>: the subtraction is on bytes and wraps\<close>
  "dig c = (of_char c - 48) mod 256"

fun index_of :: "string \<Rightarrow> string \<Rightarrow> nat option" where
  \<comment> \<open>\<open>bytes.Index\<close>\<close>
  "index_of key [] = (if key = [] then Some 0 else None)"
| "index_of key (c # cs) =
     (if take (length key) (c # cs) = key then Some 0 else map_option Suc (index_of key cs))"

definition index_from :: "string \<Rightarrow> nat \<Rightarrow> string \<Rightarrow> nat parse" where
  \<comment> \<open>\<open>bytes.Index(body[p:], key)\<close> as a position of the body; the slice panics beyond the end\<close>
  "index_from body p key =
     (if length body < p then Panic
      else case index_of key (drop p body) of None \<Rightarrow> Reject | Some i \<Rightarrow> Got (p + i))"

definition seek :: "string \<Rightarrow> nat \<Rightarrow> string \<Rightarrow> nat parse" where
  \<comment> \<open>the position after the next occurrence of \<open>key\<close>\<close>
  "seek body p key = pbind (index_from body p key) (\<lambda>i. Got (i + length key))"

definition kTransAmount :: string where \<open>kTransAmount = ''"amount":''\<close>
definition kTransInst :: string where \<open>kTransInst = ''"installments":''\<close>
definition kTransReq :: string where \<open>kTransReq = ''"requested_at":"''\<close>
definition kCustAvg :: string where \<open>kCustAvg = ''"avg_amount":''\<close>
definition kCustTx24 :: string where \<open>kCustTx24 = ''"tx_count_24h":''\<close>
definition kCustKnown :: string where \<open>kCustKnown = ''"known_merchants":[''\<close>
definition kMerchObj :: string where \<open>kMerchObj = ''"merchant":''\<close>
definition kMerchID :: string where \<open>kMerchID = ''"id":"''\<close>
definition kMerchMCC :: string where \<open>kMerchMCC = ''"mcc":"''\<close>
definition kMerchAvg :: string where \<open>kMerchAvg = ''"avg_amount":''\<close>
definition kTermOnline :: string where \<open>kTermOnline = ''"is_online":''\<close>
definition kTermPresent :: string where \<open>kTermPresent = ''"card_present":''\<close>
definition kTermKmHome :: string where \<open>kTermKmHome = ''"km_from_home":''\<close>
definition kLastTx :: string where \<open>kLastTx = ''"last_transaction":''\<close>
definition kLastTS :: string where \<open>kLastTS = ''"timestamp":"''\<close>
definition kLastKM :: string where \<open>kLastKM = ''"km_from_current":''\<close>

lemmas key_defs = kTransAmount_def kTransInst_def kTransReq_def kCustAvg_def kCustTx24_def kCustKnown_def
  kMerchObj_def kMerchID_def kMerchMCC_def kMerchAvg_def kTermOnline_def kTermPresent_def kTermKmHome_def
  kLastTx_def kLastTS_def kLastKM_def

subsection \<open>Numbers\<close>

definition pow10 :: "fl list" where
  "pow10 = map (\<lambda>k. Fin (10 ^ k)) [0..<16]"

definition accum :: "string \<Rightarrow> int" where
  \<comment> \<open>\<open>n = n*10 + int64(b-'0')\<close> over a run of digits\<close>
  "accum ds = foldl (\<lambda>n c. wrap64 (n * 10 + dig c)) 0 ds"

definition read_unsigned :: "string \<Rightarrow> nat \<Rightarrow> (fl \<times> nat) option" where
  \<comment> \<open>\<open>parseFloat\<close> after the sign\<close>
  "read_unsigned body i =
     (if length body \<le> i \<or> \<not> is_digit (body ! i) then None else
      let ds = takeWhile is_digit (drop i body); i3 = i + length ds; v = fl_of_int F64 (accum ds) in
      if i3 < length body \<and> body ! i3 = CHR ''.'' then
        if length body \<le> i3 + 1 \<or> \<not> is_digit (body ! (i3 + 1)) then None else
        let fs = takeWhile is_digit (drop (i3 + 1) body);
            fracDigits = (if length pow10 \<le> length fs then length pow10 - 1 else length fs) in
        Some (fadd F64 v (fdiv F64 (fl_of_int F64 (accum fs)) (pow10 ! fracDigits)), i3 + 1 + length fs)
      else Some (v, i3))"

definition parseFloat :: "string \<Rightarrow> nat \<Rightarrow> (fl \<times> nat) option" where
  "parseFloat body i =
     (let i1 = i + length (takeWhile is_ws (drop i body)) in
      if length body \<le> i1 then None
      else if body ! i1 = CHR ''-'' then map_option (map_prod fneg id) (read_unsigned body (i1 + 1))
      else read_unsigned body i1)"

definition number :: "string \<Rightarrow> nat \<Rightarrow> (fl \<times> nat) parse" where
  "number body p = (case parseFloat body p of None \<Rightarrow> Reject | Some r \<Rightarrow> Got r)"

subsection \<open>Dates\<close>

definition twoDigits :: "string \<Rightarrow> nat \<Rightarrow> int" where
  "twoDigits b i = dig (b ! i) * 10 + dig (b ! (i + 1))"

definition fourDigits :: "string \<Rightarrow> nat \<Rightarrow> int" where
  "fourDigits b i = dig (b ! i) * 1000 + dig (b ! (i + 1)) * 100 + dig (b ! (i + 2)) * 10 + dig (b ! (i + 3))"

definition monthDaysBefore :: "int list" where
  "monthDaysBefore = [0, 31, 59, 90, 120, 151, 181, 212, 243, 273, 304, 334]"

definition isLeap :: "int \<Rightarrow> bool" where
  "isLeap y \<longleftrightarrow> (y smod 4 = 0 \<and> y smod 100 \<noteq> 0) \<or> y smod 400 = 0"

definition dayNumberFromYMD :: "int \<Rightarrow> int \<Rightarrow> int \<Rightarrow> int option" where
  "dayNumberFromYMD y m d =
     (let yPrev = y - 1;
          days = yPrev * 365 + yPrev sdiv 4 - yPrev sdiv 100 + yPrev sdiv 400 in
      if m < 1 then None
      else do {
        before \<leftarrow> get monthDaysBefore (nat (m - 1));
        let days' = days + before + d - 1;
        Some (if 2 < m \<and> isLeap y then days' + 1 else days')
      })"

definition timestamp :: "string \<Rightarrow> nat \<Rightarrow> (int \<times> int \<times> int) parse" where
  \<comment> \<open>day number, hour and minute of the time stamp at \<open>i\<close>\<close>
  "timestamp body i =
     (if length body \<le> i + 15 then Reject
      else case dayNumberFromYMD (fourDigits body i) (twoDigits body (i + 5)) (twoDigits body (i + 8)) of
        None \<Rightarrow> Panic
      | Some day \<Rightarrow> Got (day, twoDigits body (i + 11), twoDigits body (i + 14)))"

subsection \<open>Merchant category risk\<close>

definition DefaultMccRisk :: fl where
  "DefaultMccRisk = Fin (1 / 2)"

definition MccRisk :: "int \<Rightarrow> real option" where
  "MccRisk = [5411 \<mapsto> 15 / 100, 5812 \<mapsto> 30 / 100, 5912 \<mapsto> 20 / 100, 5944 \<mapsto> 45 / 100, 7801 \<mapsto> 80 / 100,
     7802 \<mapsto> 75 / 100, 7995 \<mapsto> 85 / 100, 4511 \<mapsto> 35 / 100, 5311 \<mapsto> 25 / 100, 5999 \<mapsto> 50 / 100]"

definition mccRiskTable :: "bool \<Rightarrow> int \<Rightarrow> i16" where
  "mccRiskTable fused mcc =
     (case MccRisk mcc of None \<Rightarrow> quantize fused DefaultMccRisk | Some risk \<Rightarrow> quantize fused (fround F32 risk))"

definition mcc_dim :: "bool \<Rightarrow> int \<Rightarrow> i16" where
  "mcc_dim fused mcc = (if mcc < 0 \<or> 10000 \<le> mcc then quantize fused DefaultMccRisk else mccRiskTable fused mcc)"

subsection \<open>The sections of the body, in the order the code reads them\<close>

definition transaction_part :: "string \<Rightarrow> (fl \<times> fl \<times> (int \<times> int \<times> int) \<times> nat) parse" where
  "transaction_part body =
     pbind (seek body 0 kTransAmount) (\<lambda>p.
     pbind (number body p) (\<lambda>(amount, p).
     pbind (seek body p kTransInst) (\<lambda>p.
     pbind (number body p) (\<lambda>(installments, p).
     pbind (seek body p kTransReq) (\<lambda>reqAt.
     pbind (timestamp body reqAt) (\<lambda>ts.
     Got (amount, installments, ts, reqAt + 20)))))))"

definition customer_part :: "string \<Rightarrow> nat \<Rightarrow> (fl \<times> fl \<times> nat) parse" where
  "customer_part body p =
     pbind (seek body p kCustAvg) (\<lambda>p.
     pbind (number body p) (\<lambda>(custAvg, p).
     pbind (seek body p kCustTx24) (\<lambda>p.
     pbind (number body p) (\<lambda>(tx24, p).
     Got (custAvg, tx24, p)))))"

definition merchant_part :: "string \<Rightarrow> nat \<Rightarrow> (string \<times> int \<times> fl \<times> nat) parse" where
  "merchant_part body p =
     pbind (index_from body p kMerchObj) (\<lambda>mp.
     pbind (seek body mp kMerchID) (\<lambda>idStart.
     let merchID = takeWhile (\<lambda>c. c \<noteq> CHR 0x22) (drop idStart body); idEnd = idStart + length merchID in
     if length body \<le> idEnd then Reject else
     pbind (seek body idEnd kMerchMCC) (\<lambda>mccStart.
     if length body \<le> mccStart + 3 then Reject else
     pbind (seek body (mccStart + 4) kMerchAvg) (\<lambda>mavgStart.
     pbind (number body mavgStart) (\<lambda>(merchAvg, p).
     Got (merchID, fourDigits body mccStart, merchAvg, p))))))"

function known_scan :: "string \<Rightarrow> string \<Rightarrow> bool" where
  \<comment> \<open>the loop over the quoted items between the brackets\<close>
  "known_scan merchID [] = False"
| "known_scan merchID (c # cs) =
     (if c = CHR 0x22 then
        let item = takeWhile (\<lambda>c. c \<noteq> CHR 0x22) cs in
        if length item = length cs then False
        else if item = merchID then True
        else known_scan merchID (drop (length item + 1) cs)
      else known_scan merchID cs)"
  by pat_completeness auto
termination
  by (relation "measure (length \<circ> snd)") auto

definition known_part :: "string \<Rightarrow> nat \<Rightarrow> string \<Rightarrow> bool parse" where
  "known_part body p merchID =
     pbind (seek body p kCustKnown) (\<lambda>knownStart.
     pbind (index_from body knownStart '']'') (\<lambda>knownEnd.
     Got (known_scan merchID (take (knownEnd - knownStart) (drop knownStart body)))))"

definition flag_at :: "string \<Rightarrow> nat \<Rightarrow> bool parse" where
  "flag_at body tp = (if length body \<le> tp then Reject else Got (body ! tp = CHR ''t''))"

definition terminal_part :: "string \<Rightarrow> nat \<Rightarrow> (bool \<times> bool \<times> fl \<times> nat) parse" where
  "terminal_part body p =
     pbind (seek body p kTermOnline) (\<lambda>tp.
     pbind (flag_at body tp) (\<lambda>online.
     pbind (seek body tp kTermPresent) (\<lambda>tp.
     pbind (flag_at body tp) (\<lambda>present.
     pbind (seek body tp kTermKmHome) (\<lambda>tp.
     pbind (number body tp) (\<lambda>(kmHome, p).
     Got (online, present, kmHome, p)))))))"

definition last_part :: "string \<Rightarrow> nat \<Rightarrow> ((int \<times> int \<times> int) \<times> fl) option parse" where
  "last_part body p =
     pbind (seek body p kLastTx) (\<lambda>lp0.
     let lp = lp0 + length (takeWhile is_ws (drop lp0 body)) in
     if length body \<le> lp then Reject
     else if body ! lp = CHR ''n'' then Got None
     else
       pbind (seek body lp kLastTS) (\<lambda>tsStart.
       pbind (timestamp body tsStart) (\<lambda>ts.
       pbind (seek body tsStart kLastKM) (\<lambda>kmStart.
       pbind (number body kmStart) (\<lambda>(kmCurrent, _).
       Got (Some (ts, kmCurrent)))))))"

subsection \<open>The vector\<close>

definition flag_dim :: "bool \<Rightarrow> i16" where
  "flag_dim b = (if b then QuantScale else 0)"

definition ratio :: "bool \<Rightarrow> fl \<Rightarrow> real \<Rightarrow> i16" where
  \<comment> \<open>\<open>quantClamp01(x / c)\<close> for a constant \<open>c\<close>\<close>
  "ratio fused x c = quantClamp01 fused (fdiv F64 x (Fin c))"

fun minutes :: "int \<times> int \<times> int \<Rightarrow> int" where
  "minutes (day, hour, mi) = day * 1440 + hour * 60 + mi"

definition VectorizeFast :: "bool \<Rightarrow> string \<Rightarrow> i16 list parse" where
  "VectorizeFast fused body =
     pbind (transaction_part body) (\<lambda>(amount, installments, (day, hour, mi), p).
     pbind (customer_part body p) (\<lambda>(custAvg, tx24, pAfterTx24).
     pbind (merchant_part body pAfterTx24) (\<lambda>(merchID, mcc, merchAvg, pAfterMerch).
     pbind (known_part body pAfterTx24 merchID) (\<lambda>found.
     pbind (terminal_part body pAfterMerch) (\<lambda>(online, present, kmHome, pAfterTerm).
     pbind (last_part body pAfterTerm) (\<lambda>last.
     Got [ratio fused amount 10000, ratio fused installments 12,
          (if flt (Fin 0) custAvg then ratio fused (fdiv F64 amount custAvg) 10 else QuantScale),
          ratio fused (fl_of_int F64 hour) 23, ratio fused (fl_of_int F64 (day smod 7)) 6,
          (case last of None \<Rightarrow> SentinelInt
            | Some (ts, _) \<Rightarrow> ratio fused (fl_of_int F64 (minutes (day, hour, mi) - minutes ts)) 1440),
          (case last of None \<Rightarrow> SentinelInt | Some (_, kmCurrent) \<Rightarrow> ratio fused kmCurrent 1000),
          ratio fused kmHome 1000, ratio fused tx24 20, flag_dim online, flag_dim present,
          (if found then 0 else QuantScale), mcc_dim fused mcc, ratio fused merchAvg 10000]))))))"

subsection \<open>Every vector is quantised\<close>

lemma ratio_range: "\<bar>sint (ratio fused x c)\<bar> \<le> 10000"
  by (simp add: ratio_def quantClamp01_range)

lemma mcc_dim_range: "\<bar>sint (mcc_dim fused mcc)\<bar> \<le> 10000"
  by (simp add: mcc_dim_def mccRiskTable_def quantize_range split: option.split)

lemma VectorizeFast_range:
  assumes "VectorizeFast fused body = Got out"
  shows "length out = 14 \<and> (\<forall>x \<in> set out. \<bar>sint x\<bar> \<le> 10000)"
  using assms unfolding VectorizeFast_def split_beta
  by (elim pbind_GotE) (auto simp: ratio_range mcc_dim_range flag_dim_def QuantScale_def split: option.split)

subsection \<open>Day numbers count the days of the Gregorian calendar\<close>

definition leap_year :: "int \<Rightarrow> bool" where
  "leap_year y \<longleftrightarrow> 4 dvd y \<and> (\<not> 100 dvd y \<or> 400 dvd y)"

definition days_in_month :: "int \<Rightarrow> int \<Rightarrow> int" where
  "days_in_month y m = (if m = 2 then if leap_year y then 29 else 28 else if m \<in> {4, 6, 9, 11} then 30 else 31)"

definition valid_date :: "int \<Rightarrow> int \<Rightarrow> int \<Rightarrow> bool" where
  "valid_date y m d \<longleftrightarrow> 1 \<le> y \<and> 1 \<le> m \<and> m \<le> 12 \<and> 1 \<le> d \<and> d \<le> days_in_month y m"

definition next_date :: "int \<Rightarrow> int \<Rightarrow> int \<Rightarrow> int \<times> int \<times> int" where
  "next_date y m d = (if d < days_in_month y m then (y, m, d + 1) else if m < 12 then (y, m + 1, 1) else (y + 1, 1, 1))"

lemma sdiv_nonneg: "0 \<le> a \<Longrightarrow> 0 < b \<Longrightarrow> a sdiv b = a div b" for a b :: int
  by (cases "a = 0") (simp_all add: signed_divide_int_def)

lemma smod_nonneg: "0 \<le> a \<Longrightarrow> 0 < b \<Longrightarrow> a smod b = a mod b" for a b :: int
  by (cases "a = 0") (simp_all add: signed_modulo_int_def)

lemma isLeap_leap_year: "1 \<le> y \<Longrightarrow> isLeap y = leap_year y"
proof -
  assume "1 \<le> y"
  then have "isLeap y \<longleftrightarrow> (4 dvd y \<and> \<not> 100 dvd y) \<or> 400 dvd y"
    by (simp add: isLeap_def smod_nonneg flip: dvd_eq_mod_eq_0)
  moreover have "400 dvd y \<Longrightarrow> 4 dvd y" by (rule dvd_trans [of 4 400]) simp_all
  ultimately show ?thesis unfolding leap_year_def by blast
qed

lemma month_cases:
  assumes "1 \<le> m" "m \<le> (12 :: int)"
  obtains "m = 1" | "m = 2" | "m = 3" | "m = 4" | "m = 5" | "m = 6" | "m = 7" | "m = 8" | "m = 9" | "m = 10" | "m = 11" | "m = 12"
  using assms by atomize_elim arith

definition years_days :: "int \<Rightarrow> int" where
  \<comment> \<open>the days of the years before \<open>y\<close>\<close>
  "years_days y = (y - 1) * 365 + (y - 1) div 4 - (y - 1) div 100 + (y - 1) div 400"

lemma div_pred: "(y :: int) div b = (y - 1) div b + (if b dvd y then 1 else 0)" if "0 < b"
proof -
  define q r where "q = y div b" and "r = y mod b"
  have y: "y = b * q + r" "0 \<le> r" "r < b" using that by (simp_all add: q_def r_def)
  show ?thesis
  proof (cases "r = 0")
    case True
    have "(b * q - 1) div b = q - 1"
      by (rule int_div_pos_eq [of _ _ _ "b - 1"]) (use that in \<open>auto simp: algebra_simps\<close>)
    then show ?thesis using True y(1) that by simp
  next
    case False
    have "(b * q + r - 1) div b = q" "(b * q + r) div b = q"
      by (rule int_div_pos_eq [of _ _ _ "r - 1"] int_div_pos_eq [of _ _ _ r], use y False in auto)+
    moreover have "\<not> b dvd y" using y False zdvd_imp_le [of b r] by (auto simp: dvd_add_right_iff)
    ultimately show ?thesis using y(1) by simp
  qed
qed

lemma years_days_Suc: "years_days (y + 1) = years_days y + (if leap_year y then 366 else 365)"
proof -
  have "(4 :: int) dvd 100" "(100 :: int) dvd 400" by simp_all
  then have imp: "100 dvd y \<Longrightarrow> 4 dvd y" "400 dvd y \<Longrightarrow> 100 dvd y" by (blast intro: dvd_trans)+
  define p q r where "p \<longleftrightarrow> 4 dvd y" and "q \<longleftrightarrow> 100 dvd y" and "r \<longleftrightarrow> 400 dvd y"
  define a b c where "a = (y - 1) div 4" and "b = (y - 1) div 100" and "c = (y - 1) div 400"
  have "y div 4 = a + (if p then 1 else 0)" "y div 100 = b + (if q then 1 else 0)" "y div 400 = c + (if r then 1 else 0)"
    unfolding p_def q_def r_def a_def b_def c_def by (rule div_pred; simp)+
  moreover have "years_days y = (y - 1) * 365 + a - b + c" unfolding years_days_def a_def b_def c_def by (rule refl)
  moreover have "years_days (y + 1) = y * 365 + y div 4 - y div 100 + y div 400" by (simp add: years_days_def)
  moreover have "leap_year y \<longleftrightarrow> p \<and> (\<not> q \<or> r)" unfolding leap_year_def p_def q_def r_def by (rule refl)
  ultimately show ?thesis using imp [folded p_def q_def r_def] by (cases p; cases q; cases r) simp_all
qed

lemma dayNumber_eq:
  assumes "valid_date y m d"
  shows "dayNumberFromYMD y m d =
    Some (years_days y + monthDaysBefore ! nat (m - 1) + (if 2 < m \<and> leap_year y then 1 else 0) + d - 1)"
proof -
  have y: "1 \<le> y" "1 \<le> m" "m \<le> 12" using assms by (auto simp: valid_date_def)
  then have "get monthDaysBefore (nat (m - 1)) = Some (monthDaysBefore ! nat (m - 1))"
    by (simp add: get_Some monthDaysBefore_def)
  then show ?thesis
    using y by (simp add: dayNumberFromYMD_def Let_def sdiv_nonneg isLeap_leap_year years_days_def)
qed

lemma dayNumber_next:
  assumes v: "valid_date y m d" and n: "dayNumberFromYMD y m d = Some n" and e: "next_date y m d = (y', m', d')"
  shows "valid_date y' m' d' \<and> dayNumberFromYMD y' m' d' = Some (n + 1)"
proof -
  have b: "1 \<le> y" "1 \<le> m" "m \<le> 12" "1 \<le> d" "d \<le> days_in_month y m" using v by (auto simp: valid_date_def)
  have v': "valid_date y' m' d'"
    using b e by (auto simp: next_date_def valid_date_def days_in_month_def split: if_splits)
  show ?thesis
  proof (cases "d < days_in_month y m")
    case True
    then show ?thesis using e v' n dayNumber_eq [OF v] dayNumber_eq [OF v'] by (auto simp: next_date_def)
  next
    case False
    then have d: "d = days_in_month y m" using b by simp
    show ?thesis
      using b(2,3) v' n e dayNumber_eq [OF v] dayNumber_eq [OF v'] years_days_Suc [of y]
      by (cases m rule: month_cases)
        (auto simp: next_date_def d days_in_month_def monthDaysBefore_def nth_Cons' split: if_splits)
  qed
qed

subsection \<open>Reading decimal numbers\<close>

definition dec :: "string \<Rightarrow> int" where
  \<comment> \<open>the number a digit string stands for\<close>
  "dec ds = foldl (\<lambda>n c. n * 10 + dig c) 0 ds"

lemma dig_range: "is_digit c \<Longrightarrow> 0 \<le> dig c \<and> dig c \<le> 9"
  by (auto simp: is_digit_def dig_def)

lemma dec_snoc: "dec (ds @ [c]) = dec ds * 10 + dig c"
  by (simp add: dec_def)

lemma accum_snoc: "accum (ds @ [c]) = wrap64 (accum ds * 10 + dig c)"
  by (simp add: accum_def)

lemma dec_range: "list_all is_digit ds \<Longrightarrow> 0 \<le> dec ds \<and> dec ds < 10 ^ length ds"
proof (induction ds rule: rev_induct)
  case (snoc c ds)
  then show ?case using dig_range [of c] by (simp add: dec_snoc)
qed (simp add: dec_def)

lemma accum_dec: "list_all is_digit ds \<Longrightarrow> length ds \<le> 18 \<Longrightarrow> accum ds = dec ds"
proof (induction ds rule: rev_induct)
  case (snoc c ds)
  have "dec (ds @ [c]) < 10 ^ length (ds @ [c])" "0 \<le> dec (ds @ [c])" using dec_range [of "ds @ [c]"] snoc.prems by auto
  moreover have "(10 :: int) ^ length (ds @ [c]) \<le> 10 ^ 18" using snoc.prems by (intro power_increasing) auto
  ultimately show ?case using snoc by (simp add: accum_snoc dec_snoc)
qed (simp add: accum_def dec_def)

text \<open>A JSON number without exponent: sign, integer digits, fraction digits.\<close>

datatype num = Num bool string string

fun render_num :: "num \<Rightarrow> string" where
  "render_num (Num neg ds fs) = (if neg then ''-'' else []) @ ds @ (if fs = [] then [] else CHR ''.'' # fs)"

fun num_ok :: "num \<Rightarrow> bool" where
  "num_ok (Num neg ds fs) \<longleftrightarrow> ds \<noteq> [] \<and> list_all is_digit ds \<and> list_all is_digit fs \<and> length ds \<le> 15 \<and> length fs \<le> 15"

fun num_fl :: "num \<Rightarrow> fl" where
  \<comment> \<open>one rounded division and one rounded addition\<close>
  "num_fl (Num neg ds fs) =
     (let x = (if fs = [] then Fin (of_int (dec ds))
               else fadd F64 (Fin (of_int (dec ds))) (fdiv F64 (Fin (of_int (dec fs))) (Fin (10 ^ length fs))))
      in if neg then fneg x else x)"

fun num_val :: "num \<Rightarrow> real" where
  \<comment> \<open>the number meant\<close>
  "num_val (Num neg ds fs) = (if neg then - 1 else 1) * (of_int (dec ds) + of_int (dec fs) / 10 ^ length fs)"

lemma digits_dec_small: "list_all is_digit ds \<Longrightarrow> length ds \<le> 15 \<Longrightarrow> \<bar>dec ds\<bar> \<le> 10 ^ 15"
proof -
  assume ds: "list_all is_digit ds" "length ds \<le> 15"
  then have "dec ds < 10 ^ length ds" "0 \<le> dec ds" using dec_range by blast+
  moreover have "(10 :: int) ^ length ds \<le> 10 ^ 15" using ds by (intro power_increasing) auto
  ultimately show ?thesis by simp
qed

lemma fl_of_accum: "list_all is_digit ds \<Longrightarrow> length ds \<le> 15 \<Longrightarrow> fl_of_int F64 (accum ds) = Fin (of_int (dec ds))"
  using digits_dec_small [of ds] by (simp add: accum_dec)

lemma pow10_nth: "k < 16 \<Longrightarrow> pow10 ! k = Fin (10 ^ k)" and length_pow10: "length pow10 = 16"
  by (simp_all add: pow10_def)

lemma takeWhile_append_stop: "list_all P xs \<Longrightarrow> \<not> P c \<Longrightarrow> takeWhile P (xs @ c # ys) = xs"
  by (induction xs) auto

lemma digit_not_special: "is_digit c \<Longrightarrow> c \<noteq> CHR ''-'' \<and> c \<noteq> CHR ''.'' \<and> c \<noteq> CHR 0x22 \<and> \<not> is_ws c"
  by (auto simp: is_digit_def is_ws_def)

lemma read_unsigned_at:
  assumes ds: "ds \<noteq> []" "list_all is_digit ds" "length ds \<le> 15" and fs: "list_all is_digit fs" "length fs \<le> 15"
    and c: "\<not> is_digit c" "c \<noteq> CHR ''.''"
    and body: "body = pre @ ds @ (if fs = [] then [] else CHR ''.'' # fs) @ c # post"
  shows "read_unsigned body (length pre) =
    Some (if fs = [] then Fin (of_int (dec ds))
          else fadd F64 (Fin (of_int (dec ds))) (fdiv F64 (Fin (of_int (dec fs))) (Fin (10 ^ length fs))),
      length (pre @ ds @ (if fs = [] then [] else CHR ''.'' # fs)))"
proof -
  define rest where "rest = (if fs = [] then c # post else CHR ''.'' # fs @ c # post)"
  have b: "body = pre @ ds @ rest" by (simp add: body rest_def)
  have d0: "length pre < length body" "is_digit (body ! length pre)" using ds by (cases ds; simp add: b)+
  have nd: "\<not> is_digit CHR ''.''" by (simp add: is_digit_def)
  have run: "takeWhile is_digit (drop (length pre) body) = ds"
    using takeWhile_append_stop [OF ds(2) c(1)] takeWhile_append_stop [OF ds(2) nd] by (simp add: b rest_def)
  have v: "fl_of_int F64 (accum ds) = Fin (of_int (dec ds))" using fl_of_accum ds by blast
  show ?thesis
  proof (cases "fs = []")
    case True
    then have "body ! (length pre + length ds) \<noteq> CHR ''.''" using c by (simp add: b rest_def nth_append)
    then show ?thesis using d0 run v True by (simp add: read_unsigned_def)
  next
    case False
    have dot: "length pre + length ds < length body" "body ! (length pre + length ds) = CHR ''.''"
      using False by (simp_all add: b rest_def nth_append)
    have f0: "Suc (length pre + length ds) < length body" "is_digit (body ! Suc (length pre + length ds))"
      using fs False by (cases fs; simp add: b rest_def nth_append)+
    have run2: "takeWhile is_digit (drop (Suc (length pre + length ds)) body) = fs"
      using takeWhile_append_stop [OF fs(1) c(1)] False by (simp add: b rest_def)
    have "fl_of_int F64 (accum fs) = Fin (of_int (dec fs))" "pow10 ! length fs = Fin (10 ^ length fs)"
      using fl_of_accum fs by (auto simp: pow10_nth)
    then show ?thesis using d0 run v False dot f0 run2 fs by (simp add: read_unsigned_def length_pow10)
  qed
qed

lemma parse_num:
  assumes n: "num_ok n" and c: "\<not> is_digit c" "c \<noteq> CHR ''.''"
  shows "parseFloat (pre @ render_num n @ c # post) (length pre) = Some (num_fl n, length (pre @ render_num n))"
proof -
  obtain neg ds fs where n': "n = Num neg ds fs" by (cases n)
  have ds: "ds \<noteq> []" "list_all is_digit ds" "length ds \<le> 15" and fs: "list_all is_digit fs" "length fs \<le> 15"
    using n by (auto simp: n')
  have d0: "is_digit (hd ds)" using ds by (cases ds) auto
  define body where "body = pre @ render_num n @ c # post"
  have "\<not> is_ws (hd ds)" using digit_not_special d0 by blast
  moreover have "\<not> is_ws CHR ''-''" by (simp add: is_ws_def)
  ultimately have ws: "takeWhile is_ws (drop (length pre) body) = []"
    using ds(1) by (cases ds) (auto simp: body_def n')
  have len: "length pre < length body" by (simp add: body_def)
  show ?thesis
  proof (cases neg)
    case True
    have b: "body = (pre @ ''-'') @ ds @ (if fs = [] then [] else CHR ''.'' # fs) @ c # post"
      using True by (simp add: body_def n')
    have "body ! length pre = CHR ''-''" by (simp add: b nth_append)
    then show ?thesis
      using ws len read_unsigned_at [OF ds fs c b] True
      unfolding body_def [symmetric] by (simp add: parseFloat_def n')
  next
    case False
    have b: "body = pre @ ds @ (if fs = [] then [] else CHR ''.'' # fs) @ c # post"
      using False by (simp add: body_def n')
    have "body ! length pre \<noteq> CHR ''-''" using ds(1) digit_not_special [OF d0] by (cases ds) (auto simp: b nth_append)
    then show ?thesis
      using ws len read_unsigned_at [OF ds fs c b] False
      unfolding body_def [symmetric] by (simp add: parseFloat_def n')
  qed
qed

lemma number_at:
  "num_ok n \<Longrightarrow> \<not> is_digit c \<Longrightarrow> c \<noteq> CHR ''.'' \<Longrightarrow>
   number (pre @ render_num n @ c # post) (length pre) = Got (num_fl n, length (pre @ render_num n))"
  by (simp add: number_def parse_num)

text \<open>The value read is within a relative error of \<open>2 ^ -51\<close> of the number written.\<close>

lemma rnd64_rel:
  assumes "x = 0 \<or> 1 / 10 ^ 16 \<le> \<bar>x\<bar>"
  shows "\<bar>rnd F64 x - x\<bar> \<le> \<bar>x\<bar> / 2 ^ 53"
proof (cases "x = 0")
  case False
  have "(2 :: real) powi (emin F64 + prec F64 - 1) \<le> 2 powi (- 54)" unfolding powi_le_iff by simp
  also have "\<dots> \<le> 1 / 10 ^ 16" by (simp add: power_int_def power_one_over)
  finally show ?thesis using rnd_err_normal [of F64 x] assms False by (simp add: ulp_F64)
qed simp

lemma num_fl_accurate:
  assumes "num_ok n"
  shows "\<exists>r. num_fl n = Fin r \<and> \<bar>r - num_val n\<bar> \<le> \<bar>num_val n\<bar> / 2 ^ 51"
proof -
  obtain neg ds fs where n: "n = Num neg ds fs" by (cases n)
  define D F :: real where "D = of_int (dec ds)" and "F = of_int (dec fs)"
  define T :: real where "T = 10 ^ length fs"
  have ok: "list_all is_digit ds" "list_all is_digit fs" "length ds \<le> 15" "length fs \<le> 15" using assms by (auto simp: n)
  have D: "0 \<le> D" "D \<le> 10 ^ 15" "D = 0 \<or> 1 \<le> D" and F: "0 \<le> F" "F \<le> 10 ^ 15" "F = 0 \<or> 1 \<le> F"
    using dec_range [OF ok(1)] dec_range [OF ok(2)] digits_dec_small [OF ok(1,3)] digits_dec_small [OF ok(2,4)]
    by (auto simp: D_def F_def)
  have T: "1 \<le> T" "T \<le> 10 ^ 15" using ok(4) power_increasing [of "length fs" 15 "10 :: real"] by (auto simp: T_def)
  define q0 where "q0 = F / T"
  define q where "q = rnd F64 q0"
  have q0: "0 \<le> q0" "q0 \<le> 10 ^ 15" "q0 = 0 \<or> 1 / 10 ^ 15 \<le> q0"
  proof -
    show "0 \<le> q0" using F T by (simp add: q0_def)
    have "F / T \<le> F / 1" using F T by (intro divide_left_mono) auto
    then show "q0 \<le> 10 ^ 15" using F by (simp add: q0_def)
    have "1 \<le> F \<Longrightarrow> 1 / 10 ^ 15 \<le> F / T" using T by (intro frac_le) auto
    then show "q0 = 0 \<or> 1 / 10 ^ 15 \<le> q0" using F by (auto simp: q0_def)
  qed
  have qe: "\<bar>q - q0\<bar> \<le> q0 / 2 ^ 53" using rnd64_rel [of q0] q0 by (auto simp: q_def)
  have q: "0 \<le> q" "q \<le> 2 * 10 ^ 15"
  proof -
    show "0 \<le> q" using q0 by (auto simp: q_def intro: rnd_nonneg)
    have "\<bar>q - q0\<bar> \<le> q0" using qe q0(1) by simp
    then show "q \<le> 2 * 10 ^ 15" using q0(2) by linarith
  qed
  define s where "s = rnd F64 (D + q)"
  have "D + q = 0 \<or> 1 / 10 ^ 16 \<le> D + q"
  proof (cases "D = 0")
    case True
    have "q0 = 0 \<or> 1 / 10 ^ 16 \<le> q" using q0(3) qe by (auto simp: abs_le_iff)
    then show ?thesis using True qe by auto
  qed (use D q in auto)
  then have se: "\<bar>s - (D + q)\<bar> \<le> (D + q) / 2 ^ 53"
    using rnd64_rel [of "D + q"] D q by (auto simp: s_def)
  have val: "num_val n = (if neg then - (D + q0) else D + q0)" by (simp add: n D_def F_def q0_def T_def)
  have fin: "fround F64 q0 = Fin q" "fround F64 (D + q) = Fin s"
    using q0 q D unfolding q_def s_def by (auto intro!: fround_Fin_F64)
  have "\<bar>s - (D + q0)\<bar> \<le> (D + q0) / 2 ^ 51"
  proof -
    have "\<bar>s - (D + q0)\<bar> \<le> (D + q) / 2 ^ 53 + q0 / 2 ^ 53" using se qe by linarith
    moreover have "q \<le> 2 * q0"
    proof -
      have "\<bar>q - q0\<bar> \<le> q0" using qe q0(1) by simp
      then show ?thesis by linarith
    qed
    ultimately show ?thesis using D q0 by (simp add: field_simps)
  qed
  moreover define x where "x = (if fs = [] then D else s)"
  moreover have "fs = [] \<Longrightarrow> q0 = 0" by (simp add: q0_def F_def dec_def)
  ultimately have x: "\<bar>x - (D + q0)\<bar> \<le> (D + q0) / 2 ^ 51" using D by auto
  have "num_fl n = Fin (if neg then - x else x)"
    using T fin by (auto simp: n D_def F_def q0_def T_def x_def)
  moreover have "- x - - (D + q0) = - (x - (D + q0))" "\<bar>D + q0\<bar> = D + q0" using D q0 by auto
  ultimately show ?thesis using x unfolding val by (cases neg) (auto simp only: abs_minus_cancel if_True if_False fl.inject)
qed

subsection \<open>Finding a key in a rendered body\<close>

definition no_quote :: "string \<Rightarrow> bool" where
  "no_quote s \<longleftrightarrow> CHR 0x22 \<notin> set s"

lemma no_quote_simps [simp]:
  "no_quote []" "no_quote (c # s) \<longleftrightarrow> c \<noteq> CHR 0x22 \<and> no_quote s" "no_quote (s @ t) \<longleftrightarrow> no_quote s \<and> no_quote t"
  by (auto simp: no_quote_def)

lemma index_of_skip:
  \<comment> \<open>no key starts inside text without quotes\<close>
  assumes "no_quote xs"
  shows "index_of (CHR 0x22 # k) (xs @ ys) = map_option ((+) (length xs)) (index_of (CHR 0x22 # k) ys)"
  using assms by (induction xs) (cases "index_of (CHR 0x22 # k) ys"; auto)+

lemma index_of_here: "index_of key (key @ ys) = Some 0"
  by (cases key; cases ys) auto

lemma index_of_quote:
  "index_of (CHR 0x22 # k) (CHR 0x22 # ys) =
     (if take (length k) ys = k then Some 0 else map_option Suc (index_of (CHR 0x22 # k) ys))"
  by simp

lemma quoted_not_key:
  \<comment> \<open>a quoted text not followed by a colon is not a key\<close>
  assumes "no_quote x" "no_quote k" "c \<noteq> CHR '':''"
  shows "take n (x @ CHR 0x22 # c # zs) \<noteq> k @ [CHR 0x22, CHR '':'']"
proof
  assume "take n (x @ CHR 0x22 # c # zs) = k @ [CHR 0x22, CHR '':'']"
  then have eq: "x @ CHR 0x22 # c # zs = k @ CHR 0x22 # CHR '':'' # drop n (x @ CHR 0x22 # c # zs)"
    by (metis append.assoc append_Cons append_Nil append_take_drop_id)
  have tw: "no_quote y \<Longrightarrow> takeWhile (\<lambda>c. c \<noteq> CHR 0x22) (y @ CHR 0x22 # ys) = y" for y ys
    by (induction y) auto
  have "x = k" using arg_cong [OF eq, of "takeWhile (\<lambda>c. c \<noteq> CHR 0x22)"] tw assms(1,2) by simp
  then show False using eq assms(3) by simp
qed

lemma index_of_quoted:
  assumes "no_quote x" "no_quote k" "c \<noteq> CHR '':''" "key = CHR 0x22 # k @ [CHR 0x22, CHR '':'']"
  shows "index_of key (CHR 0x22 # x @ CHR 0x22 # c # zs) = map_option ((+) (Suc (length x))) (index_of key (CHR 0x22 # c # zs))"
proof -
  have "index_of key (CHR 0x22 # x @ CHR 0x22 # c # zs) = map_option Suc (index_of key (x @ CHR 0x22 # c # zs))"
    using quoted_not_key [OF assms(1-3)] by (simp add: assms(4))
  also have "index_of key (x @ CHR 0x22 # c # zs) = map_option ((+) (length x)) (index_of key (CHR 0x22 # c # zs))"
    unfolding assms(4) by (rule index_of_skip [OF assms(1)])
  finally show ?thesis by (simp add: option.map_comp comp_def)
qed

lemma index_from_at:
  "index_of key rest = Some i \<Longrightarrow> index_from (pre @ rest) (length pre) key = Got (length pre + i)"
  by (simp add: index_from_def)

lemma seek_at:
  "index_of key (mid @ key @ rest) = Some (length mid) \<Longrightarrow>
   seek (pre @ mid @ key @ rest) (length pre) key = Got (length (pre @ mid @ key))"
  by (simp add: seek_def index_from_at add.assoc)

subsection \<open>Rendering a request\<close>

definition dchr :: "nat \<Rightarrow> char" where
  "dchr k = char_of (48 + k)"

lemma dig_dchr: "k < 10 \<Longrightarrow> dig (dchr k) = int k" and digit_dchr: "k < 10 \<Longrightarrow> is_digit (dchr k)"
proof -
  assume "k < 10"
  moreover have "\<forall>k \<in> set [0..<10]. (of_char (dchr k) :: int) = 48 + int k" by code_simp
  ultimately have "(of_char (dchr k) :: int) = 48 + int k" by simp
  then show "dig (dchr k) = int k" "is_digit (dchr k)" using \<open>k < 10\<close> by (simp_all add: dig_def is_digit_def)
qed

definition digits2 :: "nat \<Rightarrow> string" where
  "digits2 n = [dchr (n div 10), dchr (n mod 10)]"

definition digits4 :: "nat \<Rightarrow> string" where
  "digits4 n = [dchr (n div 1000), dchr (n div 100 mod 10), dchr (n div 10 mod 10), dchr (n mod 10)]"

record stamp =
  year :: nat
  month :: nat
  day :: nat
  hour :: nat
  minute :: nat
  tail_text :: string   \<comment> \<open>seconds and zone, as in \<open>:53Z\<close>\<close>

definition stamp_ok :: "stamp \<Rightarrow> bool" where
  "stamp_ok t \<longleftrightarrow> valid_date (int (year t)) (int (month t)) (int (day t)) \<and> year t < 10000 \<and> hour t < 24 \<and> minute t < 60 \<and>
     length (tail_text t) = 4 \<and> no_quote (tail_text t)"

definition render_stamp :: "stamp \<Rightarrow> string" where
  "render_stamp t = digits4 (year t) @ ''-'' @ digits2 (month t) @ ''-'' @ digits2 (day t) @ ''T'' @ digits2 (hour t) @ '':'' @ digits2 (minute t) @ tail_text t"

definition stamp_val :: "stamp \<Rightarrow> int \<times> int \<times> int" where
  "stamp_val t = (the (dayNumberFromYMD (int (year t)) (int (month t)) (int (day t))), int (hour t), int (minute t))"

lemma digits2_dig: "n < 100 \<Longrightarrow> dig (dchr (n div 10)) * 10 + dig (dchr (n mod 10)) = int n"
proof -
  assume "n < 100"
  moreover have "int (n div 10) * 10 + int (n mod 10) = int n"
    by (metis div_mult_mod_eq of_nat_add of_nat_mult of_nat_numeral)
  ultimately show ?thesis by (simp add: dig_dchr less_mult_imp_div_less)
qed

lemma digits4_dig: "n < 10000 \<Longrightarrow> dig (dchr (n div 1000)) * 1000 + dig (dchr (n div 100 mod 10)) * 100 +
    dig (dchr (n div 10 mod 10)) * 10 + dig (dchr (n mod 10)) = int n"
proof -
  assume "n < 10000"
  moreover have "int (n div 1000) * 1000 + int (n div 100 mod 10) * 100 + int (n div 10 mod 10) * 10 + int (n mod 10) = int n"
  proof -
    have e: "n div 10 div 10 = n div 100" "n div 100 div 10 = n div 1000" by (simp_all flip: div_mult2_eq)
    have "n div 100 = n div 1000 * 10 + n div 100 mod 10" using div_mult_mod_eq [of "n div 100" 10] e by simp
    moreover have "n div 10 = n div 100 * 10 + n div 10 mod 10" using div_mult_mod_eq [of "n div 10" 10] e by simp
    ultimately have "n div 1000 * 1000 + n div 100 mod 10 * 100 + n div 10 mod 10 * 10 + n mod 10 = n"
      using div_mult_mod_eq [of n 10] by linarith
    from arg_cong [OF this, of int] show ?thesis by (simp only: of_nat_add of_nat_mult of_nat_numeral)
  qed
  ultimately show ?thesis by (simp add: dig_dchr less_mult_imp_div_less)
qed

lemma length_stamp: "stamp_ok t \<Longrightarrow> length (render_stamp t) = 20"
  by (simp add: render_stamp_def stamp_ok_def digits2_def digits4_def)

lemma timestamp_reads:
  assumes ok: "year t < 10000" "month t < 100" "day t < 100" "hour t < 100" "minute t < 100" "length (tail_text t) = 4"
  shows "timestamp (pre @ render_stamp t @ post) (length pre) =
    (case dayNumberFromYMD (int (year t)) (int (month t)) (int (day t)) of
       None \<Rightarrow> Panic | Some n \<Rightarrow> Got (n, int (hour t), int (minute t)))"
proof -
  define body where "body = pre @ render_stamp t @ post"
  obtain s1 s2 s3 s4 where tl: "tail_text t = [s1, s2, s3, s4]"
    using ok(6) by (auto simp: length_Suc_conv eval_nat_numeral)
  have n: "body ! (length pre + j) = (render_stamp t @ post) ! j" for j by (simp add: body_def nth_append)
  have shown: "render_stamp t = [dchr (year t div 1000), dchr (year t div 100 mod 10), dchr (year t div 10 mod 10), dchr (year t mod 10),
      CHR ''-'', dchr (month t div 10), dchr (month t mod 10), CHR ''-'', dchr (day t div 10), dchr (day t mod 10), CHR ''T'',
      dchr (hour t div 10), dchr (hour t mod 10), CHR '':'', dchr (minute t div 10), dchr (minute t mod 10), s1, s2, s3, s4]"
    by (simp add: render_stamp_def digits4_def digits2_def tl)
  have "fourDigits body (length pre) = int (year t)"
    using n [of 0] n [of 1] n [of 2] n [of 3] digits4_dig [OF ok(1)] by (simp add: fourDigits_def shown)
  moreover have two: "twoDigits body (length pre + a) = dig ((render_stamp t @ post) ! a) * 10 + dig ((render_stamp t @ post) ! (a + 1))" for a
    unfolding twoDigits_def n [symmetric] by (simp add: add.assoc)
  have "twoDigits body (length pre + 5) = int (month t)" unfolding two shown using digits2_dig [OF ok(2)] by simp
  moreover have "twoDigits body (length pre + 8) = int (day t)" unfolding two shown using digits2_dig [OF ok(3)] by simp
  moreover have "twoDigits body (length pre + 11) = int (hour t)" unfolding two shown using digits2_dig [OF ok(4)] by simp
  moreover have "twoDigits body (length pre + 14) = int (minute t)" unfolding two shown using digits2_dig [OF ok(5)] by simp
  moreover have "length pre + 15 < length body" by (simp add: body_def shown)
  ultimately show ?thesis
    unfolding body_def [symmetric] by (simp add: timestamp_def split: option.split)
qed

lemma timestamp_at:
  assumes ok: "stamp_ok t"
  shows "timestamp (pre @ render_stamp t @ post) (length pre) = Got (stamp_val t)"
proof -
  have v: "valid_date (int (year t)) (int (month t)) (int (day t))" using ok by (simp add: stamp_ok_def)
  then have "month t < 100" "day t < 100" by (auto simp: valid_date_def days_in_month_def split: if_splits)
  then show ?thesis
    using timestamp_reads [of t pre post] ok dayNumber_eq [OF v] by (simp add: stamp_ok_def stamp_val_def)
qed

subsection \<open>The body the game client sends\<close>

record request =
  txid :: string
  amount :: num
  installments :: num
  requested :: stamp
  cust_avg :: num
  tx_count :: num
  known :: "string list"
  merch_id :: string
  mcc_code :: nat
  merch_avg :: num
  online :: bool
  present :: bool
  km_home :: num
  last_tx :: "(stamp \<times> num) option"

definition request_ok :: "request \<Rightarrow> bool" where
  "request_ok r \<longleftrightarrow> no_quote (txid r) \<and> num_ok (amount r) \<and> num_ok (installments r) \<and> stamp_ok (requested r) \<and>
     num_ok (cust_avg r) \<and> num_ok (tx_count r) \<and> (\<forall>m \<in> set (known r). no_quote m \<and> CHR '']'' \<notin> set m) \<and> no_quote (merch_id r) \<and>
     mcc_code r < 10000 \<and> num_ok (merch_avg r) \<and> num_ok (km_home r) \<and>
     (case last_tx r of None \<Rightarrow> True | Some (t, km) \<Rightarrow> stamp_ok t \<and> num_ok km)"

fun render_items :: "string list \<Rightarrow> string" where
  "render_items [] = []"
| "render_items [m] = ''\"'' @ m @ ''\"''"
| "render_items (m # ms) = ''\"'' @ m @ ''\",'' @ render_items ms"

definition render_bool :: "bool \<Rightarrow> string" where
  "render_bool b = (if b then ''true'' else ''false'')"

definition transaction_text :: "request \<Rightarrow> string" where
  \<open>transaction_text r = ''{"id":"'' @ txid r @ ''","transaction":{"amount":'' @ render_num (amount r) @
     '',"installments":'' @ render_num (installments r) @ '',"requested_at":"'' @ render_stamp (requested r)\<close>

definition customer_text :: "request \<Rightarrow> string" where
  \<open>customer_text r = ''"},"customer":{"avg_amount":'' @ render_num (cust_avg r) @
     '',"tx_count_24h":'' @ render_num (tx_count r)\<close>

definition known_text :: "request \<Rightarrow> string" where
  \<open>known_text r = '',"known_merchants":['' @ render_items (known r) @ '']},''\<close>

definition merchant_text :: "request \<Rightarrow> string" where
  \<open>merchant_text r = ''"merchant":{"id":"'' @ merch_id r @ ''","mcc":"'' @ digits4 (mcc_code r) @
     ''","avg_amount":'' @ render_num (merch_avg r)\<close>

definition terminal_text :: "request \<Rightarrow> string" where
  \<open>terminal_text r = ''},"terminal":{"is_online":'' @ render_bool (online r) @ '',"card_present":'' @ render_bool (present r) @
     '',"km_from_home":'' @ render_num (km_home r)\<close>

definition last_text :: "request \<Rightarrow> string" where
  \<open>last_text r = ''},"last_transaction":'' @
     (case last_tx r of None \<Rightarrow> ''null''
      | Some (t, km) \<Rightarrow> ''{"timestamp":"'' @ render_stamp t @ ''","km_from_current":'' @ render_num km @ ''}'') @ ''}''\<close>

definition render :: "request \<Rightarrow> string" where
  "render r = transaction_text r @ customer_text r @ known_text r @ merchant_text r @ terminal_text r @ last_text r"

lemma no_quote_num: "num_ok n \<Longrightarrow> no_quote (render_num n)"
proof -
  have "list_all is_digit ds \<Longrightarrow> no_quote ds" for ds
    by (induction ds) (auto simp: digit_not_special)
  then show "num_ok n \<Longrightarrow> no_quote (render_num n)" by (cases n) auto
qed

lemma no_quote_stamp: "stamp_ok t \<Longrightarrow> no_quote (render_stamp t)"
proof -
  assume ok: "stamp_ok t"
  have d: "k < 10 \<Longrightarrow> dchr k \<noteq> CHR 0x22" for k using digit_dchr digit_not_special by blast
  have "month t < 100" "day t < 100" "hour t < 100" "minute t < 100" "year t < 10000"
    using ok by (auto simp: stamp_ok_def valid_date_def days_in_month_def split: if_splits)
  then show ?thesis using ok
    by (simp add: render_stamp_def digits2_def digits4_def stamp_ok_def d less_mult_imp_div_less)
qed

lemma seek_skip:
  \<comment> \<open>the key right after text without quotes\<close>
  assumes "no_quote mid" "key = CHR 0x22 # k"
  shows "seek (pre @ mid @ key @ rest) (length pre) key = Got (length (pre @ mid @ key))"
  by (rule seek_at) (use index_of_here [of key rest] in \<open>simp add: assms(2) index_of_skip [OF assms(1)]\<close>)

lemma comma [simp]: "\<not> is_digit CHR '',''" "\<not> is_digit CHR ''}''"
  by (simp_all add: is_digit_def)

lemma transaction_reads:
  assumes n: "num_ok (amount r)" "num_ok (installments r)" "no_quote (txid r)"
  shows "\<exists>p. transaction_text r = p @ render_stamp (requested r) \<and>
    transaction_part (transaction_text r @ rest) =
      pbind (timestamp (p @ render_stamp (requested r) @ rest) (length p))
        (\<lambda>ts. Got (num_fl (amount r), num_fl (installments r), ts, length p + 20))"
proof -
  define body where "body = transaction_text r @ rest"
  define mid where \<open>mid = ''{"id":"'' @ txid r @ ''","transaction":{''\<close>
  define b5 where "b5 = render_stamp (requested r) @ rest"
  define b3 where "b3 = render_num (installments r) @ CHR '','' # kTransReq @ b5"
  define b1 where "b1 = render_num (amount r) @ CHR '','' # kTransInst @ b3"
  define p1 where "p1 = mid @ kTransAmount"
  define p2 where "p2 = p1 @ render_num (amount r)"
  define p3 where "p3 = p2 @ '','' @ kTransInst"
  define p4 where "p4 = p3 @ render_num (installments r)"
  define p5 where "p5 = p4 @ '','' @ kTransReq"
  have body: "body = mid @ kTransAmount @ b1"
    by (simp add: body_def transaction_text_def mid_def b1_def b3_def b5_def key_defs)
  then have body1: "body = p1 @ render_num (amount r) @ CHR '','' # kTransInst @ b3" by (simp add: p1_def b1_def)
  then have body2: "body = p2 @ '','' @ kTransInst @ b3" by (simp add: p2_def)
  then have body3: "body = p3 @ render_num (installments r) @ CHR '','' # kTransReq @ b5" by (simp add: p3_def b3_def)
  then have body4: "body = p4 @ '','' @ kTransReq @ b5" by (simp add: p4_def)
  then have body5: "body = p5 @ render_stamp (requested r) @ rest" by (simp add: p5_def b5_def)
  have "index_of kTransAmount (mid @ kTransAmount @ b1) = Some (length mid)"
    using index_of_quoted [OF n(3), of "''amount''"] by (simp add: mid_def key_defs)
  from seek_at [OF this, of "[]"] have "seek body 0 kTransAmount = Got (length p1)" by (simp add: body p1_def)
  moreover have "number body (length p1) = Got (num_fl (amount r), length p2)"
    unfolding body1 p2_def by (rule number_at [OF n(1)]) auto
  moreover have "seek body (length p2) kTransInst = Got (length p3)"
    unfolding body2 p3_def by (rule seek_skip) (auto simp: key_defs)
  moreover have "number body (length p3) = Got (num_fl (installments r), length p4)"
    unfolding body3 p4_def by (rule number_at [OF n(2)]) auto
  moreover have "seek body (length p4) kTransReq = Got (length p5)"
    unfolding body4 p5_def by (rule seek_skip) (auto simp: key_defs)
  ultimately have "transaction_part body = pbind (timestamp body (length p5))
      (\<lambda>ts. Got (num_fl (amount r), num_fl (installments r), ts, length p5 + 20))"
    by (simp add: transaction_part_def)
  then show ?thesis using body5 unfolding body_def [symmetric] by (intro exI [of _ p5]) (auto simp: body_def)
qed

lemma transaction_at:
  assumes ok: "request_ok r"
  shows "transaction_part (transaction_text r @ rest) =
    Got (num_fl (amount r), num_fl (installments r), stamp_val (requested r), length (transaction_text r))"
proof -
  have n: "num_ok (amount r)" "num_ok (installments r)" "no_quote (txid r)" and s: "stamp_ok (requested r)"
    using ok by (auto simp: request_ok_def)
  obtain p where "transaction_text r = p @ render_stamp (requested r)"
    "transaction_part (transaction_text r @ rest) = pbind (timestamp (p @ render_stamp (requested r) @ rest) (length p))
        (\<lambda>ts. Got (num_fl (amount r), num_fl (installments r), ts, length p + 20))"
    using transaction_reads [OF n] by blast
  then show ?thesis using timestamp_at [OF s] length_stamp [OF s] by simp
qed

lemma customer_at:
  assumes ok: "request_ok r"
  shows "customer_part (pre @ customer_text r @ known_text r @ rest) (length pre) =
    Got (num_fl (cust_avg r), num_fl (tx_count r), length (pre @ customer_text r))"
proof -
  define body where "body = pre @ customer_text r @ known_text r @ rest"
  define mid where \<open>mid = ''"},"customer":{''\<close>
  define b5 where "b5 = tl (known_text r) @ rest"
  define b3 where "b3 = render_num (tx_count r) @ CHR '','' # b5"
  define p1 where "p1 = pre @ mid @ kCustAvg"
  define p2 where "p2 = p1 @ render_num (cust_avg r)"
  define p3 where "p3 = p2 @ '','' @ kCustTx24"
  have n: "num_ok (cust_avg r)" "num_ok (tx_count r)" using ok by (auto simp: request_ok_def)
  have body: "body = pre @ mid @ kCustAvg @ render_num (cust_avg r) @ CHR '','' # kCustTx24 @ b3"
    by (simp add: body_def customer_text_def mid_def b3_def b5_def key_defs known_text_def)
  then have body1: "body = p1 @ render_num (cust_avg r) @ CHR '','' # kCustTx24 @ b3" by (simp add: p1_def)
  then have body2: "body = p2 @ '','' @ kCustTx24 @ b3" by (simp add: p2_def)
  then have body3: "body = p3 @ render_num (tx_count r) @ CHR '','' # b5" by (simp add: p3_def b3_def)
  have "index_of kCustAvg (mid @ kCustAvg @ render_num (cust_avg r) @ CHR '','' # kCustTx24 @ b3) = Some (length mid)"
    by (simp add: mid_def key_defs)
  from seek_at [OF this] have "seek body (length pre) kCustAvg = Got (length p1)" unfolding body p1_def .
  moreover have "number body (length p1) = Got (num_fl (cust_avg r), length p2)"
    unfolding body1 p2_def by (rule number_at [OF n(1)]) auto
  moreover have "seek body (length p2) kCustTx24 = Got (length p3)"
    unfolding body2 p3_def by (rule seek_skip) (auto simp: key_defs)
  moreover have "number body (length p3) = Got (num_fl (tx_count r), length (p3 @ render_num (tx_count r)))"
    unfolding body3 by (rule number_at [OF n(2)]) auto
  moreover have "length (p3 @ render_num (tx_count r)) = length (pre @ customer_text r)"
    by (simp add: p3_def p2_def p1_def mid_def customer_text_def key_defs)
  ultimately show ?thesis
    unfolding body_def [symmetric] by (simp add: customer_part_def)
qed

lemma index_of_items:
  assumes "\<forall>m \<in> set ms. no_quote m"
  shows "index_of kMerchObj (render_items ms @ CHR '']'' # zs) =
    map_option ((+) (length (render_items ms))) (index_of kMerchObj (CHR '']'' # zs))"
  using assms
proof (induction ms rule: render_items.induct)
  case 1
  show ?case by (cases "index_of kMerchObj (CHR '']'' # zs)") auto
next
  case (2 m)
  then have "no_quote m" by simp
  from index_of_quoted [OF this, of "''merchant''" "CHR '']''" kMerchObj zs] show ?case
    by (cases "index_of kMerchObj (CHR '']'' # zs)") (auto simp: kMerchObj_def)
next
  case (3 m m' ms)
  then have "no_quote m" by simp
  let ?y = "render_items (m' # ms) @ CHR '']'' # zs"
  have "index_of kMerchObj (CHR 0x22 # m @ CHR 0x22 # CHR '','' # ?y) =
      map_option ((+) (Suc (length m))) (index_of kMerchObj (CHR 0x22 # CHR '','' # ?y))"
    by (rule index_of_quoted [OF \<open>no_quote m\<close>, of "''merchant''"]) (auto simp: kMerchObj_def)
  also have "index_of kMerchObj (CHR 0x22 # CHR '','' # ?y) = map_option (Suc \<circ> Suc) (index_of kMerchObj ?y)"
    by (simp add: kMerchObj_def option.map_comp del: render_items.simps)
  also have "index_of kMerchObj ?y = map_option ((+) (length (render_items (m' # ms)))) (index_of kMerchObj (CHR '']'' # zs))"
    using 3 by simp
  finally show ?case
    by (cases "index_of kMerchObj (CHR '']'' # zs)") (simp_all del: index_of.simps)
qed

lemma takeWhile_quote: "no_quote y \<Longrightarrow> takeWhile (\<lambda>c. c \<noteq> CHR 0x22) (y @ CHR 0x22 # ys) = y"
  by (induction y) auto

lemma nth_at: "(pre @ ys) ! (length pre + j) = ys ! j"
  by (simp add: nth_append)

lemma fourDigits_at: "n < 10000 \<Longrightarrow> fourDigits (pre @ digits4 n @ post) (length pre) = int n"
  using nth_at [of pre "digits4 n @ post" 0] nth_at [of pre "digits4 n @ post" 1] nth_at [of pre "digits4 n @ post" 2]
    nth_at [of pre "digits4 n @ post" 3] digits4_dig [of n]
  by (simp add: fourDigits_def) (simp add: digits4_def)

lemma merchant_at:
  assumes ok: "request_ok r"
  shows "merchant_part (pre @ known_text r @ merchant_text r @ CHR ''}'' # rest) (length pre) =
    Got (merch_id r, int (mcc_code r), num_fl (merch_avg r), length (pre @ known_text r @ merchant_text r))"
proof -
  define body where "body = pre @ known_text r @ merchant_text r @ CHR ''}'' # rest"
  define b4 where "b4 = render_num (merch_avg r) @ CHR ''}'' # rest"
  define b3 where \<open>b3 = digits4 (mcc_code r) @ ''",'' @ kMerchAvg @ b4\<close>
  define b2 where \<open>b2 = merch_id r @ ''",'' @ kMerchMCC @ b3\<close>
  define p1 where "p1 = pre @ known_text r"
  define p2 where "p2 = p1 @ (kMerchObj @ ''{'') @ kMerchID"
  define p3 where "p3 = p2 @ merch_id r"
  define p4 where \<open>p4 = p3 @ ''",'' @ kMerchMCC\<close>
  define p5 where \<open>p5 = (p4 @ digits4 (mcc_code r)) @ ''",'' @ kMerchAvg\<close>
  have n: "num_ok (merch_avg r)" "no_quote (merch_id r)" "mcc_code r < 10000" "\<forall>m \<in> set (known r). no_quote m"
    using ok by (auto simp: request_ok_def)
  have body: "body = pre @ known_text r @ kMerchObj @ ''{'' @ kMerchID @ b2"
    by (simp add: body_def merchant_text_def b2_def b3_def b4_def key_defs)
  then have body1: "body = p1 @ (kMerchObj @ ''{'') @ kMerchID @ b2" by (simp add: p1_def)
  then have body2: \<open>body = p2 @ merch_id r @ CHR 0x22 # '','' @ kMerchMCC @ b3\<close> by (simp add: p2_def b2_def)
  then have body3: \<open>body = p3 @ ''",'' @ kMerchMCC @ b3\<close> by (simp add: p3_def)
  then have body4: \<open>body = p4 @ digits4 (mcc_code r) @ ''",'' @ kMerchAvg @ b4\<close> by (simp add: p4_def b3_def)
  then have body5: \<open>body = (p4 @ digits4 (mcc_code r)) @ ''",'' @ kMerchAvg @ b4\<close> by simp
  then have body6: "body = p5 @ render_num (merch_avg r) @ CHR ''}'' # rest" by (simp add: p5_def b4_def)
  have "index_of kMerchObj (known_text r @ kMerchObj @ ''{'' @ kMerchID @ b2) = Some (length (known_text r))"
  proof -
    have "index_of kMerchObj (CHR '']'' # ''},'' @ kMerchObj @ ''{'' @ kMerchID @ b2) = Some 3" by (simp add: key_defs)
    then have "index_of kMerchObj (render_items (known r) @ CHR '']'' # ''},'' @ kMerchObj @ ''{'' @ kMerchID @ b2) =
        Some (length (render_items (known r)) + 3)"
      using index_of_items [OF n(4)] by (simp del: index_of.simps)
    then show ?thesis by (simp add: known_text_def) (simp add: kMerchObj_def)
  qed
  from index_from_at [OF this, of pre] have "index_from body (length pre) kMerchObj = Got (length p1)"
    by (simp add: body p1_def)
  moreover have "seek body (length p1) kMerchID = Got (length p2)"
    unfolding body1 p2_def by (rule seek_at) (simp add: key_defs)
  moreover have tw: "takeWhile (\<lambda>c. c \<noteq> CHR 0x22) (drop (length p2) body) = merch_id r"
    unfolding body2 using takeWhile_quote [OF n(2)] by simp
  moreover have "\<not> length body \<le> length p3" by (simp add: body3)
  moreover have "seek body (length p3) kMerchMCC = Got (length p4)"
    unfolding body3 p4_def by (rule seek_at) (simp add: key_defs)
  moreover have "\<not> length body \<le> length p4 + 3" by (simp add: body4 digits4_def)
  moreover have "length p4 + 4 = length (p4 @ digits4 (mcc_code r))" by (simp add: digits4_def)
  then have "seek body (length p4 + 4) kMerchAvg = Got (length p5)"
    unfolding \<open>length p4 + 4 = length (p4 @ digits4 (mcc_code r))\<close> body5 p5_def by (intro seek_at) (simp add: key_defs)
  moreover have "number body (length p5) = Got (num_fl (merch_avg r), length (p5 @ render_num (merch_avg r)))"
    unfolding body6 by (rule number_at [OF n(1)]) auto
  moreover have "fourDigits body (length p4) = int (mcc_code r)" unfolding body4 by (rule fourDigits_at [OF n(3)])
  moreover have "length (p5 @ render_num (merch_avg r)) = length (pre @ known_text r @ merchant_text r)"
    by (simp add: p5_def p4_def p3_def p2_def p1_def merchant_text_def key_defs)
  moreover have "length p2 + length (merch_id r) = length p3" by (simp add: p3_def)
  ultimately show ?thesis
    unfolding body_def [symmetric] by (simp add: merchant_part_def Let_def)
qed

lemma known_scan_items:
  assumes "no_quote x" "\<forall>m \<in> set ms. no_quote m"
  shows "known_scan x (render_items ms) \<longleftrightarrow> x \<in> set ms"
  using assms(2)
proof (induction ms rule: render_items.induct)
  case (2 m)
  then show ?case using takeWhile_quote [of m "[]"] by auto
next
  case (3 m m' ms)
  have eq: "known_scan x (CHR 0x22 # m @ CHR 0x22 # CHR '','' # y) \<longleftrightarrow> x = m \<or> known_scan x y" for y
    using 3(2) takeWhile_quote [of m "CHR '','' # y"] by auto
  show ?case using 3 eq [of "render_items (m' # ms)"] by (auto simp del: known_scan.simps)
qed simp

lemma index_of_bracket: "CHR '']'' \<notin> set xs \<Longrightarrow> index_of '']'' (xs @ CHR '']'' # ys) = Some (length xs)"
  by (induction xs) auto

lemma no_bracket_items: "\<forall>m \<in> set ms. CHR '']'' \<notin> set m \<Longrightarrow> CHR '']'' \<notin> set (render_items ms)"
  by (induction ms rule: render_items.induct) auto

lemma known_at:
  assumes ok: "request_ok r"
  shows "known_part (pre @ known_text r @ rest) (length pre) (merch_id r) = Got (merch_id r \<in> set (known r))"
proof -
  define body where "body = pre @ known_text r @ rest"
  define p1 where "p1 = pre @ '','' @ kCustKnown"
  have n: "no_quote (merch_id r)" "\<forall>m \<in> set (known r). no_quote m" "\<forall>m \<in> set (known r). CHR '']'' \<notin> set m"
    using ok by (auto simp: request_ok_def)
  have body: "body = pre @ '','' @ kCustKnown @ render_items (known r) @ CHR '']'' # ''},'' @ rest"
    by (simp add: body_def known_text_def kCustKnown_def)
  then have body1: "body = p1 @ render_items (known r) @ CHR '']'' # ''},'' @ rest" by (simp add: p1_def)
  have "seek body (length pre) kCustKnown = Got (length p1)"
    unfolding body p1_def by (rule seek_skip) (auto simp: kCustKnown_def)
  moreover have "index_from body (length p1) '']'' = Got (length p1 + length (render_items (known r)))"
    unfolding body1 by (rule index_from_at) (rule index_of_bracket [OF no_bracket_items [OF n(3)]])
  moreover have "take (length (render_items (known r))) (drop (length p1) body) = render_items (known r)"
    by (simp add: body1)
  ultimately show ?thesis
    unfolding body_def [symmetric] using known_scan_items [OF n(1,2)]
    by (simp add: known_part_def del: known_scan.simps)
qed

lemma flag_at_text: "flag_at (pre @ render_bool b @ post) (length pre) = Got b"
  by (simp add: flag_at_def render_bool_def nth_append)

lemma no_quote_bool: "no_quote (render_bool b)"
  by (simp add: render_bool_def)

lemma terminal_at:
  assumes ok: "request_ok r"
  shows "terminal_part (pre @ terminal_text r @ CHR ''}'' # rest) (length pre) =
    Got (online r, present r, num_fl (km_home r), length (pre @ terminal_text r))"
proof -
  define body where "body = pre @ terminal_text r @ CHR ''}'' # rest"
  define mid where \<open>mid = ''},"terminal":{''\<close>
  define b4 where "b4 = render_num (km_home r) @ CHR ''}'' # rest"
  define b3 where "b3 = render_bool (present r) @ '','' @ kTermKmHome @ b4"
  define b2 where "b2 = render_bool (online r) @ '','' @ kTermPresent @ b3"
  define p1 where "p1 = pre @ mid @ kTermOnline"
  define p2 where "p2 = p1 @ (render_bool (online r) @ '','') @ kTermPresent"
  define p3 where "p3 = p2 @ (render_bool (present r) @ '','') @ kTermKmHome"
  have n: "num_ok (km_home r)" using ok by (auto simp: request_ok_def)
  have body: "body = pre @ mid @ kTermOnline @ b2"
    by (simp add: body_def terminal_text_def mid_def b2_def b3_def b4_def key_defs)
  then have body1: "body = p1 @ render_bool (online r) @ '','' @ kTermPresent @ b3" by (simp add: p1_def b2_def)
  then have body1': "body = p1 @ (render_bool (online r) @ '','') @ kTermPresent @ b3" by simp
  then have body2: "body = p2 @ render_bool (present r) @ '','' @ kTermKmHome @ b4" by (simp add: p2_def b3_def)
  then have body2': "body = p2 @ (render_bool (present r) @ '','') @ kTermKmHome @ b4" by simp
  then have body3: "body = p3 @ render_num (km_home r) @ CHR ''}'' # rest" by (simp add: p3_def b4_def)
  have "seek body (length pre) kTermOnline = Got (length p1)"
    unfolding body p1_def by (rule seek_at) (simp add: mid_def key_defs)
  moreover have "flag_at body (length p1) = Got (online r)" unfolding body1 by (rule flag_at_text)
  moreover have "seek body (length p1) kTermPresent = Got (length p2)"
    unfolding body1' p2_def by (rule seek_skip) (auto simp: no_quote_bool key_defs)
  moreover have "flag_at body (length p2) = Got (present r)" unfolding body2 by (rule flag_at_text)
  moreover have "seek body (length p2) kTermKmHome = Got (length p3)"
    unfolding body2' p3_def by (rule seek_skip) (auto simp: no_quote_bool key_defs)
  moreover have "number body (length p3) = Got (num_fl (km_home r), length (p3 @ render_num (km_home r)))"
    unfolding body3 by (rule number_at [OF n]) auto
  moreover have "length (p3 @ render_num (km_home r)) = length (pre @ terminal_text r)"
    by (simp add: p3_def p2_def p1_def mid_def terminal_text_def key_defs)
  ultimately show ?thesis unfolding body_def [symmetric] by (simp add: terminal_part_def)
qed

lemma last_at:
  assumes ok: "request_ok r"
  shows "last_part (pre @ last_text r) (length pre) = Got (map_option (\<lambda>(t, km). (stamp_val t, num_fl km)) (last_tx r))"
proof (cases "last_tx r")
  case None
  define p1 where "p1 = pre @ ''},'' @ kLastTx"
  have body: "pre @ last_text r = pre @ ''},'' @ kLastTx @ ''null}''"
    by (simp add: last_text_def None kLastTx_def)
  have "seek (pre @ last_text r) (length pre) kLastTx = Got (length p1)"
    unfolding body p1_def by (rule seek_skip) (auto simp: kLastTx_def)
  moreover have "drop (length p1) (pre @ last_text r) = ''null}''" "(pre @ last_text r) ! length p1 = CHR ''n''"
    "\<not> length (pre @ last_text r) \<le> length p1"
    unfolding body by (simp_all add: p1_def nth_append)
  ultimately show ?thesis by (simp add: last_part_def None is_ws_def Let_def)
next
  case (Some x)
  obtain t km where x: "x = (t, km)" by (cases x)
  have n: "stamp_ok t" "num_ok km" using ok by (auto simp: request_ok_def Some x)
  define body where "body = pre @ last_text r"
  define b2 where "b2 = render_num km @ CHR ''}'' # ''}''"
  define b1 where \<open>b1 = render_stamp t @ ''",'' @ kLastKM @ b2\<close>
  define p1 where "p1 = pre @ ''},'' @ kLastTx"
  define p2 where "p2 = p1 @ ''{'' @ kLastTS"
  define p3 where \<open>p3 = p2 @ (render_stamp t @ ''",'') @ kLastKM\<close>
  have body: "body = pre @ ''},'' @ kLastTx @ ''{'' @ kLastTS @ b1"
    by (simp add: body_def last_text_def Some x b1_def b2_def key_defs)
  then have body1: "body = p1 @ ''{'' @ kLastTS @ b1" by (simp add: p1_def)
  then have body2: \<open>body = p2 @ render_stamp t @ ''",'' @ kLastKM @ b2\<close> by (simp add: p2_def b1_def)
  then have body2': \<open>body = p2 @ (render_stamp t @ ''",'') @ kLastKM @ b2\<close> by simp
  then have body3: "body = p3 @ render_num km @ CHR ''}'' # ''}''" by (simp add: p3_def b2_def)
  have "seek body (length pre) kLastTx = Got (length p1)"
    unfolding body p1_def by (rule seek_skip) (auto simp: kLastTx_def)
  moreover have "takeWhile is_ws (drop (length p1) body) = []" "body ! length p1 = CHR ''{''" "\<not> length body \<le> length p1"
    unfolding body1 by (simp_all add: is_ws_def nth_append)
  moreover have "seek body (length p1) kLastTS = Got (length p2)"
    unfolding body1 p2_def by (rule seek_skip) (auto simp: kLastTS_def)
  moreover have "timestamp body (length p2) = Got (stamp_val t)" unfolding body2 by (rule timestamp_at [OF n(1)])
  moreover have "seek body (length p2) kLastKM = Got (length p3)"
    unfolding body2' p3_def
    by (rule seek_at) (simp add: kLastKM_def index_of_skip [OF no_quote_stamp [OF n(1)]])
  moreover have "number body (length p3) = Got (num_fl km, length (p3 @ render_num km))"
    unfolding body3 by (rule number_at [OF n(2)]) auto
  ultimately show ?thesis unfolding body_def [symmetric] by (simp add: last_part_def Some x Let_def)
qed

subsection \<open>The vector of a rendered request\<close>

definition request_vector :: "bool \<Rightarrow> request \<Rightarrow> i16 list" where
  \<comment> \<open>the fourteen dimensions of the problem statement\<close>
  "request_vector fused r =
     (let (day, hour, mi) = stamp_val (requested r) in
      [ratio fused (num_fl (amount r)) 10000, ratio fused (num_fl (installments r)) 12,
       (if flt (Fin 0) (num_fl (cust_avg r)) then ratio fused (fdiv F64 (num_fl (amount r)) (num_fl (cust_avg r))) 10 else QuantScale),
       ratio fused (fl_of_int F64 hour) 23, ratio fused (fl_of_int F64 (day smod 7)) 6,
       (case last_tx r of None \<Rightarrow> SentinelInt
         | Some (t, _) \<Rightarrow> ratio fused (fl_of_int F64 (minutes (day, hour, mi) - minutes (stamp_val t))) 1440),
       (case last_tx r of None \<Rightarrow> SentinelInt | Some (_, km) \<Rightarrow> ratio fused (num_fl km) 1000),
       ratio fused (num_fl (km_home r)) 1000, ratio fused (num_fl (tx_count r)) 20,
       flag_dim (online r), flag_dim (present r), (if merch_id r \<in> set (known r) then 0 else QuantScale),
       mcc_dim fused (int (mcc_code r)), ratio fused (num_fl (merch_avg r)) 10000])"

lemma VectorizeFast_render:
  assumes ok: "request_ok r"
  shows "VectorizeFast fused (render r) = Got (request_vector fused r)"
proof -
  have "last_text r \<noteq> [] \<and> hd (last_text r) = CHR ''}''" "terminal_text r \<noteq> [] \<and> hd (terminal_text r) = CHR ''}''"
    by (simp_all add: last_text_def terminal_text_def)
  then have hd: "last_text r = CHR ''}'' # tl (last_text r)" "terminal_text r = CHR ''}'' # tl (terminal_text r)"
    by (cases "last_text r"; cases "terminal_text r"; simp)+
  note t = transaction_at [OF ok, of "customer_text r @ known_text r @ merchant_text r @ terminal_text r @ last_text r"]
  note c = customer_at [OF ok, of "transaction_text r" "merchant_text r @ terminal_text r @ last_text r"]
  note m = merchant_at [OF ok, of "transaction_text r @ customer_text r" "tl (terminal_text r) @ last_text r", folded append_Cons, folded hd]
  note k = known_at [OF ok, of "transaction_text r @ customer_text r" "merchant_text r @ terminal_text r @ last_text r"]
  note e = terminal_at [OF ok, of "transaction_text r @ customer_text r @ known_text r @ merchant_text r" "tl (last_text r)", folded hd]
  note l = last_at [OF ok, of "transaction_text r @ customer_text r @ known_text r @ merchant_text r @ terminal_text r"]
  obtain day hour mi where ts: "stamp_val (requested r) = (day, hour, mi)" by (cases "stamp_val (requested r)") auto
  show ?thesis
    using t c m k e l unfolding render_def VectorizeFast_def request_vector_def ts append.assoc
    by (cases "last_tx r") (auto simp: ts)
qed

subsection \<open>A sample request\<close>

definition sample_stamp :: stamp where
  "sample_stamp = \<lparr>year = 2026, month = 3, day = 11, hour = 18, minute = 45, tail_text = '':53Z''\<rparr>"

definition sample_request :: request where
  "sample_request = \<lparr>txid = ''tx-1'', amount = Num False ''384'' ''88'', installments = Num False ''3'' [],
     requested = sample_stamp, cust_avg = Num False ''769'' ''76'', tx_count = Num False ''3'' [],
     known = [''MERC-009'', ''MERC-001''], merch_id = ''MERC-001'', mcc_code = 5912, merch_avg = Num False ''298'' ''95'',
     online = False, present = True, km_home = Num False ''13'' ''709'',
     last_tx = Some (sample_stamp\<lparr>hour := 14, minute := 58\<rparr>, Num False ''18'' ''862'')\<rparr>"

lemma sample_stamp_ok: "stamp_ok sample_stamp" "stamp_ok (sample_stamp\<lparr>hour := 14, minute := 58\<rparr>)"
  by (simp_all add: stamp_ok_def sample_stamp_def valid_date_def days_in_month_def)

lemma digits: "list_all is_digit ''384''" "list_all is_digit ''88''" "list_all is_digit ''3''" "list_all is_digit ''769''"
    "list_all is_digit ''76''" "list_all is_digit ''298''" "list_all is_digit ''95''" "list_all is_digit ''13''"
    "list_all is_digit ''709''" "list_all is_digit ''18''" "list_all is_digit ''862''"
  by code_simp+

lemma sample_request_ok: "request_ok sample_request"
  using sample_stamp_ok digits by (simp add: request_ok_def sample_request_def)

section \<open>Properties\<close>

text \<open>C24. Parsing inverts rendering: on the body of any well-formed request (numbers of at most 15 integer and
  15 fraction digits, valid dates, texts without quotes) \<open>VectorizeFast\<close> returns exactly the vector of
  its fields.\<close>

theorem vectorize_inverts_render:
  assumes "request_ok r"
  shows "VectorizeFast fused (render r) = Got (request_vector fused r)"
  using assms by (rule VectorizeFast_render)

theorem vectorize_inverts_render_witness:
  "VectorizeFast True (render sample_request) = Got (request_vector True sample_request)"
  by (rule vectorize_inverts_render [OF sample_request_ok])

text \<open>C25. Whatever the body, a vector that \<open>VectorizeFast\<close> returns has fourteen dimensions between
  -10000 and 10000.\<close>

theorem vectorize_in_range:
  assumes "VectorizeFast fused body = Got out"
  shows "length out = 14 \<and> (\<forall>x \<in> set out. \<bar>sint x\<bar> \<le> 10000)"
  using assms by (rule VectorizeFast_range)

theorem vectorize_in_range_witness:
  "length (request_vector False sample_request) = 14 \<and> list_all (\<lambda>x. \<bar>sint x\<bar> \<le> 10000) (request_vector False sample_request)"
  using vectorize_in_range [OF VectorizeFast_render [OF sample_request_ok, of False]] by (simp add: list_all_iff)

text \<open>C26. Day numbers count the days of the Gregorian calendar: 1 January of year 1 is day 0, and the
  day after a valid date has the next number.\<close>

theorem day_numbers_count_days:
  assumes "valid_date y m d" and "next_date y m d = (y', m', d')"
  shows "dayNumberFromYMD 1 1 1 = Some 0 \<and>
    (\<exists>n. dayNumberFromYMD y m d = Some n \<and> valid_date y' m' d' \<and> dayNumberFromYMD y' m' d' = Some (n + 1))"
proof
  have "valid_date 1 1 1" by (simp add: valid_date_def days_in_month_def)
  from dayNumber_eq [OF this] show "dayNumberFromYMD 1 1 1 = Some 0" by (simp add: years_days_def monthDaysBefore_def)
  obtain n where "dayNumberFromYMD y m d = Some n" using dayNumber_eq [OF assms(1)] by blast
  with dayNumber_next [OF assms(1) this assms(2)]
  show "\<exists>n. dayNumberFromYMD y m d = Some n \<and> valid_date y' m' d' \<and> dayNumberFromYMD y' m' d' = Some (n + 1)" by blast
qed

theorem day_numbers_count_days_witness:
  "dayNumberFromYMD 1 1 1 = Some 0 \<and>
    (\<exists>n. dayNumberFromYMD 2024 2 28 = Some n \<and> valid_date 2024 2 29 \<and> dayNumberFromYMD 2024 2 29 = Some (n + 1))"
  by (rule day_numbers_count_days) (simp_all add: valid_date_def next_date_def days_in_month_def leap_year_def)

text \<open>C27. A number in plain decimal notation with at most fifteen digits before the point and at most fifteen after it is
  read to the end of its digits, and the result is within a relative error of \<open>2 ^ -51\<close> of the number written.
  The bound on the digits is needed: see \<open>sixteen_fraction_digits\<close> below.\<close>

theorem numbers_are_accurate:
  assumes "num_ok n" and "\<not> is_digit c" and "c \<noteq> CHR ''.''"
  shows "\<exists>r. parseFloat (pre @ render_num n @ c # post) (length pre) = Some (Fin r, length (pre @ render_num n)) \<and>
    \<bar>r - num_val n\<bar> \<le> \<bar>num_val n\<bar> / 2 ^ 51"
  using parse_num [OF assms, of pre post] num_fl_accurate [OF assms(1)] by auto

theorem numbers_are_accurate_witness:
  "\<exists>r. parseFloat ''x: -384.88,'' 3 = Some (Fin r, 10) \<and> \<bar>r - num_val (Num True ''384'' ''88'')\<bar> \<le> \<bar>num_val (Num True ''384'' ''88'')\<bar> / 2 ^ 51"
  using numbers_are_accurate [of "Num True ''384'' ''88''" "CHR '',''" "''x: ''" "[]"] digits by (simp add: eval_nat_numeral)

text \<open>More than fifteen fraction digits are read wrongly: the power of ten is clamped at
  \<open>10 ^ 15\<close> while the digits keep accumulating, so \<open>0.1000000000000000\<close> is read as 1.\<close>

theorem sixteen_fraction_digits:
  "parseFloat ''0.1000000000000000'' 0 = Some (Fin 1, 18)"
proof -
  have "takeWhile is_ws ''0.1000000000000000'' = []" "takeWhile is_digit ''0.1000000000000000'' = ''0''"
    "takeWhile is_digit ''1000000000000000'' = ''1000000000000000''" "is_digit CHR ''0''" "is_digit CHR ''1''"
    "accum ''0'' = 0" "accum ''1000000000000000'' = 10 ^ 15" by code_simp+
  moreover have "fl_of_int F64 (10 ^ 15) = Fin (10 ^ 15)" "pow10 ! 15 = Fin (10 ^ 15)" by (simp_all add: pow10_nth)
  ultimately show ?thesis
    by (simp add: parseFloat_def read_unsigned_def length_pow10 Let_def fl_small)
qed

text \<open>C28. A month outside 1 to 12 makes \<open>VectorizeFast\<close> panic instead of rejecting the body: the table of
  month lengths is indexed without a check.\<close>

theorem bad_month_panics:
  assumes "num_ok (amount r)" "num_ok (installments r)" "no_quote (txid r)"
    and "year (requested r) < 10000" "day (requested r) < 100" "hour (requested r) < 100" "minute (requested r) < 100"
    and "length (tail_text (requested r)) = 4" and "month (requested r) = 0 \<or> 13 \<le> month (requested r) \<and> month (requested r) < 100"
  shows "VectorizeFast fused (transaction_text r @ rest) = Panic"
proof -
  obtain p where "transaction_part (transaction_text r @ rest) =
      pbind (timestamp (p @ render_stamp (requested r) @ rest) (length p))
        (\<lambda>ts. Got (num_fl (amount r), num_fl (installments r), ts, length p + 20))"
    using transaction_reads [OF assms(1-3)] by blast
  moreover have "dayNumberFromYMD (int (year (requested r))) (int (month (requested r))) (int (day (requested r))) = None"
    using assms(9) by (auto simp: dayNumberFromYMD_def Let_def get_None monthDaysBefore_def)
  ultimately have "transaction_part (transaction_text r @ rest) = Panic"
    using timestamp_reads [of "requested r" p rest] assms(4-9) by auto
  then show ?thesis by (simp add: VectorizeFast_def)
qed

theorem bad_month_panics_witness:
  "VectorizeFast True (transaction_text (sample_request\<lparr>requested := sample_stamp\<lparr>month := 13\<rparr>\<rparr>) @ ''\"}}'') = Panic"
  by (rule bad_month_panics) (use digits in \<open>simp_all add: sample_request_def sample_stamp_def\<close>)

end
