(* ===== verification/RawHttp.thy ===== *)
theory RawHttp
  imports Vectorize
begin

text \<open>
  The HTTP/1.1 reader of \<open>internal/api/rawhttp.go\<close>: the search for the end of
  the header, the request line, the content length, and the connection loop with
  its buffer that compacts and grows.  A connection is the list of chunks the
  peer sends, after which every read fails; a read takes as much of the first
  chunk as the buffer has room for.  The path is a slice of the buffer's array,
  so a later compaction changes the bytes it shows, while growing moves the
  buffer to a new array and leaves the path behind.
\<close>

definition maxRequestSize :: nat where "maxRequestSize = 8192"
definition readBufSize :: nat where "readBufSize = 4096"

definition crlf :: string where "crlf = [CHR 0x0D, CHR 0x0A]"

subsection \<open>The header\<close>

fun indexHeaderEnd :: "string \<Rightarrow> nat option" where
  \<comment> \<open>\<open>None\<close> is the result -1\<close>
  "indexHeaderEnd [] = None"
| "indexHeaderEnd (b # bs) =
     (if take 4 (b # bs) = crlf @ crlf then Some 0 else map_option Suc (indexHeaderEnd bs))"

definition lower_ascii :: "char \<Rightarrow> char" where
  "lower_ascii c =
     (if 65 \<le> (of_char c :: nat) \<and> of_char c \<le> (90 :: nat) then char_of (of_char c + (32 :: nat)) else c)"

definition isContentLengthPrefix :: "string \<Rightarrow> bool" where
  "isContentLengthPrefix b \<longleftrightarrow> 16 \<le> length b \<and> map lower_ascii (take 15 b) = take 15 ''content-length: ''"

fun findContentLength :: "string \<Rightarrow> int" where
  "findContentLength [] = 0"
| "findContentLength (b # bs) =
     (if length (b # bs) \<le> 16 then 0
      else if (b = CHR ''C'' \<or> b = CHR ''c'') \<and> isContentLengthPrefix (b # bs) then
        accum (takeWhile is_digit (dropWhile (\<lambda>c. c = CHR '' '') (drop 16 (b # bs))))
      else findContentLength bs)"

definition parseRequestLine :: "string \<Rightarrow> nat \<Rightarrow> ((nat \<times> nat) \<times> int) option" where
  \<comment> \<open>the path as the bounds of a slice of the header, whose capacity is \<open>cap\<close>\<close>
  "parseRequestLine head cap =
     (let start = length (takeWhile (\<lambda>c. c \<noteq> CHR '' '') head) + 1;
          stop = start + length (takeWhile (\<lambda>c. c \<noteq> CHR '' '') (drop start head))
      in if stop \<le> cap then Some ((start, stop), findContentLength head) else None)"

subsection \<open>The buffer\<close>

datatype region = Shared nat nat | Own string
  \<comment> \<open>a slice of the current array, or of an array the buffer has left\<close>

record rconn =
  nbuf :: string
  used :: nat
  pos :: nat
  path :: region
  chunks :: "string list"

definition path_text :: "rconn \<Rightarrow> string" where
  "path_text s = (case path s of Shared a b \<Rightarrow> take (b - a) (drop a (nbuf s)) | Own p \<Rightarrow> p)"

definition compact_buf :: "rconn \<Rightarrow> rconn" where
  "compact_buf s = s\<lparr>nbuf := take (used s - pos s) (drop (pos s) (nbuf s)) @ drop (used s - pos s) (nbuf s),
     used := used s - pos s, pos := 0\<rparr>"

definition grow_buf :: "rconn \<Rightarrow> rconn" where
  "grow_buf s = s\<lparr>nbuf := take (used s) (nbuf s) @ replicate (2 * length (nbuf s) - used s) (CHR 0x00), path := Own (path_text s)\<rparr>"

definition receive :: "rconn \<Rightarrow> rconn" where
  \<comment> \<open>\<open>n, err := conn.Read(buf[used:])\<close> with data at hand\<close>
  "receive s = (let c = hd (chunks s); n = min (length c) (length (nbuf s) - used s) in
     s\<lparr>nbuf := take (used s) (nbuf s) @ take n c @ drop (used s + n) (nbuf s), used := used s + n,
       chunks := (if drop n c = [] then tl (chunks s) else drop n c # tl (chunks s))\<rparr>)"

datatype ending = Closed | Panicked | Spinning
  \<comment> \<open>\<open>Spinning\<close>: reading into an empty slice returns at once, for ever\<close>

definition stuck :: "rconn \<Rightarrow> bool" where
  "stuck s \<longleftrightarrow> hd (chunks s) \<noteq> [] \<and> length (nbuf s) \<le> used s"

definition pending :: "rconn \<Rightarrow> nat" where
  "pending s = length (concat (chunks s)) + length (chunks s)"

lemma pending_receive: "chunks s \<noteq> [] \<Longrightarrow> \<not> stuck s \<Longrightarrow> pending (receive s) < pending s"
  by (cases "chunks s") (auto simp: pending_def receive_def stuck_def Let_def)

lemma pending_room [simp]: "pending (compact_buf s) = pending s" "pending (grow_buf s) = pending s"
  by (simp_all add: pending_def compact_buf_def grow_buf_def)

subsection \<open>The connection loop\<close>

definition head_room :: "rconn \<Rightarrow> rconn option" where
  \<comment> \<open>room for the next read, unless the header is too long\<close>
  "head_room s =
     (if used s = length (nbuf s) then
        if 0 < pos s then Some (compact_buf s) else if maxRequestSize \<le> used s then None else Some (grow_buf s)
      else Some s)"

lemma pending_head_room [simp]: "head_room s = Some s' \<Longrightarrow> pending s' = pending s"
  by (auto simp: head_room_def split: if_splits)

function head_loop :: "rconn \<Rightarrow> ending \<times> rconn + nat \<times> rconn" where
  \<comment> \<open>the end of the header, as an index of the buffer\<close>
  "head_loop s =
     (case gslice (nbuf s) (pos s) (used s) of
        None \<Rightarrow> Inl (Panicked, s)
      | Some b \<Rightarrow>
     (case indexHeaderEnd b of
        Some i \<Rightarrow> Inr (pos s + i + 4, s)
      | None \<Rightarrow>
     (case head_room s of
        None \<Rightarrow> Inl (Closed, s)
      | Some s1 \<Rightarrow>
          if chunks s1 = [] then Inl (Closed, s1)
          else if stuck s1 then Inl (Spinning, s1)
          else head_loop (receive s1))))"
  by pat_completeness auto
termination
proof (relation "measure pending", goal_cases)
  case (2 s b s1)
  then have "pending (receive s1) < pending s1" by (intro pending_receive)
  moreover have "pending s1 = pending s" using 2 by simp
  ultimately show ?case by simp
qed simp

definition body_room :: "nat \<Rightarrow> int \<Rightarrow> rconn \<Rightarrow> nat \<times> int \<times> rconn" where
  "body_room headEnd bodyEnd s =
     (if used s = length (nbuf s) then
        if 0 < pos s then (headEnd - pos s, bodyEnd - int (pos s), compact_buf s) else (headEnd, bodyEnd, grow_buf s)
      else (headEnd, bodyEnd, s))"

lemma pending_body_room [simp]: "body_room h b s = (h', b', s') \<Longrightarrow> pending s' = pending s"
  by (auto simp: body_room_def split: if_splits)

function body_loop :: "nat \<Rightarrow> int \<Rightarrow> rconn \<Rightarrow> ending \<times> rconn + nat \<times> int \<times> rconn" where
  "body_loop headEnd bodyEnd s =
     (if int (used s) < bodyEnd then
        let (h, b, s1) = body_room headEnd bodyEnd s in
        if chunks s1 = [] then Inl (Closed, s1)
        else if stuck s1 then Inl (Spinning, s1)
        else body_loop h b (receive s1)
      else Inr (headEnd, bodyEnd, s))"
  by pat_completeness auto
termination
proof (relation "measure (\<lambda>(_, _, s). pending s)", goal_cases)
  case (2 headEnd bodyEnd s x h xb b s1)
  then have "pending (receive s1) < pending s1" by (intro pending_receive)
  moreover have "pending s1 = pending s" using 2 by (metis pending_body_room)
  ultimately show ?case by simp
qed simp

declare head_loop.simps [simp del] body_loop.simps [simp del]

definition advance :: "nat \<Rightarrow> rconn \<Rightarrow> rconn" where
  \<comment> \<open>to the next request; an empty buffer is reused from its start\<close>
  "advance bodyEnd s = (if bodyEnd = used s then s\<lparr>pos := 0, used := 0\<rparr> else s\<lparr>pos := bodyEnd\<rparr>)"

datatype ('e, 'a) step = Ends 'e | Goes 'a

definition read_request :: "rconn \<Rightarrow> (ending \<times> rconn, string \<times> string \<times> rconn) step" where
  \<comment> \<open>one pass of the loop up to the call of the router: path, body, and the state for the next pass\<close>
  "read_request s =
     (case head_loop s of
        Inl e \<Rightarrow> Ends e
      | Inr (headEnd, s1) \<Rightarrow>
     (case gslice (nbuf s1) (pos s1) headEnd of
        None \<Rightarrow> Ends (Panicked, s1)
      | Some head \<Rightarrow>
     (case parseRequestLine head (length (nbuf s1) - pos s1) of
        None \<Rightarrow> Ends (Panicked, s1)
      | Some ((a, b), contentLen) \<Rightarrow>
          if int maxRequestSize - int (headEnd - pos s1) < contentLen then Ends (Closed, s1)
          else (case body_loop headEnd (wrap64 (int headEnd + contentLen)) (s1\<lparr>path := Shared (pos s1 + a) (pos s1 + b)\<rparr>) of
              Inl e \<Rightarrow> Ends e
            | Inr (h, bodyEnd, s2) \<Rightarrow>
                if bodyEnd < int h then Ends (Panicked, s2)
                else (case gslice (nbuf s2) h (nat bodyEnd) of
                    None \<Rightarrow> Ends (Panicked, s2)
                  | Some body \<Rightarrow> Goes (path_text s2, body, advance (nat bodyEnd) s2))))))"

type_synonym 'h router = "string \<Rightarrow> string \<Rightarrow> 'h \<Rightarrow> (string \<times> 'h) option"

fun serve :: "'h router \<Rightarrow> nat \<Rightarrow> 'h \<Rightarrow> rconn \<Rightarrow> string list \<times> 'h \<times> ending \<times> rconn" where
  \<comment> \<open>the peer accepts \<open>w\<close> responses; the answer is what was written, and how the loop ended\<close>
  "serve route w h s =
     (case read_request s of
        Ends (e, s') \<Rightarrow> ([], h, e, s')
      | Goes (p, body, s') \<Rightarrow>
     (case route p body h of
        None \<Rightarrow> ([], h, Panicked, s')
      | Some (resp, h') \<Rightarrow>
     (case w of
        0 \<Rightarrow> ([], h', Closed, s')
      | Suc w' \<Rightarrow> let (out, h'', e, s'') = serve route w' h' s' in (resp # out, h'', e, s''))))"

declare serve.simps [simp del]

definition handleRawConn :: "'h router \<Rightarrow> nat \<Rightarrow> 'h \<Rightarrow> string \<Rightarrow> string list \<Rightarrow> string list \<times> 'h \<times> ending \<times> rconn" where
  \<comment> \<open>with a buffer from the pool\<close>
  "handleRawConn route w h buf cs = serve route w h \<lparr>nbuf = buf, used = 0, pos = 0, path = Own [], chunks = cs\<rparr>"

definition pool_put :: "rconn \<Rightarrow> string option" where
  \<comment> \<open>the deferred call: the buffer goes back to the pool unless it has outgrown it\<close>
  "pool_put s = (if length (nbuf s) \<le> maxRequestSize then Some (nbuf s) else None)"

subsection \<open>Well-formed buffers\<close>

definition conn_ok :: "rconn \<Rightarrow> bool" where
  "conn_ok s \<longleftrightarrow> pos s \<le> used s \<and> used s \<le> length (nbuf s) \<and>
     (length (nbuf s) = readBufSize \<or> length (nbuf s) = maxRequestSize)"

definition buffered :: "rconn \<Rightarrow> string" where
  \<comment> \<open>the bytes read and not yet consumed\<close>
  "buffered s = drop (pos s) (take (used s) (nbuf s))"

definition unread :: "rconn \<Rightarrow> string" where
  \<comment> \<open>everything the peer will have sent that is not consumed\<close>
  "unread s = buffered s @ concat (chunks s)"

lemmas conn_defs = conn_ok_def readBufSize_def maxRequestSize_def

lemma length_buffered: "conn_ok s \<Longrightarrow> length (buffered s) = used s - pos s"
  by (simp add: buffered_def conn_ok_def)

lemma gslice_buffered: "conn_ok s \<Longrightarrow> gslice (nbuf s) (pos s) (used s) = Some (buffered s)"
  by (simp add: conn_ok_def gslice_Some buffered_def drop_take)

lemma compact_ok:
  assumes "conn_ok s"
  shows "conn_ok (compact_buf s)" "buffered (compact_buf s) = buffered s" "chunks (compact_buf s) = chunks s"
    "length (nbuf (compact_buf s)) = length (nbuf s)"
  using assms by (auto simp: conn_ok_def compact_buf_def buffered_def drop_take min_def)

lemma grow_ok:
  assumes "conn_ok s" "used s < maxRequestSize" "used s = length (nbuf s)"
  shows "conn_ok (grow_buf s)" "buffered (grow_buf s) = buffered s" "chunks (grow_buf s) = chunks s"
    "path_text (grow_buf s) = path_text s" "length (nbuf s) \<le> length (nbuf (grow_buf s))" "used (grow_buf s) < length (nbuf (grow_buf s))"
  using assms by (auto simp: conn_defs grow_buf_def buffered_def path_text_def)

lemma receive_ok:
  assumes "conn_ok s" "chunks s \<noteq> []"
  shows "conn_ok (receive s)" "unread (receive s) = unread s" "length (nbuf (receive s)) = length (nbuf s)"
    "pos (receive s) = pos s" "used s \<le> used (receive s)" "path (receive s) = path s"
    "take (used s) (nbuf (receive s)) = take (used s) (nbuf s)"
proof -
  obtain c cs where c: "chunks s = c # cs" using assms(2) by (cases "chunks s") auto
  define n where "n = min (length c) (length (nbuf s) - used s)"
  have r: "receive s = s\<lparr>nbuf := take (used s) (nbuf s) @ take n c @ drop (used s + n) (nbuf s), used := used s + n,
       chunks := (if drop n c = [] then cs else drop n c # cs)\<rparr>"
    by (simp add: receive_def c Let_def n_def)
  have n: "n \<le> length c" "used s + n \<le> length (nbuf s)" using assms(1) by (auto simp: n_def conn_ok_def)
  have u: "used s \<le> length (nbuf s)" "pos s \<le> used s" using assms(1) by (auto simp: conn_ok_def)
  show "conn_ok (receive s)" "length (nbuf (receive s)) = length (nbuf s)" using assms(1) n by (auto simp: r conn_ok_def)
  show "pos (receive s) = pos s" "used s \<le> used (receive s)" "path (receive s) = path s" by (simp_all add: r)
  show "take (used s) (nbuf (receive s)) = take (used s) (nbuf s)" using u by (simp add: r)
  have "concat (chunks (receive s)) = drop n c @ concat cs" by (simp add: r)
  moreover have "buffered (receive s) = buffered s @ take n c" using n u by (simp add: r buffered_def)
  ultimately show "unread (receive s) = unread s" by (simp add: unread_def c)
qed

text \<open>An invariant of both read loops: the state stays well-formed and loses no byte.\<close>

lemma head_room_ok:
  assumes "conn_ok s" "head_room s = Some s'"
  shows "conn_ok s' \<and> buffered s' = buffered s \<and> chunks s' = chunks s \<and> used s' < length (nbuf s')"
  using assms compact_ok [OF assms(1)] grow_ok [OF assms(1)]
  by (auto simp: head_room_def conn_ok_def split: if_splits) (auto simp: compact_buf_def)

lemma not_stuck: "used s < length (nbuf s) \<Longrightarrow> \<not> stuck s"
  by (simp add: stuck_def)

lemma take4_length: "take 4 bs = crlf @ crlf \<Longrightarrow> 4 \<le> length bs"
proof -
  assume "take 4 bs = crlf @ crlf"
  from arg_cong [OF this, of length] show ?thesis by (simp add: crlf_def)
qed

lemma header_end_bound: "indexHeaderEnd bs = Some i \<Longrightarrow> i + 4 \<le> length bs"
proof (induction bs arbitrary: i)
  case (Cons b bs)
  then show ?case using take4_length [of "b # bs"] by (auto split: if_splits)
qed simp

lemma header_end_prefix:
  \<comment> \<open>what a prefix of the text shows of the end of its header\<close>
  "indexHeaderEnd t = Some i \<Longrightarrow> indexHeaderEnd (take n t) = (if i + 4 \<le> n then Some i else None)"
proof (induction t arbitrary: i n)
  case (Cons b t)
  show ?case
  proof (cases n)
    case (Suc m)
    have eq: "take 4 (b # take m t) = take (min 4 n) (b # t)" using Suc by (simp add: min_def take_Cons')
    show ?thesis
    proof (cases "take 4 (b # t) = crlf @ crlf")
      case True
      then have i: "i = 0" using Cons.prems by simp
      have "take 4 (b # take m t) = crlf @ crlf \<longleftrightarrow> 4 \<le> n"
      proof
        assume "take 4 (b # take m t) = crlf @ crlf"
        from take4_length [OF this] show "4 \<le> n" using Suc by simp
      next
        assume "4 \<le> n"
        then show "take 4 (b # take m t) = crlf @ crlf" using True unfolding eq by (simp add: min_def)
      qed
      moreover have "indexHeaderEnd (take k t) = None" if "n < 4" "k = m" for k
      proof (rule ccontr)
        assume "indexHeaderEnd (take k t) \<noteq> None"
        then obtain j where "indexHeaderEnd (take k t) = Some j" by blast
        from header_end_bound [OF this] show False using that Suc by simp
      qed
      ultimately show ?thesis using i Suc by auto
    next
      case False
      then obtain j where j: "indexHeaderEnd t = Some j" "i = Suc j" using Cons.prems by auto
      have "take 4 (b # take m t) \<noteq> crlf @ crlf"
      proof
        assume t4: "take 4 (b # take m t) = crlf @ crlf"
        from take4_length [OF t4] have "4 \<le> n" using Suc by simp
        then show False using t4 False unfolding eq by (simp add: min_def)
      qed
      then show ?thesis using Cons.IH [OF j(1), of m] j(2) Suc by simp
    qed
  qed simp
qed simp

lemma head_loop_inv:
  assumes "conn_ok s"
  shows "case head_loop s of
      Inl (e, s') \<Rightarrow> e = Closed \<and> conn_ok s'
    | Inr (h, s') \<Rightarrow> conn_ok s' \<and> unread s' = unread s \<and> pos s' + 4 \<le> h \<and> h \<le> used s' \<and>
        indexHeaderEnd (buffered s') = Some (h - pos s' - 4)"
  using assms
proof (induction s rule: head_loop.induct)
  case (1 s)
  note g = gslice_buffered [OF "1.prems"]
  show ?case
  proof (cases "indexHeaderEnd (buffered s)")
    case (Some i)
    from header_end_bound [OF Some] show ?thesis
      using Some g "1.prems" length_buffered [OF "1.prems"] by (simp add: head_loop.simps [of s])
  next
    case None
    show ?thesis
    proof (cases "head_room s")
      case None
      then show ?thesis using g \<open>indexHeaderEnd (buffered s) = None\<close> "1.prems" by (simp add: head_loop.simps [of s])
    next
      case (Some s1)
      note r = head_room_ok [OF "1.prems" Some]
      show ?thesis
      proof (cases "chunks s1 = []")
        case True
        then show ?thesis using g None Some r by (simp add: head_loop.simps [of s])
      next
        case False
        have ns: "\<not> stuck s1" using r by (simp add: not_stuck)
        have eq: "head_loop s = head_loop (receive s1)" using g None Some False ns by (simp add: head_loop.simps [of s])
        have u: "unread (receive s1) = unread s" using receive_ok [of s1] r False by (simp add: unread_def)
        have "conn_ok (receive s1)" using receive_ok(1) [of s1] r False by simp
        from "1.IH" [OF g None Some False ns this] show ?thesis unfolding eq u .
      qed
    qed
  qed
qed

lemma body_loop_inv:
  assumes "conn_ok s" "pos s \<le> headEnd" "headEnd \<le> used s" "bodyEnd - int (pos s) \<le> int maxRequestSize"
  shows "case body_loop headEnd bodyEnd s of
      Inl (e, s') \<Rightarrow> e = Closed \<and> conn_ok s'
    | Inr (h, b, s') \<Rightarrow> conn_ok s' \<and> unread s' = unread s \<and> h - pos s' = headEnd - pos s \<and> b - int (pos s') = bodyEnd - int (pos s) \<and>
        pos s' \<le> h \<and> h \<le> used s' \<and> b \<le> int (used s')"
  using assms
proof (induction headEnd bodyEnd s rule: body_loop.induct)
  case (1 headEnd bodyEnd s)
  show ?case
  proof (cases "int (used s) < bodyEnd")
    case False
    then show ?thesis using "1.prems" by (simp add: body_loop.simps [of headEnd bodyEnd s])
  next
    case True
    obtain h b s1 where room: "body_room headEnd bodyEnd s = (h, b, s1)" by (metis prod_cases3)
    have "used s < maxRequestSize" if "pos s = 0" using True "1.prems"(4) that by simp
    then have r: "conn_ok s1" "unread s1 = unread s" "chunks s1 = chunks s" "used s1 < length (nbuf s1)"
      "h - pos s1 = headEnd - pos s" "b - int (pos s1) = bodyEnd - int (pos s)" "pos s1 \<le> h" "h \<le> used s1"
      using room "1.prems" compact_ok [OF "1.prems"(1)] grow_ok [OF "1.prems"(1)]
      by (auto simp: body_room_def unread_def conn_ok_def split: if_splits) (auto simp: compact_buf_def grow_buf_def)
    show ?thesis
    proof (cases "chunks s1 = []")
      case True
      then show ?thesis using \<open>int (used s) < bodyEnd\<close> room r by (simp add: body_loop.simps [of headEnd bodyEnd s])
    next
      case False
      have ns: "\<not> stuck s1" using r by (simp add: not_stuck)
      have eq: "body_loop headEnd bodyEnd s = body_loop h b (receive s1)"
        using True room False ns by (simp add: body_loop.simps [of headEnd bodyEnd s])
      have rc: "conn_ok (receive s1)" "unread (receive s1) = unread s" "pos (receive s1) = pos s1" "used s1 \<le> used (receive s1)"
        using receive_ok [OF r(1) False] r(2) by auto
      have "case body_loop h b (receive s1) of
          Inl (e, s') \<Rightarrow> e = Closed \<and> conn_ok s'
        | Inr (h', b', s') \<Rightarrow> conn_ok s' \<and> unread s' = unread (receive s1) \<and> h' - pos s' = h - pos (receive s1) \<and>
            b' - int (pos s') = b - int (pos (receive s1)) \<and> pos s' \<le> h' \<and> h' \<le> used s' \<and> b' \<le> int (used s')"
        using rc r "1.prems"(4) by (intro "1.IH" [OF True room [symmetric] refl refl False ns]) auto
      then show ?thesis unfolding eq rc(2,3) r(5,6) .
    qed
  qed
qed

text \<open>
  A burst: the chunks \<open>cs1\<close> carry, with what is already buffered, the text
  \<open>t\<close>; the chunks \<open>cs2\<close> come later.  A burst that fits into the buffer
  from the current position on, or starts at its beginning, is never compacted.
\<close>

definition burst :: "string \<Rightarrow> string list \<Rightarrow> rconn \<Rightarrow> bool" where
  "burst t cs2 s \<longleftrightarrow> conn_ok s \<and> (\<exists>cs1. chunks s = cs1 @ cs2 \<and> buffered s @ concat cs1 = t) \<and>
     (pos s = 0 \<or> pos s + length t \<le> length (nbuf s))"

lemma burst_buffered: "burst t cs2 s \<Longrightarrow> buffered s = take (used s - pos s) t \<and> used s - pos s \<le> length t"
  using length_buffered by (fastforce simp: burst_def)

lemma burst_receive:
  assumes "burst t cs2 s" "used s - pos s < length t"
  shows "chunks s \<noteq> []" "burst t cs2 (receive s)"
proof -
  obtain cs1 where cs: "chunks s = cs1 @ cs2" "buffered s @ concat cs1 = t" and ok: "conn_ok s"
    and small: "pos s = 0 \<or> pos s + length t \<le> length (nbuf s)" using assms(1) by (auto simp: burst_def)
  have "cs1 \<noteq> []" using cs(2) assms(2) length_buffered [OF ok] by auto
  then obtain c cs1' where c: "cs1 = c # cs1'" by (cases cs1) auto
  show ne: "chunks s \<noteq> []" using cs(1) c by simp
  define n where "n = min (length c) (length (nbuf s) - used s)"
  have r: "receive s = s\<lparr>nbuf := take (used s) (nbuf s) @ take n c @ drop (used s + n) (nbuf s), used := used s + n,
       chunks := (if drop n c = [] then cs1' @ cs2 else drop n c # cs1' @ cs2)\<rparr>"
    by (simp add: receive_def cs(1) c Let_def n_def)
  have "chunks (receive s) = (if drop n c = [] then cs1' else drop n c # cs1') @ cs2" by (simp add: r)
  moreover have "buffered (receive s) @ concat (if drop n c = [] then cs1' else drop n c # cs1') = t"
  proof -
    have "buffered (receive s) = buffered s @ take n c"
      using ok by (simp add: r buffered_def n_def conn_ok_def)
    moreover have "take n c @ drop n c @ concat cs1' = c @ concat cs1'" by (metis append_assoc append_take_drop_id)
    ultimately show ?thesis using cs(2) c by auto
  qed
  ultimately show "burst t cs2 (receive s)"
    unfolding burst_def using receive_ok [OF ok ne] small by (simp only:) blast
qed

lemma burst_full:
  \<comment> \<open>a full buffer without the whole burst starts at its beginning\<close>
  "burst t cs2 s \<Longrightarrow> used s - pos s < length t \<Longrightarrow> used s = length (nbuf s) \<Longrightarrow> pos s = 0"
  by (auto simp: burst_def conn_ok_def)

lemma burst_grow:
  "burst t cs2 s \<Longrightarrow> used s < maxRequestSize \<Longrightarrow> used s = length (nbuf s) \<Longrightarrow> pos s = 0 \<Longrightarrow> burst t cs2 (grow_buf s)"
  using grow_ok [of s] by (auto simp: burst_def) (auto simp: grow_buf_def)

lemma head_loop_burst:
  assumes "burst t cs2 s" "indexHeaderEnd t = Some i" "i + 4 \<le> maxRequestSize"
  shows "\<exists>s'. head_loop s = Inr (pos s' + i + 4, s') \<and> burst t cs2 s' \<and> i + 4 \<le> used s' - pos s'"
  using assms(1)
proof (induction s rule: head_loop.induct)
  case (1 s)
  have ok: "conn_ok s" using "1.prems" by (simp add: burst_def)
  note g = gslice_buffered [OF ok]
  have b: "buffered s = take (used s - pos s) t" using burst_buffered [OF "1.prems"] by simp
  have it: "i + 4 \<le> length t" using header_end_bound [OF assms(2)] .
  show ?case
  proof (cases "i + 4 \<le> used s - pos s")
    case True
    then have "indexHeaderEnd (buffered s) = Some i" using header_end_prefix [OF assms(2)] b by simp
    then show ?thesis using True g "1.prems" by (simp add: head_loop.simps [of s])
  next
    case False
    then have none: "indexHeaderEnd (buffered s) = None" using header_end_prefix [OF assms(2)] b by simp
    have short: "used s - pos s < length t" using False it by simp
    obtain s1 where s1: "head_room s = Some s1" "burst t cs2 s1" "used s1 - pos s1 = used s - pos s"
    proof (cases "used s = length (nbuf s)")
      case True
      have p0: "pos s = 0" by (rule burst_full [OF "1.prems" short True])
      have "used s < maxRequestSize" using False p0 assms(3) by simp
      then show ?thesis using that [of "grow_buf s"] burst_grow [OF "1.prems" _ True p0] True p0
        by (simp add: head_room_def) (simp add: grow_buf_def)
    next
      case False
      then show ?thesis using that [of s] "1.prems" by (simp add: head_room_def)
    qed
    have r: "used s1 < length (nbuf s1)" using head_room_ok [OF ok s1(1)] by simp
    have ne: "chunks s1 \<noteq> []" "burst t cs2 (receive s1)" using burst_receive [OF s1(2)] s1(3) short by simp_all
    have ns: "\<not> stuck s1" using r by (rule not_stuck)
    have "head_loop s = head_loop (receive s1)" using g none s1(1) ne(1) ns by (simp add: head_loop.simps [of s])
    then show ?thesis using "1.IH" [OF g none s1(1) ne(1) ns ne(2)] by simp
  qed
qed

lemma body_loop_burst:
  assumes "burst t cs2 s" "len \<le> length t" "len \<le> maxRequestSize"
    and "\<forall>a b. path s = Shared a b \<longrightarrow> b \<le> used s"
  shows "\<exists>s'. body_loop (pos s + h) (int (pos s + len)) s = Inr (pos s' + h, int (pos s' + len), s') \<and> burst t cs2 s' \<and>
    len \<le> used s' - pos s' \<and> path_text s' = path_text s \<and> used s - pos s \<le> used s' - pos s'"
proof -
  have "\<exists>s'. body_loop hd bd s = Inr (pos s' + h, int (pos s' + len), s') \<and> burst t cs2 s' \<and>
      len \<le> used s' - pos s' \<and> path_text s' = path_text s \<and> used s - pos s \<le> used s' - pos s'"
    if "hd = pos s + h" "bd = int (pos s + len)" for hd bd
    using that assms(1,4)
  proof (induction hd bd s rule: body_loop.induct)
    case (1 hd bd s)
    have ok: "conn_ok s" using "1.prems" by (simp add: burst_def)
    show ?case
    proof (cases "int (used s) < bd")
      case False
      then have "len \<le> used s - pos s" using "1.prems"(2) by simp
      moreover have "body_loop hd bd s = Inr (hd, bd, s)" using False by (simp add: body_loop.simps [of hd bd s])
      ultimately show ?thesis using "1.prems" by (intro exI [of _ s]) simp
    next
      case True
      then have "used s < pos s + len" using "1.prems"(2) by linarith
      then have short: "used s - pos s < length t" using assms(2) ok by (auto simp: conn_ok_def)
      obtain s1 where s1: "body_room hd bd s = (hd, bd, s1)" "burst t cs2 s1" "pos s1 = pos s" "used s1 = used s"
          "used s1 < length (nbuf s1)" "path_text s1 = path_text s" "\<forall>a b. path s1 = Shared a b \<longrightarrow> b \<le> used s1"
      proof (cases "used s = length (nbuf s)")
        case full: True
        have p0: "pos s = 0" by (rule burst_full [OF "1.prems"(3) short full])
        have "used s < maxRequestSize" using True "1.prems"(2) p0 assms(3) by simp
        then show ?thesis using that [of "grow_buf s"] burst_grow [OF "1.prems"(3) _ full p0] grow_ok [OF ok _ full] full p0
          by (simp add: body_room_def) (simp add: grow_buf_def)
      next
        case False
        then show ?thesis using that [of s] "1.prems" ok by (simp add: body_room_def conn_ok_def)
      qed
      have ne: "chunks s1 \<noteq> []" "burst t cs2 (receive s1)" using burst_receive [OF s1(2)] s1(3,4) short by simp_all
      have ns: "\<not> stuck s1" using s1(5) by (rule not_stuck)
      have eq: "body_loop hd bd s = body_loop hd bd (receive s1)"
        using True s1(1) ne(1) ns by (simp add: body_loop.simps [of hd bd s])
      have ok1: "conn_ok s1" using s1(2) by (simp add: burst_def)
      note rc = receive_ok [OF ok1 ne(1)]
      have pt: "path_text (receive s1) = path_text s"
      proof (cases "path s1")
        case (Shared a b)
        then have "take (b - a) (drop a (take (used s1) xs)) = take (b - a) (drop a xs)" for xs :: string
          using s1(7) by (cases "a \<le> b") (auto simp: take_drop min_def)
        then show ?thesis using Shared rc(6,7) s1(6) by (metis (no_types, lifting) path_text_def region.case(1))
      next
        case (Own p)
        then show ?thesis using rc(6) s1(6) by (simp add: path_text_def)
      qed
      have "\<forall>a b. path (receive s1) = Shared a b \<longrightarrow> b \<le> used (receive s1)" using rc(5,6) s1(7) by (metis le_trans)
      then obtain s' where "body_loop hd bd (receive s1) = Inr (pos s' + h, int (pos s' + len), s') \<and> burst t cs2 s' \<and>
          len \<le> used s' - pos s' \<and> path_text s' = path_text (receive s1) \<and> used (receive s1) - pos (receive s1) \<le> used s' - pos s'"
        using "1.IH" [OF True s1(1) [symmetric] refl refl ne(1) ns _ _ ne(2)] "1.prems"(1,2) rc(4) s1(3) by auto
      then show ?thesis unfolding eq pt using rc(4,5) s1(3,4) by (intro exI [of _ s']) auto
    qed
  qed
  then show ?thesis by blast
qed

subsection \<open>One request\<close>

definition head_ok :: "string \<Rightarrow> string \<Rightarrow> nat \<Rightarrow> bool" where
  \<comment> \<open>a complete header that names the path \<open>p\<close> and a body of \<open>n\<close> bytes\<close>
  "head_ok hdr p n \<longleftrightarrow> (\<exists>i. indexHeaderEnd hdr = Some i \<and> length hdr = i + 4) \<and> length hdr + n \<le> maxRequestSize \<and>
     (\<exists>a b. parseRequestLine hdr (length hdr) = Some ((a, b), int n) \<and> p = take (b - a) (drop a hdr))"

lemma header_end_append: "indexHeaderEnd t = Some i \<Longrightarrow> indexHeaderEnd (t @ u) = Some i"
proof (induction t arbitrary: i)
  case (Cons b t)
  have "take 4 (b # t @ u) = crlf @ crlf" if "take 4 (b # t) = crlf @ crlf"
    using that take4_length [OF that] by simp
  moreover have "take 4 (b # t) = crlf @ crlf" if "indexHeaderEnd t = Some j" "take 4 (b # t @ u) = crlf @ crlf" for j
    using that(2) header_end_bound [OF that(1)] by simp
  ultimately show ?case using Cons by (fastforce split: if_splits)
qed simp

lemma parseRequestLine_mono:
  "parseRequestLine hdr n = Some r \<Longrightarrow> n \<le> cap \<Longrightarrow> parseRequestLine hdr cap = Some r"
  by (auto simp: parseRequestLine_def Let_def split: if_splits)

lemma parseRequestLine_bounds: "parseRequestLine hdr n = Some ((a, b), l) \<Longrightarrow> a \<le> b \<and> b \<le> n"
  by (auto simp: parseRequestLine_def Let_def split: if_splits)

lemma advance_burst:
  assumes "burst (u @ t) cs2 s" "length u \<le> used s - pos s" "t = [] \<or> length (u @ t) \<le> readBufSize"
  shows "burst t cs2 (advance (pos s + length u) s)"
proof -
  obtain cs1 where cs: "chunks s = cs1 @ cs2" "buffered s @ concat cs1 = u @ t" and ok: "conn_ok s"
    and small: "pos s = 0 \<or> pos s + length (u @ t) \<le> length (nbuf s)" using assms(1) by (auto simp: burst_def)
  have le: "pos s + length u \<le> used s" using assms(2) ok by (auto simp: conn_ok_def)
  have b: "drop (length u) (buffered s) @ concat cs1 = t"
  proof -
    have "drop (length u) (buffered s @ concat cs1) = t" by (simp add: cs(2))
    then show ?thesis using assms(2) length_buffered [OF ok] by simp
  qed
  show ?thesis
  proof (cases "pos s + length u = used s")
    case True
    then have "drop (length u) (buffered s) = []" using length_buffered [OF ok] by simp
    then have "concat cs1 = t" using b by simp
    then show ?thesis using True ok cs(1) by (auto simp: burst_def advance_def conn_ok_def buffered_def)
  next
    case False
    have n: "drop (length u) (buffered s) = drop (pos s + length u) (take (used s) (nbuf s))" by (simp add: buffered_def add.commute)
    have "t \<noteq> []" using b False le length_buffered [OF ok] by auto
    then have "pos s + length u + length t \<le> length (nbuf s)"
      using small assms(3) ok by (auto simp: conn_ok_def readBufSize_def maxRequestSize_def)
    then show ?thesis using False le ok cs(1) b n by (auto simp: burst_def advance_def conn_ok_def buffered_def)
  qed
qed

lemma advance_pos: "used (advance b s) = pos (advance b s) \<Longrightarrow> pos (advance b s) = 0"
  by (simp add: advance_def split: if_splits)

lemma header_burst:
  assumes "burst (hdr @ t) cs2 s" "indexHeaderEnd hdr = Some i" "length hdr = i + 4" "length hdr \<le> maxRequestSize"
  shows "\<exists>s1. head_loop s = Inr (pos s1 + i + 4, s1) \<and> burst (hdr @ t) cs2 s1 \<and> length hdr \<le> used s1 - pos s1 \<and> conn_ok s1 \<and>
    pos s1 + length hdr \<le> used s1 \<and> used s1 \<le> length (nbuf s1) \<and>
    gslice (nbuf s1) (pos s1) (pos s1 + i + 4) = Some hdr \<and> take (length hdr) (drop (pos s1) (nbuf s1)) = hdr"
proof -
  have "i + 4 \<le> maxRequestSize" using assms(3,4) by simp
  then obtain s1 where s1: "head_loop s = Inr (pos s1 + i + 4, s1)" "burst (hdr @ t) cs2 s1" "length hdr \<le> used s1 - pos s1"
    using head_loop_burst [OF assms(1) header_end_append [OF assms(2)]] assms(3) by auto
  have ok1: "conn_ok s1" using s1(2) by (simp add: burst_def)
  have le: "pos s1 + length hdr \<le> used s1" "used s1 \<le> length (nbuf s1)" using s1(3) ok1 by (auto simp: conn_ok_def)
  have "buffered s1 = take (used s1 - pos s1) (hdr @ t)" using burst_buffered [OF s1(2)] by simp
  then have "take (length hdr) (buffered s1) = hdr" using s1(3) by (simp add: min_def)
  then have hdr: "take (length hdr) (drop (pos s1) (nbuf s1)) = hdr"
    using s1(3) by (simp add: buffered_def drop_take min_def)
  have "gslice (nbuf s1) (pos s1) (pos s1 + i + 4) = Some hdr"
    using hdr le assms(3) by (simp add: gslice_Some)
  then show ?thesis using s1 ok1 le hdr by blast
qed

lemma read_request_burst:
  assumes ok: "head_ok hdr p (length body)" and b: "burst (hdr @ body @ t) cs2 s"
    and t: "t = [] \<or> length (hdr @ body @ t) \<le> readBufSize"
  shows "\<exists>s'. read_request s = Goes (p, body, s') \<and> burst t cs2 s' \<and> (used s' = pos s' \<longrightarrow> pos s' = 0)"
proof -
  obtain i x y where i: "indexHeaderEnd hdr = Some i" "length hdr = i + 4" and le: "length hdr + length body \<le> maxRequestSize"
    and line: "parseRequestLine hdr (length hdr) = Some ((x, y), int (length body))" and p: "p = take (y - x) (drop x hdr)"
    using ok by (auto simp: head_ok_def)
  have xy: "x \<le> y" "y \<le> length hdr" using parseRequestLine_bounds [OF line] by auto
  have "length hdr \<le> maxRequestSize" using le by simp
  from header_burst [OF b i this]
  obtain s1 where s1: "head_loop s = Inr (pos s1 + i + 4, s1)" "burst (hdr @ body @ t) cs2 s1" "length hdr \<le> used s1 - pos s1"
    and ok1: "conn_ok s1" and hd_le: "pos s1 + length hdr \<le> used s1" "used s1 \<le> length (nbuf s1)"
    and gs: "gslice (nbuf s1) (pos s1) (pos s1 + i + 4) = Some hdr"
    and hdr: "take (length hdr) (drop (pos s1) (nbuf s1)) = hdr" by blast
  have pl: "parseRequestLine hdr (length (nbuf s1) - pos s1) = Some ((x, y), int (length body))"
    by (rule parseRequestLine_mono [OF line]) (use hd_le in simp)
  define s1' where "s1' = s1\<lparr>path := Shared (pos s1 + x) (pos s1 + y)\<rparr>"
  have pt: "path_text s1' = p"
  proof -
    have "p = take (y - x) (drop x (take (length hdr) (drop (pos s1) (nbuf s1))))" unfolding hdr p ..
    also have "\<dots> = take (y - x) (drop (pos s1 + x) (nbuf s1))" using xy by (simp add: drop_take min_def add.commute)
    finally show ?thesis by (simp add: path_text_def s1'_def)
  qed
  have s1'b: "burst (hdr @ body @ t) cs2 s1'" using s1(2) by (simp add: burst_def s1'_def conn_ok_def buffered_def)
  have reg: "\<forall>a b. path s1' = Shared a b \<longrightarrow> b \<le> used s1'" using xy hd_le by (simp add: s1'_def)
  obtain s2 where s2: "body_loop (pos s1' + length hdr) (int (pos s1' + (length hdr + length body))) s1' =
      Inr (pos s2 + length hdr, int (pos s2 + (length hdr + length body)), s2)" "burst (hdr @ body @ t) cs2 s2"
      "length hdr + length body \<le> used s2 - pos s2" "path_text s2 = p"
    using body_loop_burst [OF s1'b _ le reg, of "length hdr"] pt by auto
  have ok2: "conn_ok s2" using s2(2) by (simp add: burst_def)
  have le2: "pos s2 + (length hdr + length body) \<le> used s2" "used s2 \<le> length (nbuf s2)" using s2(3) ok2 by (auto simp: conn_ok_def)
  have "buffered s2 = take (used s2 - pos s2) (hdr @ body @ t)" using burst_buffered [OF s2(2)] by simp
  then have "take (length body) (drop (length hdr) (buffered s2)) = body" using s2(3) by (simp add: take_drop min_def)
  then have "take (length body) (drop (pos s2 + length hdr) (nbuf s2)) = body"
    using s2(3) by (auto simp: buffered_def drop_take min_def add.commute split: if_splits)
  then have gb: "gslice (nbuf s2) (pos s2 + length hdr) (pos s2 + (length hdr + length body)) = Some body"
    using le2 by (simp add: gslice_Some)
  have w: "wrap64 (int (pos s1 + i + 4) + int (length body)) = int (pos s1' + (length hdr + length body))"
  proof -
    have "int (pos s1 + i + 4) + int (length body) \<le> 20000"
      using hd_le ok1 le i(2) by (auto simp: conn_defs)
    then show ?thesis using i(2) by (simp add: s1'_def)
  qed
  have "burst t cs2 (advance (pos s2 + length (hdr @ body)) s2)"
    using s2(2,3) t by (intro advance_burst) auto
  then have adv: "burst t cs2 (advance (pos s2 + (length hdr + length body)) s2)" by simp
  have e4: "pos s1 + i + 4 = pos s1' + length hdr" using i(2) by (simp add: s1'_def)
  have "read_request s = Goes (p, body, advance (pos s2 + (length hdr + length body)) s2)"
    unfolding read_request_def s1(1) sum.case prod.case gs option.case pl w s1'_def [symmetric] unfolding e4 s2(1) sum.case prod.case nat_int gb option.case
    using le s2(4) by (simp add: s1'_def)
  then show ?thesis using adv advance_pos by blast
qed

subsection \<open>A session\<close>

type_synonym frame = "string \<times> string \<times> string"   \<comment> \<open>header, the path in it, body\<close>

definition frame_ok :: "frame \<Rightarrow> bool" where
  "frame_ok = (\<lambda>(hdr, p, body). head_ok hdr p (length body))"

definition frame_text :: "frame \<Rightarrow> string" where
  "frame_text = (\<lambda>(hdr, p, body). hdr @ body)"

definition burst_ok :: "frame list \<times> string list \<Rightarrow> bool" where
  \<comment> \<open>requests sent together, in chunks cut anywhere: one request, or several that fit the first buffer\<close>
  "burst_ok = (\<lambda>(fs, cs). list_all frame_ok fs \<and> concat cs = concat (map frame_text fs) \<and>
     (length fs \<le> 1 \<or> length (concat (map frame_text fs)) \<le> readBufSize))"

fun answer :: "'h router \<Rightarrow> nat \<Rightarrow> 'h \<Rightarrow> frame list \<Rightarrow> string list \<times> 'h \<times> ending" where
  \<comment> \<open>the specification: the router's answers, one after the other\<close>
  "answer route w h [] = ([], h, Closed)"
| "answer route w h ((hdr, p, body) # fs) =
     (case route p body h of
        None \<Rightarrow> ([], h, Panicked)
      | Some (resp, h') \<Rightarrow>
     (case w of
        0 \<Rightarrow> ([], h', Closed)
      | Suc w' \<Rightarrow> let (out, h'', e) = answer route w' h' fs in (resp # out, h'', e)))"

lemma read_request_end:
  assumes "conn_ok s" "unread s = []"
  shows "\<exists>s'. read_request s = Ends (Closed, s') \<and> conn_ok s'"
proof (cases "head_loop s")
  case (Inl e)
  then show ?thesis using head_loop_inv [OF assms(1)] by (cases e) (simp add: read_request_def)
next
  case (Inr r)
  obtain h s' where "r = (h, s')" by (cases r)
  then have "unread s' = []" "indexHeaderEnd (buffered s') = Some (h - pos s' - 4)"
    using head_loop_inv [OF assms(1)] Inr assms(2) by auto
  then show ?thesis by (simp add: unread_def)
qed

lemma serve_frame:
  assumes "read_request s = Goes (p, body, s')"
    and "\<And>w' h'. \<exists>s''. (let (out, h'', e) = answer route w' h' fs in serve route w' h' s' = (out, h'', e, s''))"
  shows "\<exists>s''. (let (out, h', e) = answer route w h ((hdr, p, body) # fs) in serve route w h s = (out, h', e, s''))"
proof (cases "route p body h")
  case None
  then show ?thesis using assms(1) by (simp add: serve.simps [of route w h s])
next
  case (Some r)
  obtain resp h' where r: "r = (resp, h')" by (cases r)
  show ?thesis
  proof (cases w)
    case 0
    then show ?thesis using assms(1) Some r by (simp add: serve.simps [of route 0 h s])
  next
    case (Suc w')
    obtain s'' where "let (out, h'', e) = answer route w' h' fs in serve route w' h' s' = (out, h'', e, s'')"
      using assms(2) by blast
    then show ?thesis using assms(1) Some r Suc by (auto simp: serve.simps [of route "Suc w'" h s] split: prod.splits)
  qed
qed

lemma serve_bursts:
  assumes "list_all burst_ok bs" "burst (concat (map frame_text fs)) (concat (map snd bs)) s"
    and "list_all frame_ok fs" "length fs \<le> 1 \<or> length (concat (map frame_text fs)) \<le> readBufSize"
    and "used s = pos s \<longrightarrow> pos s = 0"
  shows "\<exists>s'. (let (out, h', e) = answer route w h (fs @ concat (map fst bs)) in serve route w h s = (out, h', e, s'))"
  using assms
proof (induction bs arbitrary: fs s w h)
  case Nil
  then show ?case
  proof (induction fs arbitrary: s w h)
    case Nil
    then have "conn_ok s" "unread s = []" by (auto simp: burst_def unread_def)
    then obtain s' where "read_request s = Ends (Closed, s')" using read_request_end by blast
    then show ?case by (simp add: serve.simps [of route w h s])
  next
    case (Cons f fs)
    obtain hdr p body where f: "f = (hdr, p, body)" by (cases f)
    define t where "t = concat (map frame_text fs)"
    obtain s' where s': "read_request s = Goes (p, body, s')" "burst t [] s'" "used s' = pos s' \<longrightarrow> pos s' = 0"
      using read_request_burst [of hdr p body t "[]" s] Cons.prems by (cases fs) (auto simp: f frame_ok_def frame_text_def t_def)
    show ?case unfolding f append_Cons
      using s'(1) Cons.IH [of s'] Cons.prems s'(2,3) by (intro serve_frame) (auto simp: t_def)
  qed
next
  case (Cons b bs)
  note outer_IH = Cons.IH
  show ?case
    using Cons.prems
  proof (induction fs arbitrary: s w h)
    case Nil
    obtain gs cs where b: "b = (gs, cs)" by (cases b)
    have bo: "list_all frame_ok gs" "concat cs = concat (map frame_text gs)"
        "length gs \<le> 1 \<or> length (concat (map frame_text gs)) \<le> readBufSize"
      using Nil.prems(1) by (auto simp: b burst_ok_def)
    have ok: "conn_ok s" and e: "buffered s = []" and "\<exists>cs1. chunks s = cs1 @ cs @ concat (map snd bs) \<and> concat cs1 = []"
      using Nil.prems(2) by (auto simp: burst_def b)
    then have "\<exists>cs1. chunks s = cs1 @ concat (map snd bs) \<and> concat cs1 = concat (map frame_text gs)"
      using bo(2) by (metis append_Nil append_assoc concat_append)
    moreover have "pos s = 0" using Nil.prems(5) length_buffered [OF ok] e ok by (simp add: conn_ok_def)
    ultimately have "burst (concat (map frame_text gs)) (concat (map snd bs)) s" using ok e by (simp add: burst_def)
    then show ?case
      using outer_IH [of gs s w h] Nil.prems bo(1,3) by (simp add: b)
  next
    case (Cons f fs)
    obtain hdr p body where f: "f = (hdr, p, body)" by (cases f)
    define t where "t = concat (map frame_text fs)"
    obtain s' where s': "read_request s = Goes (p, body, s')" "burst t (concat (map snd (b # bs))) s'" "used s' = pos s' \<longrightarrow> pos s' = 0"
      using read_request_burst [of hdr p body t "concat (map snd (b # bs))" s] Cons.prems by (cases fs) (auto simp: f frame_ok_def frame_text_def t_def)
    show ?case unfolding f append_Cons
      using s'(1) Cons.IH [of s'] Cons.prems s'(2,3) by (intro serve_frame) (auto simp: t_def)
  qed
qed

subsection \<open>The loop for any input\<close>

lemma accum_range: "- (2 ^ 63) \<le> accum ds \<and> accum ds < 2 ^ 63"
proof (cases ds rule: rev_cases)
  case Nil
  then show ?thesis by (simp add: accum_def)
next
  case (snoc ds c)
  then show ?thesis using wrap64_range by (simp only: accum_snoc)
qed

lemma findContentLength_range: "- (2 ^ 63) \<le> findContentLength bs \<and> findContentLength bs < 2 ^ 63"
  by (induction bs) (use accum_range in auto)

lemma parseRequestLine_length: "parseRequestLine hdr n = Some (r, l) \<Longrightarrow> l = findContentLength hdr"
  by (auto simp: parseRequestLine_def Let_def split: if_splits)

lemma advance_ok: "conn_ok s \<Longrightarrow> bodyEnd \<le> used s \<Longrightarrow> conn_ok (advance bodyEnd s)"
  by (auto simp: advance_def conn_ok_def)

lemma read_request_inv:
  assumes "conn_ok s"
  shows "case read_request s of
      Ends (e, s') \<Rightarrow> e \<noteq> Spinning \<and> conn_ok s'
    | Goes (p, body, s') \<Rightarrow> conn_ok s'"
proof (cases "head_loop s")
  case (Inl r)
  then show ?thesis using head_loop_inv [OF assms] by (cases r) (simp add: read_request_def)
next
  case (Inr r)
  obtain hE s1 where r: "r = (hE, s1)" by (cases r)
  have ok1: "conn_ok s1" and h1: "pos s1 + 4 \<le> hE" "hE \<le> used s1" using head_loop_inv [OF assms] Inr r by auto
  define hdr where "hdr = take (hE - pos s1) (drop (pos s1) (nbuf s1))"
  have g1: "gslice (nbuf s1) (pos s1) hE = Some hdr" using h1 ok1 by (simp add: gslice_Some hdr_def conn_ok_def)
  show ?thesis
  proof (cases "parseRequestLine hdr (length (nbuf s1) - pos s1)")
    case None
    then show ?thesis using Inr r g1 ok1 by (simp add: read_request_def)
  next
    case (Some l)
    obtain a b cl where l: "l = ((a, b), cl)" by (metis prod.exhaust)
    define s1' where "s1' = s1\<lparr>path := Shared (pos s1 + a) (pos s1 + b)\<rparr>"
    show ?thesis
    proof (cases "int maxRequestSize - int (hE - pos s1) < cl")
      case True
      then show ?thesis using Inr r g1 ok1 Some l by (simp add: read_request_def)
    next
      case False
      define bE where "bE = wrap64 (int hE + cl)"
      have "- (2 ^ 63) \<le> cl" using findContentLength_range [of hdr] parseRequestLine_length [of hdr _ "(a, b)" cl] Some l by simp
      moreover have "int hE \<le> 8192" using h1 ok1 by (auto simp: conn_defs)
      moreover have "cl \<le> 8192" using False by (simp add: maxRequestSize_def)
      ultimately have bE: "bE = int hE + cl" by (simp add: bE_def)
      have ok': "conn_ok s1'" "pos s1' = pos s1" "used s1' = used s1" using ok1 by (simp_all add: s1'_def conn_ok_def)
      have le: "bE - int (pos s1') \<le> int maxRequestSize" using False h1 unfolding bE ok'(2) by linarith
      have "pos s1' \<le> hE" "hE \<le> used s1'" using h1 ok' by simp_all
      from body_loop_inv [OF ok'(1) this le]
      have inv: "case body_loop hE bE s1' of
          Inl (e, s') \<Rightarrow> e = Closed \<and> conn_ok s'
        | Inr (h, b, s') \<Rightarrow> conn_ok s' \<and> unread s' = unread s1' \<and> h - pos s' = hE - pos s1' \<and> b - int (pos s') = bE - int (pos s1') \<and>
            pos s' \<le> h \<and> h \<le> used s' \<and> b \<le> int (used s')" .
      have unf: "read_request s = (case body_loop hE bE s1' of
            Inl e \<Rightarrow> Ends e
          | Inr (h, bodyEnd, s2) \<Rightarrow>
              if bodyEnd < int h then Ends (Panicked, s2)
              else (case gslice (nbuf s2) h (nat bodyEnd) of
                  None \<Rightarrow> Ends (Panicked, s2)
                | Some body \<Rightarrow> Goes (path_text s2, body, advance (nat bodyEnd) s2)))"
        unfolding read_request_def using Inr r g1 Some l False by (simp add: bE_def s1'_def)
      show ?thesis
      proof (cases "body_loop hE bE s1'")
        case (Inl e)
        then show ?thesis using inv unf by (cases e) simp
      next
        case (Inr x)
        obtain h b s2 where x: "x = (h, b, s2)" by (metis prod_cases3)
        have "conn_ok s2" "b \<le> int (used s2)" using inv Inr x by auto
        moreover from this have "conn_ok (advance (nat b) s2)" by (intro advance_ok) auto
        ultimately show ?thesis using unf Inr x by (auto split: option.splits)
      qed
    qed
  qed
qed

lemma serve_inv:
  "conn_ok s \<Longrightarrow> serve route w h s = (out, h', e, s') \<Longrightarrow> conn_ok s' \<and> e \<noteq> Spinning"
proof (induction w arbitrary: h s out)
  case 0
  then show ?case using read_request_inv [OF "0.prems"(1)]
    by (auto simp: serve.simps [of route 0 h s] split: step.splits option.splits prod.splits)
next
  case (Suc w)
  show ?case
  proof (cases "read_request s")
    case (Ends r)
    then show ?thesis using read_request_inv [OF Suc.prems(1)] Suc.prems(2)
      by (auto simp: serve.simps [of route "Suc w" h s] split: prod.splits)
  next
    case (Goes r)
    obtain p body s1 where r: "r = (p, body, s1)" by (metis prod_cases3)
    have ok: "conn_ok s1" using read_request_inv [OF Suc.prems(1)] Goes r by simp
    show ?thesis
      using Suc.prems(2) Suc.IH [OF ok] ok Goes r
      by (auto simp: serve.simps [of route "Suc w" h s] split: option.splits prod.splits)
  qed
qed

subsection \<open>Responses\<close>

fun itoa_loop :: "nat \<Rightarrow> nat \<Rightarrow> string \<Rightarrow> string option" where
  \<comment> \<open>the array has \<open>i\<close> free bytes before the digits written so far; one more than that panics\<close>
  "itoa_loop i n acc =
     (if n = 0 then Some acc
      else case i of 0 \<Rightarrow> None | Suc i' \<Rightarrow> itoa_loop i' (n div 10) (dchr (n mod 10) # acc))"

declare itoa_loop.simps [simp del]

definition itoa :: "nat \<Rightarrow> string option" where
  "itoa n = (if n = 0 then Some ''0'' else itoa_loop 16 n [])"

definition resp_head :: string where
  "resp_head = ''HTTP/1.1 200 OK'' @ crlf @ ''Content-Type: application/json'' @ crlf @ ''Content-Length: ''"

definition buildResp :: "string \<Rightarrow> string option" where
  "buildResp body = do { clen \<leftarrow> itoa (length body); Some (resp_head @ clen @ crlf @ crlf @ body) }"

definition readyOK :: string where
  "readyOK = ''HTTP/1.1 200 OK'' @ crlf @ ''Content-Length: 2'' @ crlf @ crlf @ ''ok''"

definition readyNotYet :: string where
  "readyNotYet = ''HTTP/1.1 503 Service Unavailable'' @ crlf @ ''Content-Length: 9'' @ crlf @ crlf @ ''not ready''"

definition methodNotAllowed :: string where
  "methodNotAllowed = ''HTTP/1.1 405 Method Not Allowed'' @ crlf @ ''Content-Length: 0'' @ crlf @ crlf"

definition notFound :: string where
  "notFound = ''HTTP/1.1 404 Not Found'' @ crlf @ ''Content-Length: 0'' @ crlf @ crlf"

definition framed :: "string \<Rightarrow> string \<Rightarrow> bool" where
  \<comment> \<open>a client that reads the header and then as many bytes as it announces finds the body, and nothing is left\<close>
  "framed resp body \<longleftrightarrow> (\<exists>i. indexHeaderEnd resp = Some i \<and> resp = take (i + 4) resp @ body \<and>
     findContentLength (take (i + 4) resp) = int (length body))"

lemma itoa_loop_digits:
  "n < 10 ^ i \<Longrightarrow> i \<le> 16 \<Longrightarrow> \<exists>ds. itoa_loop i n acc = Some (ds @ acc) \<and> list_all is_digit ds \<and> dec ds = int n \<and> length ds \<le> i \<and> (0 < n \<longrightarrow> ds \<noteq> [])"
proof (induction i arbitrary: n acc)
  case 0
  then show ?case by (intro exI [of _ "[]"]) (simp add: itoa_loop.simps dec_def)
next
  case (Suc i)
  show ?case
  proof (cases "n = 0")
    case True
    then show ?thesis by (intro exI [of _ "[]"]) (simp add: itoa_loop.simps dec_def)
  next
    case False
    have "n div 10 < 10 ^ i" using Suc.prems by (simp add: less_mult_imp_div_less mult.commute)
    then obtain ds where ds: "itoa_loop i (n div 10) (dchr (n mod 10) # acc) = Some (ds @ dchr (n mod 10) # acc)"
      "list_all is_digit ds" "dec ds = int (n div 10)" "length ds \<le> i" using Suc by (meson Suc_leD)
    have "dec (ds @ [dchr (n mod 10)]) = int n"
      using ds(3) by (simp add: dec_snoc dig_dchr) (metis div_mult_mod_eq of_nat_add of_nat_mult of_nat_numeral)
    then show ?thesis using False ds
      by (intro exI [of _ "ds @ [dchr (n mod 10)]"]) (simp add: itoa_loop.simps [of "Suc i"] digit_dchr)
  qed
qed

lemma itoa_digits:
  assumes "n < 10 ^ 16"
  shows "\<exists>ds. itoa n = Some ds \<and> list_all is_digit ds \<and> ds \<noteq> [] \<and> accum ds = int n"
proof (cases "n = 0")
  case True
  have "list_all is_digit ''0''" "accum ''0'' = 0" by code_simp+
  then show ?thesis using True by (simp add: itoa_def)
next
  case False
  obtain ds where ds: "itoa_loop 16 n [] = Some ds" "list_all is_digit ds" "dec ds = int n" "length ds \<le> 16" "ds \<noteq> []"
    using itoa_loop_digits [of n 16 "[]"] assms False by auto
  then show ?thesis using False accum_dec [of ds] by (simp add: itoa_def)
qed

text \<open>Headers are scanned past text that holds neither of the two marks.\<close>

lemma header_end_digits:
  "list_all is_digit ds \<Longrightarrow> indexHeaderEnd (ds @ crlf @ crlf @ t) = Some (length ds)"
proof (induction ds)
  case Nil
  then show ?case by (simp add: crlf_def)
next
  case (Cons d ds)
  have "d \<noteq> CHR 0x0D" using Cons.prems by (auto simp: is_digit_def)
  then show ?case using Cons by (simp add: crlf_def)
qed

lemma content_length_here:
  assumes "ds \<noteq> []" "list_all is_digit ds"
  shows "findContentLength (''Content-Length: '' @ ds @ crlf @ t) = accum ds"
proof -
  have "\<not> is_digit CHR 0x0D" by (simp add: is_digit_def)
  then have tw: "takeWhile is_digit (ds @ crlf @ t) = ds" using takeWhile_append_stop [OF assms(2)] by (simp add: crlf_def)
  obtain d ds' where d: "ds = d # ds'" using assms(1) by (cases ds) auto
  then have "d \<noteq> CHR '' ''" using assms(2) by (auto simp: is_digit_def)
  then have dw: "dropWhile (\<lambda>c. c = CHR '' '') (ds @ crlf @ t) = ds @ crlf @ t" using d by simp
  have "map lower_ascii ''Content-Length:'' = ''content-length:''" by code_simp
  then have "isContentLengthPrefix (''Content-Length: '' @ ds @ crlf @ t)"
    by (simp add: isContentLengthPrefix_def eval_nat_numeral)
  then show ?thesis using tw dw by (simp add: d eval_nat_numeral)
qed

lemma content_length_skip:
  "list_all (\<lambda>c. c \<noteq> CHR ''C'' \<and> c \<noteq> CHR ''c'') xs \<Longrightarrow> 16 < length t \<Longrightarrow> findContentLength (xs @ t) = findContentLength t"
  by (induction xs) auto

lemma resp_head_index:
  assumes "t \<noteq> []" "hd t \<noteq> CHR 0x0D"
  shows "indexHeaderEnd (resp_head @ t) = map_option ((+) (length resp_head)) (indexHeaderEnd t)"
proof -
  obtain c t' where t: "t = c # t'" "c \<noteq> CHR 0x0D" using assms by (cases t) auto
  show ?thesis by (cases "indexHeaderEnd t'") (simp_all add: t resp_head_def crlf_def)
qed

lemma resp_head_length:
  assumes "ds \<noteq> []" "list_all is_digit ds"
  shows "findContentLength (resp_head @ ds @ crlf @ t) = accum ds"
proof -
  define u where "u = ''Content-Length: '' @ ds @ crlf @ t"
  have l: "16 < length u" using assms(1) by (cases ds) (simp_all add: u_def)
  define x1 where "x1 = ''HTTP/1.1 200 OK'' @ crlf"
  define x2 where "x2 = ''ontent-Type: appli''"
  define x3 where "x3 = ''ation/json'' @ crlf"
  have e: "resp_head @ ds @ crlf @ t = x1 @ CHR ''C'' # x2 @ CHR ''c'' # x3 @ u"
    by (simp add: resp_head_def u_def x1_def x2_def x3_def)
  have p1: "\<not> isContentLengthPrefix (CHR ''C'' # x2 @ CHR ''c'' # x3 @ u)"
  proof -
    have "map lower_ascii ''Content-Type: a'' \<noteq> take 15 ''content-length: ''" by code_simp
    then show ?thesis by (simp add: isContentLengthPrefix_def x2_def)
  qed
  have p2: "\<not> isContentLengthPrefix (CHR ''c'' # x3 @ u)"
  proof -
    have "map lower_ascii (''cation/json'' @ crlf @ ''Co'') \<noteq> take 15 ''content-length: ''" by code_simp
    then show ?thesis by (simp add: isContentLengthPrefix_def x3_def u_def crlf_def)
  qed
  have "findContentLength (x1 @ v) = findContentLength v" "findContentLength (x2 @ v) = findContentLength v"
      "findContentLength (x3 @ v) = findContentLength v" if "16 < length v" for v
    using that by (intro content_length_skip; simp add: x1_def x2_def x3_def crlf_def)+
  then have "findContentLength (resp_head @ ds @ crlf @ t) = findContentLength u"
    unfolding e using l p1 p2 by simp
  also have "\<dots> = accum ds" unfolding u_def by (rule content_length_here [OF assms])
  finally show ?thesis .
qed

lemma framed_parts:
  assumes "indexHeaderEnd (hdr @ crlf @ crlf @ body) = Some (length hdr)" "findContentLength (hdr @ crlf @ crlf) = int (length body)"
  shows "framed (hdr @ crlf @ crlf @ body) body"
proof -
  have "length crlf = 2" by (simp add: crlf_def)
  then have "take (length hdr + 4) (hdr @ crlf @ crlf @ body) = hdr @ crlf @ crlf" by simp
  then show ?thesis using assms unfolding framed_def by (intro exI [of _ "length hdr"]) simp
qed

lemma buildResp_framed:
  assumes "length body < 10 ^ 16"
  shows "\<exists>r. buildResp body = Some r \<and> framed r body"
proof -
  obtain ds where ds: "itoa (length body) = Some ds" "list_all is_digit ds" "ds \<noteq> []" "accum ds = int (length body)"
    using itoa_digits [OF assms] by blast
  have "hd ds \<noteq> CHR 0x0D" using ds(2,3) by (cases ds) (auto simp: is_digit_def)
  then have "indexHeaderEnd (resp_head @ ds @ crlf @ crlf @ body) = Some (length (resp_head @ ds))"
    using resp_head_index [of "ds @ crlf @ crlf @ body"] ds(3) header_end_digits [OF ds(2)] by simp
  moreover have "findContentLength ((resp_head @ ds) @ crlf @ crlf) = int (length body)"
    using resp_head_length [OF ds(3,2), of crlf] ds(4) by simp
  ultimately have "framed ((resp_head @ ds) @ crlf @ crlf @ body) body" by (intro framed_parts) simp_all
  then show ?thesis using ds(1) by (simp add: buildResp_def)
qed

lemma framed_ready: "framed readyOK ''ok''" "framed readyNotYet ''not ready''"
    "framed methodNotAllowed []" "framed notFound []"
proof -
  have cl: "findContentLength (''HTTP/1.1 200 OK'' @ crlf @ ''Content-Length: 2'' @ crlf @ crlf) = 2"
      "findContentLength (''HTTP/1.1 503 Service Unavailable'' @ crlf @ ''Content-Length: 9'' @ crlf @ crlf) = 9"
      "findContentLength (''HTTP/1.1 405 Method Not Allowed'' @ crlf @ ''Content-Length: 0'' @ crlf @ crlf) = 0"
      "findContentLength (''HTTP/1.1 404 Not Found'' @ crlf @ ''Content-Length: 0'' @ crlf @ crlf) = 0" by code_simp+
  have ix: "indexHeaderEnd readyOK = Some 34" "indexHeaderEnd readyNotYet = Some 51"
      "indexHeaderEnd methodNotAllowed = Some 50" "indexHeaderEnd notFound = Some 41" by code_simp+
  show "framed readyOK ''ok''"
    using framed_parts [of "''HTTP/1.1 200 OK'' @ crlf @ ''Content-Length: 2''" "''ok''"] cl ix
    by (simp add: readyOK_def) (simp add: crlf_def)
  show "framed readyNotYet ''not ready''"
    using framed_parts [of "''HTTP/1.1 503 Service Unavailable'' @ crlf @ ''Content-Length: 9''" "''not ready''"] cl ix
    by (simp add: readyNotYet_def) (simp add: crlf_def)
  show "framed methodNotAllowed []"
    using framed_parts [of "''HTTP/1.1 405 Method Not Allowed'' @ crlf @ ''Content-Length: 0''" "[]"] cl ix
    by (simp add: methodNotAllowed_def) (simp add: crlf_def)
  show "framed notFound []"
    using framed_parts [of "''HTTP/1.1 404 Not Found'' @ crlf @ ''Content-Length: 0''" "[]"] cl ix
    by (simp add: notFound_def) (simp add: crlf_def)
qed

text \<open>What a connection needs of its router: an invariant that every call keeps, and framed answers.\<close>

locale http_router =
  fixes route :: "'h router" and inv :: "'h \<Rightarrow> bool"
  assumes route_ok: "inv h \<Longrightarrow> route p body h = Some (r, h') \<Longrightarrow> inv h' \<and> (\<exists>b. framed r b)"
begin

lemma serve_framed:
  "inv h \<Longrightarrow> serve route w h s = (out, h', e, s') \<Longrightarrow> inv h' \<and> list_all (\<lambda>r. \<exists>b. framed r b) out"
proof (induction w arbitrary: h s out)
  case 0
  then show ?case
    by (auto simp: serve.simps [of route 0 h s] split: step.splits option.splits prod.splits dest: route_ok)
next
  case (Suc w)
  show ?case
    using Suc.prems route_ok [OF Suc.prems(1)]
    by (auto simp: serve.simps [of route "Suc w" h s] split: step.splits option.splits prod.splits dest!: Suc.IH [rotated])
qed

end

subsection \<open>A posted transaction\<close>

definition post_line :: string where
  "post_line = ''POST /fraud-score HTTP/1.1'' @ crlf @ ''Content-Length: ''"

definition post_frame :: "string \<Rightarrow> frame" where
  "post_frame body = (post_line @ the (itoa (length body)) @ crlf @ crlf, ''/fraud-score'', body)"

lemma post_line_length:
  assumes "ds \<noteq> []" "list_all is_digit ds"
  shows "findContentLength (post_line @ ds @ crlf @ t) = accum ds"
proof -
  define u where "u = ''Content-Length: '' @ ds @ crlf @ t"
  define x1 where "x1 = ''POST /fraud-s''"
  define x3 where "x3 = ''ore HTTP/1.1'' @ crlf"
  have e: "post_line @ ds @ crlf @ t = x1 @ CHR ''c'' # x3 @ u" by (simp add: post_line_def u_def x1_def x3_def)
  have l: "16 < length u" using assms(1) by (cases ds) (simp_all add: u_def)
  have p2: "\<not> isContentLengthPrefix (CHR ''c'' # x3 @ u)"
  proof -
    have "map lower_ascii (''core HTTP/1.1'' @ crlf) \<noteq> take 15 ''content-length: ''" by code_simp
    then show ?thesis by (simp add: isContentLengthPrefix_def x3_def u_def crlf_def)
  qed
  have "findContentLength (x1 @ v) = findContentLength v" "findContentLength (x3 @ v) = findContentLength v" if "16 < length v" for v
    using that by (intro content_length_skip; simp add: x1_def x3_def crlf_def)+
  then have "findContentLength (post_line @ ds @ crlf @ t) = findContentLength u" unfolding e using l p2 by simp
  also have "\<dots> = accum ds" unfolding u_def by (rule content_length_here [OF assms])
  finally show ?thesis .
qed

lemma post_frame_ok:
  assumes "length body \<le> 8000"
  shows "frame_ok (post_frame body)"
proof -
  have n16: "length body < 10 ^ 4" using assms by simp
  then have "length body < 10 ^ 16" by simp
  then obtain ds where ds: "itoa (length body) = Some ds" "list_all is_digit ds" "ds \<noteq> []" "accum ds = int (length body)"
    using itoa_digits by blast
  have lds: "length ds \<le> 16"
    using itoa_loop_digits [of "length body" 16 "[]"] ds(1) \<open>length body < 10 ^ 16\<close> by (auto simp: itoa_def split: if_splits)
  obtain d ds' where d0: "ds = d # ds'" using ds(3) by (cases ds) auto
  then have "d \<noteq> CHR 0x0D" using ds(2) by (auto simp: is_digit_def)
  note d = d0 this
  define hdr where "hdr = post_line @ ds @ crlf @ crlf"
  have ix: "indexHeaderEnd hdr = Some (length post_line + length ds)"
  proof -
    have "indexHeaderEnd (ds @ crlf @ crlf @ []) = Some (length ds)" by (rule header_end_digits [OF ds(2)])
    then show ?thesis using d by (simp add: hdr_def post_line_def crlf_def)
  qed
  have "length hdr = length post_line + length ds + 4" by (simp add: hdr_def crlf_def)
  moreover have "length post_line = 44" by (simp add: post_line_def crlf_def)
  moreover have "parseRequestLine hdr (length hdr) = Some ((5, 17), int (length body))"
  proof -
    have "findContentLength hdr = int (length body)" unfolding hdr_def post_line_length [OF ds(3,2)] by (rule ds(4))
    then show ?thesis by (simp add: parseRequestLine_def Let_def) (simp add: hdr_def post_line_def)
  qed
  moreover have "take (17 - 5) (drop 5 hdr) = ''/fraud-score''" by (simp add: hdr_def post_line_def)
  ultimately have "head_ok hdr ''/fraud-score'' (length body)"
    using ix assms lds by (auto simp: head_ok_def maxRequestSize_def)
  then show ?thesis by (simp add: frame_ok_def post_frame_def ds(1) hdr_def)
qed

section \<open>Properties\<close>

text \<open>C8. The connection loop refines its specification.  For any requests, sent in bursts that are either
  one request of at most 8192 bytes or several that fit the first 4096 bytes, with the text of each burst cut
  into chunks anywhere, the responses written are the router's answers, one for each request, in order and
  with the path and body of that request.\<close>

theorem session_answers:
  assumes "list_all burst_ok bs" and "length buf = readBufSize \<or> length buf = maxRequestSize"
  shows "\<exists>s'. (let (out, h', e) = answer route w h (concat (map fst bs)) in
    handleRawConn route w h buf (concat (map snd bs)) = (out, h', e, s'))"
proof -
  have "burst (concat (map frame_text [])) (concat (map snd bs)) \<lparr>nbuf = buf, used = 0, pos = 0, path = Own [], chunks = concat (map snd bs)\<rparr>"
    using assms(2) by (auto simp: burst_def conn_ok_def buffered_def)
  from serve_bursts [OF assms(1) this, of route w h] show ?thesis by (simp add: handleRawConn_def)
qed

theorem session_answers_witness:
  "\<exists>s'. handleRawConn (\<lambda>p body h. Some (p @ body, h + 1)) 5 (0 :: nat) (replicate 4096 CHR 0x00)
      [post_line, ''2'', crlf @ [CHR 0x0D], [CHR 0x0A] @ ''hi'' @ post_line @ ''1'' @ crlf @ crlf @ ''!''] =
    ([''/fraud-scorehi'', ''/fraud-score!''], 2, Closed, s')"
proof -
  define bs where "bs = [([post_frame ''hi'', post_frame ''!''],
    [post_line, ''2'', crlf @ [CHR 0x0D], [CHR 0x0A] @ ''hi'' @ post_line @ ''1'' @ crlf @ crlf @ ''!''])]"
  have it: "itoa (Suc (Suc 0)) = Some ''2''" "itoa (Suc 0) = Some ''1''" by code_simp+
  have "list_all burst_ok bs"
    using post_frame_ok [of "''hi''"] post_frame_ok [of "''!''"] it
    by (simp add: bs_def burst_ok_def post_frame_def frame_text_def) (simp add: post_line_def crlf_def readBufSize_def)
  from session_answers [OF this, of "replicate 4096 CHR 0x00" "\<lambda>p body h. Some (p @ body, h + 1)" "Suc (Suc w)" "0 :: nat" for w]
  have "\<exists>s'. handleRawConn (\<lambda>p body h. Some (p @ body, h + 1)) (Suc (Suc w)) (0 :: nat) (replicate 4096 CHR 0x00)
      [post_line, ''2'', crlf @ [CHR 0x0D], [CHR 0x0A] @ ''hi'' @ post_line @ ''1'' @ crlf @ crlf @ ''!''] =
    ([''/fraud-scorehi'', ''/fraud-score!''], 2, Closed, s')" for w
    by (simp add: bs_def post_frame_def readBufSize_def numeral_2_eq_2)
  from this [of 3] show ?thesis by simp
qed

text \<open>C33. The buffer is bounded and goes back to the pool: whatever the peer sends and whatever the router does,
  the loop ends (closed or panicked, never reading into a full buffer for ever), and its buffer has one of
  the two sizes the next connection may start with.\<close>

theorem buffer_bounded:
  assumes "length buf = readBufSize \<or> length buf = maxRequestSize"
  shows "\<exists>out h' e s'. handleRawConn route w h buf cs = (out, h', e, s') \<and> e \<noteq> Spinning \<and> pool_put s' = Some (nbuf s') \<and>
    (length (nbuf s') = readBufSize \<or> length (nbuf s') = maxRequestSize) \<and> pos s' \<le> used s' \<and> used s' \<le> length (nbuf s')"
proof -
  obtain out h' e s' where r: "handleRawConn route w h buf cs = (out, h', e, s')" by (metis prod_cases4)
  have "conn_ok \<lparr>nbuf = buf, used = 0, pos = 0, path = Own [], chunks = cs\<rparr>" using assms by (simp add: conn_ok_def)
  from serve_inv [OF this r [unfolded handleRawConn_def]] have "conn_ok s'" "e \<noteq> Spinning" by auto
  then show ?thesis using r by (auto simp: conn_defs pool_put_def)
qed

theorem buffer_bounded_witness:
  "\<exists>out h' e s'. handleRawConn (\<lambda>p body h. Some (p, h)) 1 (0 :: nat) (replicate 4096 CHR 0x00) [''GET'', ''/''] = (out, h', e, s') \<and>
    e \<noteq> Spinning \<and> pool_put s' = Some (nbuf s') \<and>
    (length (nbuf s') = readBufSize \<or> length (nbuf s') = maxRequestSize) \<and> pos s' \<le> used s' \<and> used s' \<le> length (nbuf s')"
  by (rule buffer_bounded) (simp add: readBufSize_def)

text \<open>C34. A content length is read without an overflow check, and only its upper bound is tested: a request whose
  length wraps around to a negative number makes the slice of the body panic, before the router is called.\<close>

theorem negative_length_panics:
  assumes hdr: "indexHeaderEnd hdr = Some i" "length hdr = i + 4" "length hdr \<le> maxRequestSize"
    and line: "parseRequestLine hdr (length hdr) = Some (r, l)" "l < 0"
    and "concat cs = hdr" "length buf = readBufSize \<or> length buf = maxRequestSize"
  shows "\<exists>s'. handleRawConn route w h buf cs = ([], h, Panicked, s')"
proof -
  define s where "s = \<lparr>nbuf = buf, used = 0, pos = 0, path = Own [], chunks = cs\<rparr>"
  have "burst (hdr @ []) [] s" using assms(6,7) by (simp add: s_def burst_def conn_ok_def buffered_def)
  from header_burst [OF this hdr] obtain s1 where s1: "head_loop s = Inr (pos s1 + i + 4, s1)" "conn_ok s1"
      "pos s1 + length hdr \<le> used s1" "used s1 \<le> length (nbuf s1)" "gslice (nbuf s1) (pos s1) (pos s1 + i + 4) = Some hdr" by blast
  have pl: "parseRequestLine hdr (length (nbuf s1) - pos s1) = Some (r, l)"
    by (rule parseRequestLine_mono [OF line(1)]) (use s1 in simp)
  have w: "wrap64 (int (pos s1 + i + 4) + l) = int (pos s1 + i + 4) + l"
  proof -
    have "- (2 ^ 63) \<le> l" using findContentLength_range [of hdr] parseRequestLine_length [OF line(1)] by simp
    moreover have "int (pos s1 + i + 4) \<le> 8192" using s1 hdr(2) by (auto simp: conn_defs)
    ultimately show ?thesis using line(2) by simp
  qed
  have neg: "int (pos s1 + i + 4) + l < int (pos s1 + i + 4)" using line(2) by simp
  have le: "pos s1 + i + 4 \<le> used s1" using s1(3) hdr(2) by simp
  have b: "body_loop (pos s1 + i + 4) (int (pos s1 + i + 4) + l) s' = Inr (pos s1 + i + 4, int (pos s1 + i + 4) + l, s')"
    if "used s' = used s1" for s'
    using that neg le by (simp add: body_loop.simps)
  obtain x y where r: "r = (x, y)" by (cases r)
  have "\<not> int maxRequestSize - int (pos s1 + i + 4 - pos s1) < l" using line(2) hdr(2,3) by simp
  then have "read_request s = Ends (Panicked, s1\<lparr>path := Shared (pos s1 + x) (pos s1 + y)\<rparr>)"
    unfolding read_request_def s1(1) sum.case prod.case s1(5) option.case pl r w using neg b by simp
  then have "serve route w h s = ([], h, Panicked, s1\<lparr>path := Shared (pos s1 + x) (pos s1 + y)\<rparr>)"
    by (simp add: serve.simps [of route w h s])
  then show ?thesis by (simp add: handleRawConn_def s_def)
qed

definition bad_header :: string where
  "bad_header = post_line @ ''9223372036854775808'' @ crlf @ crlf"

theorem negative_length_panics_witness:
  "\<exists>s'. handleRawConn (\<lambda>p body h. Some (p, h)) 1 (0 :: nat) (replicate 4096 CHR 0x00) [bad_header] = ([], 0, Panicked, s')"
proof (rule negative_length_panics)
  show "indexHeaderEnd bad_header = Some 63" by code_simp
  show "length bad_header = 63 + 4" "length bad_header \<le> maxRequestSize" by (simp_all add: bad_header_def post_line_def crlf_def maxRequestSize_def)
  have "list_all is_digit ''9223372036854775808''" by code_simp
  then have "findContentLength bad_header = accum ''9223372036854775808''" unfolding bad_header_def by (intro post_line_length) simp_all
  also have "\<dots> = - 9223372036854775808" by (simp add: accum_def dig_def wrap64_def)
  finally have "findContentLength bad_header = - 9223372036854775808" .
  then show "parseRequestLine bad_header (length bad_header) = Some ((5, 17), - 9223372036854775808)"
    by (simp add: parseRequestLine_def Let_def) (simp add: bad_header_def post_line_def)
qed (simp_all add: readBufSize_def)

lemma length_without_space:
  \<comment> \<open>the byte after the colon is skipped as if it were the space\<close>
  "findContentLength (''Content-Length:42'' @ crlf @ crlf) = 2"
  by code_simp

lemma path_after_compact:
  \<comment> \<open>after a compaction the path slice shows the bytes that lay \<open>pos\<close> further on\<close>
  assumes "path s = Shared a b" "b \<le> used s - pos s" "conn_ok s"
  shows "path_text (compact_buf s) = take (b - a) (drop (a + pos s) (nbuf s))"
proof -
  define x where "x = take (used s - pos s) (drop (pos s) (nbuf s))"
  have "length x = used s - pos s" using assms(3) by (auto simp: x_def conn_ok_def min_def)
  then have "take (b - a) (drop a (x @ y)) = take (b - a) (drop a x)" for y
    using assms(2) by (cases "a \<le> b") simp_all
  moreover have "path_text (compact_buf s) = take (b - a) (drop a (x @ drop (used s - pos s) (nbuf s)))"
    using assms(1) by (simp add: path_text_def compact_buf_def x_def)
  moreover have "take (b - a) (drop a (take n z)) = take (b - a) (drop a z)" if "b \<le> n" for n and z :: string
    using that by (cases "a \<le> b") (auto simp: take_drop min_def)
  ultimately show ?thesis using assms(2) by (simp only: x_def drop_drop)
qed

text \<open>A header without a space that fills the buffer panics: the slice of the path would start behind the
  array.\<close>

theorem no_space_panics:
  assumes "CHR '' '' \<notin> set hdr" "indexHeaderEnd hdr = Some i" "length hdr = i + 4" "length hdr = readBufSize"
    and "concat cs = hdr" "length buf = readBufSize"
  shows "\<exists>s'. handleRawConn route w h buf cs = ([], h, Panicked, s')"
proof -
  define s where "s = \<lparr>nbuf = buf, used = 0, pos = 0, path = Own [], chunks = cs\<rparr>"
  have b: "burst hdr [] s \<and> length (nbuf s) = readBufSize" using assms by (simp add: s_def burst_def conn_ok_def buffered_def)
  have "\<exists>s1. head_loop s = Inr (readBufSize, s1) \<and> pos s1 = 0 \<and> nbuf s1 = hdr" if "burst hdr [] s \<and> length (nbuf s) = readBufSize" "pos s = 0" for s
    using that
  proof (induction s rule: head_loop.induct)
    case (1 s)
    have ok: "conn_ok s" using "1.prems" by (simp add: burst_def)
    note g = gslice_buffered [OF ok]
    have bt: "buffered s = take (used s) hdr" "used s \<le> length hdr" using burst_buffered [of hdr "[]" s] "1.prems" by auto
    show ?case
    proof (cases "used s = length hdr")
      case True
      then have "nbuf s = hdr" using bt "1.prems" ok assms(4) by (simp add: buffered_def conn_ok_def)
      then show ?thesis using True g bt assms(2-4) "1.prems" by (simp add: head_loop.simps [of s])
    next
      case False
      then have short: "used s < length hdr" using bt by simp
      then have none: "indexHeaderEnd (buffered s) = None" using header_end_prefix [OF assms(2), of "used s"] bt assms(3) by simp
      have room: "head_room s = Some s" using short "1.prems" assms(4) by (simp add: head_room_def)
      have ne: "chunks s \<noteq> []" "burst hdr [] (receive s)" using burst_receive [of hdr "[]" s] "1.prems" short by simp_all
      have ns: "\<not> stuck s" by (rule not_stuck) (use short "1.prems" assms(4) in simp)
      have "head_loop s = head_loop (receive s)" using g none room ne(1) ns by (simp add: head_loop.simps [of s])
      then show ?thesis
        using "1.IH" [OF g none room ne(1) ns] ne(2) receive_ok [OF ok ne(1)] "1.prems" by simp
    qed
  qed
  from this [OF b] obtain s1 where s1: "head_loop s = Inr (readBufSize, s1)" "pos s1 = 0" "nbuf s1 = hdr" by (auto simp: s_def)
  have tw: "takeWhile (\<lambda>c. c \<noteq> CHR '' '') hdr = hdr" using assms(1) by (auto simp: takeWhile_eq_all_conv)
  have "parseRequestLine hdr (length hdr) = None" unfolding parseRequestLine_def Let_def tw by simp
  then have "read_request s = Ends (Panicked, s1)" using s1 assms(4) by (simp add: read_request_def gslice_Some)
  then have "serve route w h s = ([], h, Panicked, s1)" by (simp add: serve.simps [of route w h s])
  then show ?thesis by (simp add: handleRawConn_def s_def)
qed

lemma header_end_run: "indexHeaderEnd (replicate n CHR ''x'' @ crlf @ crlf) = Some n"
  by (induction n) (simp_all add: crlf_def)

theorem no_space_panics_witness:
  "\<exists>s'. handleRawConn (\<lambda>p body h. Some (p, h)) 1 (0 :: nat) (replicate 4096 CHR 0x00) [replicate 4092 CHR ''x'' @ crlf @ crlf] =
    ([], 0, Panicked, s')"
  by (rule no_space_panics [OF _ header_end_run]) (auto simp: crlf_def readBufSize_def)

end
