(* ===== verification/TopFive.thy ===== *)
theory TopFive
  imports GoFloat
begin

text \<open>
  The running five nearest neighbours: \<open>internal/search/top5.go\<close>, its copy in
  \<open>internal/specialist/search.go\<close>, and the ten scalars \<open>bruteInsert\<close> threads
  through the brute force of \<open>internal/search/bruteforce.go\<close>.  All three keep
  five (squared distance, label) pairs in ascending order.  The locale
  \<open>top_store\<close> states what the searches rely on; under its laws inserting any
  sequence of candidates yields the first five of a stable sort, and a candidate
  not below the worst distance changes nothing, which is what justifies every
  pruning test of the two indexes.
\<close>

subsection \<open>search.Top5\<close>

record Top5 =
  tdist :: "int list"
  tlabel :: "u8 list"

definition kernelSafety :: int where
  "kernelSafety = 65536"

definition Reset :: "Top5 \<Rightarrow> Top5" where
  "Reset t = t\<lparr>tdist := replicate 5 (2 ^ 62), tlabel := replicate 5 0\<rparr>"

definition WorstI64 :: "Top5 \<Rightarrow> int" where
  "WorstI64 t = tdist t ! 4"

definition WorstF32 :: "Top5 \<Rightarrow> fl" where
  "WorstF32 t = fadd F32 (fl_of_int F32 (tdist t ! 4)) (fl_of_int F32 kernelSafety)"

text \<open>The shifting loop of \<open>InsertI64\<close>: positions \<open>pos, pos - 1, ...\<close> while the
  neighbour on the left is larger.\<close>

fun shift_right :: "int \<Rightarrow> nat \<Rightarrow> int list \<Rightarrow> u8 list \<Rightarrow> nat \<times> int list \<times> u8 list" where
  "shift_right d 0 ds ls = (0, ds, ls)"
| "shift_right d (Suc p) ds ls =
     (if d < ds ! p then shift_right d p (ds[Suc p := ds ! p]) (ls[Suc p := ls ! p])
      else (Suc p, ds, ls))"

definition InsertI64 :: "Top5 \<Rightarrow> int \<Rightarrow> u8 \<Rightarrow> Top5" where
  "InsertI64 t d l =
     (if tdist t ! 4 \<le> d then t
      else let (pos, ds, ls) = shift_right d 4 (tdist t) (tlabel t)
           in t\<lparr>tdist := ds[pos := d], tlabel := ls[pos := l]\<rparr>)"

text \<open>The sum of five \<open>uint8\<close> labels.\<close>

definition FraudCount :: "Top5 \<Rightarrow> u8" where
  "FraudCount t = tlabel t ! 0 + tlabel t ! 1 + tlabel t ! 2 + tlabel t ! 3 + tlabel t ! 4"

definition new_Top5 :: Top5 where
  "new_Top5 = Reset \<lparr>tdist = replicate 5 0, tlabel = replicate 5 0\<rparr>"

subsection \<open>specialist.Top5\<close>

text \<open>\<open>internal/specialist/search.go\<close> repeats the type and its methods line by line.\<close>

definition sp_Reset :: "Top5 \<Rightarrow> Top5" where
  "sp_Reset t = t\<lparr>tdist := replicate 5 (2 ^ 62), tlabel := replicate 5 0\<rparr>"

definition sp_WorstF32 :: "Top5 \<Rightarrow> fl" where
  "sp_WorstF32 t = fadd F32 (fl_of_int F32 (tdist t ! 4)) (fl_of_int F32 65536)"

definition sp_InsertI64 :: "Top5 \<Rightarrow> int \<Rightarrow> u8 \<Rightarrow> Top5" where
  "sp_InsertI64 t d l =
     (if tdist t ! 4 \<le> d then t
      else let (pos, ds, ls) = shift_right d 4 (tdist t) (tlabel t)
           in t\<lparr>tdist := ds[pos := d], tlabel := ls[pos := l]\<rparr>)"

definition sp_FraudCount_top :: "Top5 \<Rightarrow> u8" where
  "sp_FraudCount_top t = tlabel t ! 0 + tlabel t ! 1 + tlabel t ! 2 + tlabel t ! 3 + tlabel t ! 4"

subsection \<open>bruteInsert\<close>

type_synonym five = "(int \<times> int \<times> int \<times> int \<times> int) \<times> (u8 \<times> u8 \<times> u8 \<times> u8 \<times> u8)"

fun bruteInsert :: "int \<Rightarrow> u8 \<Rightarrow> five \<Rightarrow> five" where
  "bruteInsert d l ((d0, d1, d2, d3, d4), (l0, l1, l2, l3, l4)) =
     (if d4 \<le> d then ((d0, d1, d2, d3, d4), (l0, l1, l2, l3, l4))
      else if d < d0 then ((d, d0, d1, d2, d3), (l, l0, l1, l2, l3))
      else if d < d1 then ((d0, d, d1, d2, d3), (l0, l, l1, l2, l3))
      else if d < d2 then ((d0, d1, d, d2, d3), (l0, l1, l, l2, l3))
      else if d < d3 then ((d0, d1, d2, d, d3), (l0, l1, l2, l, l3))
      else ((d0, d1, d2, d3, d), (l0, l1, l2, l3, l)))"

fun five_worst :: "five \<Rightarrow> int" where
  "five_worst ((d0, d1, d2, d3, d4), _) = d4"

fun five_ents :: "five \<Rightarrow> (int \<times> u8) list" where
  "five_ents ((d0, d1, d2, d3, d4), (l0, l1, l2, l3, l4)) =
     [(d0, l0), (d1, l1), (d2, l2), (d3, l3), (d4, l4)]"

definition five_init :: five where
  "five_init = ((2 ^ 62, 2 ^ 62, 2 ^ 62, 2 ^ 62, 2 ^ 62), (0, 0, 0, 0, 0))"

subsection \<open>The specification: a stable insertion into a sorted list of pairs\<close>

fun ins_pair :: "int \<times> u8 \<Rightarrow> (int \<times> u8) list \<Rightarrow> (int \<times> u8) list" where
  "ins_pair x [] = [x]"
| "ins_pair x (y # ys) = (if fst x < fst y then x # y # ys else y # ins_pair x ys)"

definition ents :: "Top5 \<Rightarrow> (int \<times> u8) list" where
  "ents t = zip (tdist t) (tlabel t)"

definition top_inv :: "Top5 \<Rightarrow> bool" where
  "top_inv t \<longleftrightarrow> length (tdist t) = 5 \<and> length (tlabel t) = 5 \<and> sorted (tdist t)"

definition five_inv :: "five \<Rightarrow> bool" where
  "five_inv t \<longleftrightarrow> sorted (map fst (five_ents t))"

definition knn5 :: "(int \<times> u8) list \<Rightarrow> (int \<times> u8) list" where
  \<comment> \<open>the five nearest of a candidate list, the earlier one first on ties\<close>
  "knn5 cs = take 5 (sort_key fst cs)"

definition unset :: "(int \<times> u8) list" where
  \<comment> \<open>the five slots \<open>Reset\<close> writes\<close>
  "unset = replicate 5 (2 ^ 62, 0)"

lemma set_ins_pair: "set (ins_pair x xs) = insert x (set xs)"
  by (induction xs) auto

lemma mset_ins_pair: "mset (ins_pair x xs) = add_mset x (mset xs)"
  by (induction xs) auto

lemma length_ins_pair: "length (ins_pair x xs) = Suc (length xs)"
  by (induction xs) auto

lemma sorted_ins_pair: "sorted (map fst xs) \<Longrightarrow> sorted (map fst (ins_pair x xs))"
  by (induction xs) (auto simp: set_ins_pair)

lemma filter_ins_pair:
  "sorted (map fst xs) \<Longrightarrow>
   filter (\<lambda>y. fst y = k) (ins_pair x xs) = filter (\<lambda>y. fst y = k) xs @ (if fst x = k then [x] else [])"
proof (induction xs)
  case (Cons y ys)
  have "fst x < fst y \<Longrightarrow> filter (\<lambda>z. fst z = fst x) ys = []"
    using Cons.prems by (fastforce simp: filter_empty_conv)
  with Cons show ?case by auto
qed simp

lemma ins_pair_sort_key: "ins_pair x (sort_key fst xs) = sort_key fst (xs @ [x])"
proof (rule properties_for_sort_key [symmetric])
  show "mset (ins_pair x (sort_key fst xs)) = mset (xs @ [x])"
    by (simp add: mset_ins_pair)
  show "sorted (map fst (ins_pair x (sort_key fst xs)))"
    by (rule sorted_ins_pair) simp
  fix k assume "k \<in> set (ins_pair x (sort_key fst xs))"
  show "filter (\<lambda>y. fst k = fst y) (ins_pair x (sort_key fst xs)) = filter (\<lambda>y. fst k = fst y) (xs @ [x])"
    using filter_ins_pair [of "sort_key fst xs" "fst k" x] sort_key_stable [of fst "fst k" xs]
    by (auto simp: eq_commute [of "fst k"])
qed

lemma take_ins_pair: "take k (ins_pair x (take k xs)) = take k (ins_pair x xs)"
proof (induction xs arbitrary: k)
  case (Cons y ys)
  then show ?case by (cases k) (auto simp: take_Cons')
qed simp

lemma knn5_snoc: "take 5 (ins_pair x (knn5 cs)) = knn5 (cs @ [x])"
  by (simp add: knn5_def take_ins_pair ins_pair_sort_key)

lemma knn5_dists: "map fst (knn5 cs) = take 5 (sort (map fst cs))"
proof -
  have "map fst (sort_key fst cs) = sort (map fst cs)"
    by (rule properties_for_sort [symmetric]) (simp_all add: mset_map)
  then show ?thesis by (simp add: knn5_def flip: take_map)
qed

subsection \<open>The interface of a five-nearest store\<close>

locale top_store =
  fixes ins :: "'t \<Rightarrow> int \<Rightarrow> u8 \<Rightarrow> 't"
    and worst :: "'t \<Rightarrow> int"
    and contents :: "'t \<Rightarrow> (int \<times> u8) list"
    and inv :: "'t \<Rightarrow> bool"
  assumes inv_ins: "inv t \<Longrightarrow> inv (ins t d l)"
    and contents_ins: "inv t \<Longrightarrow> contents (ins t d l) = take 5 (ins_pair (d, l) (contents t))"
    and inv_sorted: "inv t \<Longrightarrow> sorted (map fst (contents t))"
    and inv_length: "inv t \<Longrightarrow> length (contents t) = 5"
    and worst_last: "inv t \<Longrightarrow> worst t = fst (contents t ! 4)"
    and ins_worse: "inv t \<Longrightarrow> worst t \<le> d \<Longrightarrow> ins t d l = t"
begin

definition insert_all :: "(int \<times> u8) list \<Rightarrow> 't \<Rightarrow> 't" where
  "insert_all cs t = fold (\<lambda>(d, l) t. ins t d l) cs t"

lemma insert_all_Nil [simp]: "insert_all [] t = t"
  by (simp add: insert_all_def)

lemma insert_all_Cons [simp]: "insert_all (c # cs) t = insert_all cs (ins t (fst c) (snd c))"
  by (simp add: insert_all_def split_beta)

lemma insert_all_append [simp]: "insert_all (cs @ cs') t = insert_all cs' (insert_all cs t)"
  by (simp add: insert_all_def)

lemma inv_insert_all: "inv t \<Longrightarrow> inv (insert_all cs t)"
  by (induction cs arbitrary: t) (auto simp: inv_ins)

text \<open>Inserting candidates one by one is taking the first five of a stable sort.\<close>

lemma contents_insert_all:
  "inv t \<Longrightarrow> contents t = knn5 bs \<Longrightarrow> contents (insert_all cs t) = knn5 (bs @ cs)"
proof (induction cs arbitrary: t bs)
  case (Cons c cs)
  have "contents (ins t (fst c) (snd c)) = knn5 (bs @ [c])"
    using Cons.prems by (simp add: contents_ins knn5_snoc)
  with Cons.IH [OF inv_ins [OF Cons.prems(1)] this] show ?case by simp
qed simp

lemma worst_ins_le: "inv t \<Longrightarrow> worst (ins t d l) \<le> worst t"
proof (cases "worst t \<le> d")
  case False
  assume inv: "inv t"
  then obtain a b c e f where eq: "contents t = [a, b, c, e, f]"
    using inv_length [of t] by (auto simp: numeral_eq_Suc length_Suc_conv)
  have s: "sorted (map fst [a, b, c, e, f])" using inv_sorted [OF inv] eq by simp
  show ?thesis
    using False s inv inv_ins [OF inv, of d l] unfolding worst_last [OF inv] eq
    by (auto simp: worst_last contents_ins eq numeral_eq_Suc)
qed (simp add: ins_worse)

lemma worst_insert_all_le: "inv t \<Longrightarrow> worst (insert_all cs t) \<le> worst t"
proof (induction cs arbitrary: t)
  case (Cons c cs)
  then show ?case
    using worst_ins_le [of t "fst c" "snd c"] Cons.IH [OF inv_ins, of t "fst c" "snd c"] by simp
qed simp

text \<open>Candidates that are not below the worst distance can be skipped.\<close>

lemma insert_all_skip:
  "inv t \<Longrightarrow> \<forall>c \<in> set cs. worst t \<le> fst c \<Longrightarrow> insert_all cs t = t"
  by (induction cs) (auto simp: ins_worse)

end

subsection \<open>The three providers\<close>

lemma five_cases:
  assumes "length xs = 5"
  obtains a b c d e where "xs = [a, b, c, d, e]"
  using assms by (auto simp: numeral_eq_Suc length_Suc_conv)

lemma top_inv_cases:
  assumes "top_inv t"
  obtains d0 d1 d2 d3 d4 l0 l1 l2 l3 l4
  where "tdist t = [d0, d1, d2, d3, d4]" "tlabel t = [l0, l1, l2, l3, l4]"
    "d0 \<le> d1" "d1 \<le> d2" "d2 \<le> d3" "d3 \<le> d4"
proof -
  obtain d0 d1 d2 d3 d4 where d: "tdist t = [d0, d1, d2, d3, d4]"
    using assms by (auto simp: top_inv_def elim: five_cases)
  obtain l0 l1 l2 l3 l4 where l: "tlabel t = [l0, l1, l2, l3, l4]"
    using assms by (auto simp: top_inv_def elim: five_cases)
  show thesis using that [OF d l] assms by (auto simp: top_inv_def d)
qed

lemma top_inv_Reset: "top_inv (Reset t)"
  by (simp add: top_inv_def Reset_def numeral_eq_Suc)

lemma ents_Reset: "ents (Reset t) = knn5 unset"
  by (simp add: ents_def Reset_def unset_def knn5_def numeral_eq_Suc)

lemma InsertI64_ents:
  assumes "top_inv t"
  shows "ents (InsertI64 t d l) = take 5 (ins_pair (d, l) (ents t)) \<and> top_inv (InsertI64 t d l)"
proof -
  from assms obtain d0 d1 d2 d3 d4 l0 l1 l2 l3 l4
    where t: "tdist t = [d0, d1, d2, d3, d4]" "tlabel t = [l0, l1, l2, l3, l4]"
      and s: "d0 \<le> d1" "d1 \<le> d2" "d2 \<le> d3" "d3 \<le> d4"
    by (rule top_inv_cases)
  consider "d4 \<le> d" | "d < d4" "d3 \<le> d" | "d < d3" "d2 \<le> d" | "d < d2" "d1 \<le> d"
    | "d < d1" "d0 \<le> d" | "d < d0" by linarith
  then show ?thesis
    by cases (use s in \<open>simp_all add: InsertI64_def ents_def top_inv_def t numeral_eq_Suc\<close>)
qed

interpretation search_top: top_store InsertI64 WorstI64 ents top_inv
proof unfold_locales
  fix t d l
  assume inv: "top_inv t"
  show "top_inv (InsertI64 t d l)" "ents (InsertI64 t d l) = take 5 (ins_pair (d, l) (ents t))"
    using InsertI64_ents [OF inv] by auto
  show "sorted (map fst (ents t))" "length (ents t) = 5" "WorstI64 t = fst (ents t ! 4)"
    using inv by (auto simp: top_inv_def ents_def WorstI64_def)
  show "WorstI64 t \<le> d \<Longrightarrow> InsertI64 t d l = t"
    by (simp add: WorstI64_def InsertI64_def)
qed

lemma sp_InsertI64_eq: "sp_InsertI64 = InsertI64"
  by (simp add: fun_eq_iff sp_InsertI64_def InsertI64_def)

lemma sp_Reset_eq: "sp_Reset = Reset"
  by (simp add: fun_eq_iff sp_Reset_def Reset_def)

lemma sp_WorstF32_eq: "sp_WorstF32 = WorstF32"
  by (simp add: fun_eq_iff sp_WorstF32_def WorstF32_def kernelSafety_def)

interpretation specialist_top: top_store sp_InsertI64 WorstI64 ents top_inv
  unfolding sp_InsertI64_eq by unfold_locales

lemma five_exhaust:
  obtains d0 d1 d2 d3 d4 l0 l1 l2 l3 l4
  where "(t :: five) = ((d0, d1, d2, d3, d4), (l0, l1, l2, l3, l4))"
proof -
  obtain d0 d1 d2 d3 d4 where d: "fst t = (d0, d1, d2, d3, d4)" by (rule prod_cases5)
  obtain l0 l1 l2 l3 l4 where l: "snd t = (l0, l1, l2, l3, l4)" by (rule prod_cases5)
  show thesis
    by (rule that [of d0 d1 d2 d3 d4 l0 l1 l2 l3 l4]) (simp add: prod_eq_iff d l)
qed

lemma bruteInsert_ents:
  "five_inv t \<Longrightarrow> five_ents (bruteInsert d l t) = take 5 (ins_pair (d, l) (five_ents t)) \<and>
     five_inv (bruteInsert d l t)"
proof -
  obtain d0 d1 d2 d3 d4 l0 l1 l2 l3 l4
    where [simp]: "t = ((d0, d1, d2, d3, d4), (l0, l1, l2, l3, l4))" by (rule five_exhaust)
  assume "five_inv t"
  then have s: "d0 \<le> d1" "d1 \<le> d2" "d2 \<le> d3" "d3 \<le> d4"
    by (auto simp: five_inv_def)
  consider "d4 \<le> d" | "d < d4" "d3 \<le> d" | "d < d3" "d2 \<le> d" | "d < d2" "d1 \<le> d"
    | "d < d1" "d0 \<le> d" | "d < d0" by linarith
  then show ?thesis
    by cases (use s in \<open>simp_all add: five_inv_def numeral_eq_Suc\<close>)
qed

interpretation brute_top: top_store "\<lambda>t d l. bruteInsert d l t" five_worst five_ents five_inv
proof unfold_locales
  fix t d l
  assume inv: "five_inv t"
  show "five_inv (bruteInsert d l t)"
    "five_ents (bruteInsert d l t) = take 5 (ins_pair (d, l) (five_ents t))"
    using bruteInsert_ents [OF inv] by auto
  show "sorted (map fst (five_ents t))" using inv by (simp add: five_inv_def)
  show "length (five_ents t) = 5" "five_worst t = fst (five_ents t ! 4)"
    by (cases t rule: five_exhaust; simp)+
  show "five_worst t \<le> d \<Longrightarrow> bruteInsert d l t = t"
    by (cases t rule: five_exhaust) simp
qed

lemma five_inv_init: "five_inv five_init" and five_ents_init: "five_ents five_init = knn5 unset"
  by (simp_all add: five_inv_def five_init_def unset_def knn5_def numeral_eq_Suc)

subsection \<open>What the five nearest depend on\<close>

text \<open>The distances depend on the candidates as a multiset only.\<close>

lemma knn5_dists_mset: "mset cs = mset cs' \<Longrightarrow> map fst (knn5 cs) = map fst (knn5 cs')"
  unfolding knn5_dists by (metis mset_map sort_cong_mset)

lemma sort_key_split:
  "sort_key fst cs = sort_key fst (filter (\<lambda>x. fst x < B) cs) @ sort_key fst (filter (\<lambda>x. B \<le> fst x) cs)"
  for cs :: "(int \<times> u8) list"
proof (rule properties_for_sort_key)
  show "mset (sort_key fst (filter (\<lambda>x. fst x < B) cs) @ sort_key fst (filter (\<lambda>x. B \<le> fst x) cs)) = mset cs"
    by (simp flip: not_less)
  show "sorted (map fst (sort_key fst (filter (\<lambda>x. fst x < B) cs) @ sort_key fst (filter (\<lambda>x. B \<le> fst x) cs)))"
    by (auto simp: sorted_append)
  fix k
  show "filter (\<lambda>y. fst k = fst y)
      (sort_key fst (filter (\<lambda>x. fst x < B) cs) @ sort_key fst (filter (\<lambda>x. B \<le> fst x) cs)) =
    filter (\<lambda>y. fst k = fst y) cs"
    using sort_key_stable [of fst "fst k" "filter (\<lambda>x. fst x < B) cs"]
      sort_key_stable [of fst "fst k" "filter (\<lambda>x. B \<le> fst x) cs"]
    by (cases "fst k < B") (auto simp: eq_commute [of "fst k"] filter_empty_conv intro!: filter_cong)
qed

lemma knn5_far:
  "knn5 cs = knn5 (filter (\<lambda>x. fst x < B) cs) @
     take (5 - length (filter (\<lambda>x. fst x < B) cs)) (sort_key fst (filter (\<lambda>x. B \<le> fst x) cs))"
  unfolding knn5_def by (subst sort_key_split [of cs B]) simp

text \<open>No two candidates compete for the last place: there are at most five, or the fifth
  smallest distance is below the sixth.\<close>

definition no_tie :: "(int \<times> u8) list \<Rightarrow> bool" where
  "no_tie cs \<longleftrightarrow> length cs \<le> 5 \<or> sort (map fst cs) ! 4 < sort (map fst cs) ! 5"

lemma filter_less_sorted:
  "sorted s \<Longrightarrow> k < length s \<Longrightarrow> 0 < k \<Longrightarrow> s ! (k - 1) < s ! k \<Longrightarrow> length (filter (\<lambda>x. x < s ! k) s) = k"
  for s :: "int list"
proof -
  assume s: "sorted s" and k: "k < length s" "0 < k" and lt: "s ! (k - 1) < s ! k"
  have eq: "s = take k s @ drop k s" by simp
  have a: "\<forall>x \<in> set (take k s). x < s ! k"
  proof
    fix x assume "x \<in> set (take k s)"
    then obtain i where "i < k" "x = s ! i" using k by (auto simp: in_set_conv_nth)
    moreover from this have "s ! i \<le> s ! (k - 1)" using k by (intro sorted_nth_mono [OF s]) auto
    ultimately show "x < s ! k" using lt by simp
  qed
  have b: "\<forall>x \<in> set (drop k s). \<not> x < s ! k"
  proof
    fix x assume "x \<in> set (drop k s)"
    then obtain i where "i < length s - k" "x = s ! (k + i)" by (auto simp: in_set_conv_nth)
    moreover from this have "s ! k \<le> s ! (k + i)" by (intro sorted_nth_mono [OF s]) auto
    ultimately show "\<not> x < s ! k" by simp
  qed
  have "filter (\<lambda>x. x < s ! k) s = filter (\<lambda>x. x < s ! k) (take k s) @ filter (\<lambda>x. x < s ! k) (drop k s)"
    by (metis eq filter_append)
  also have "\<dots> = take k s" using a b by (simp add: filter_True filter_False)
  finally show ?thesis using k by simp
qed

lemma knn5_no_tie:
  assumes eq: "mset cs = mset cs'" and nt: "no_tie cs"
  shows "mset (knn5 cs) = mset (knn5 cs')"
proof (cases "length cs \<le> 5")
  case True
  then have "knn5 cs = sort_key fst cs" "knn5 cs' = sort_key fst cs'"
    using mset_eq_length [OF eq] by (simp_all add: knn5_def)
  then show ?thesis using eq by simp
next
  case False
  define s where "s = sort (map fst cs)"
  have s': "s = sort (map fst cs')" unfolding s_def by (metis eq mset_map sort_cong_mset)
  have lt: "s ! (5 - 1) < s ! 5" using nt False by (simp add: no_tie_def s_def)
  have len: "length (filter (\<lambda>x. x < s ! 5) s) = 5"
    using lt False by (intro filter_less_sorted) (auto simp: s_def)
  have count: "length (filter (\<lambda>x. fst x < s ! 5) ds) = 5" if "s = sort (map fst ds)" for ds :: "(int \<times> u8) list"
  proof -
    have "length (filter (\<lambda>x. fst x < s ! 5) ds) = length (filter (\<lambda>x. x < s ! 5) (map fst ds))"
      by (simp add: filter_map comp_def)
    also have "\<dots> = length (filter (\<lambda>x. x < s ! 5) s)"
      unfolding that by (metis mset_filter mset_sort size_mset)
    finally show ?thesis using len by simp
  qed
  have "mset (knn5 ds) = filter_mset (\<lambda>x. fst x < s ! 5) (mset ds)" if "s = sort (map fst ds)"
    for ds :: "(int \<times> u8) list"
    using knn5_far [of ds "s ! 5"] count [OF that] by (simp add: knn5_def)
  then show ?thesis using eq s' s_def by metis
qed

definition frauds :: "(int \<times> u8) list \<Rightarrow> u8" where
  \<comment> \<open>the label sum of the five nearest\<close>
  "frauds cs = sum_list (map snd (knn5 cs))"

lemma frauds_no_tie: "mset cs = mset cs' \<Longrightarrow> no_tie cs \<Longrightarrow> frauds cs = frauds cs'"
  unfolding frauds_def by (metis knn5_no_tie mset_map sum_mset_sum_list)

text \<open>Entries with label 0 beyond all labelled ones (padding lanes, unset slots) do not count.\<close>

lemma frauds_far:
  assumes "\<forall>x \<in> set cs. B \<le> fst x \<longrightarrow> snd x = 0"
  shows "frauds cs = frauds (filter (\<lambda>x. fst x < B) cs)"
proof -
  have "\<forall>x \<in> set (take n (sort_key fst (filter (\<lambda>x. B \<le> fst x) cs))). snd x = 0" for n
    using assms by (fastforce dest: in_set_takeD)
  then have "sum_list (map snd (take n (sort_key fst (filter (\<lambda>x. B \<le> fst x) cs)))) = 0" for n
    by (simp cong: map_cong)
  then show ?thesis
    unfolding frauds_def by (subst knn5_far [of cs B]) simp
qed

lemma FraudCount_ents: "top_inv t \<Longrightarrow> FraudCount t = sum_list (map snd (ents t))"
  by (erule top_inv_cases) (simp add: FraudCount_def ents_def add.assoc)

lemma FraudCount_frauds: "top_inv t \<Longrightarrow> ents t = knn5 cs \<Longrightarrow> FraudCount t = frauds cs"
  by (simp add: FraudCount_ents frauds_def)

end
