(* ===== verification/Kernel.thy ===== *)
theory Kernel
  imports TopFive
begin

text \<open>
  The distance kernels of \<open>internal/kernel\<close> and the exact re-ranking distance.
  \<open>ScanBlock8Generic\<close> is the Go fallback (\<open>dist_generic.go\<close>),
  \<open>ScanBlock8_asm\<close> the AVX2 routine of \<open>dist_amd64.s\<close> lane by lane (two
  accumulators, fused multiply-adds, one checkpoint after dimension 8), and
  \<open>ScanBlock8AVX2\<close> the symbol the callers use, chosen by build target.

  The locale \<open>scan_kernel\<close> is the contract the two searches rely on: a lane the
  kernel reports as not below the threshold has an exact squared distance that is
  not below the worst of the current five, so skipping it is harmless.  Both
  kernels satisfy it for every int16 query and block; the safety margin of
  65536 covers the rounding of fourteen single-precision squares.
\<close>

text \<open>What a build decides: whether the amd64 assembly is linked, and whether the
  compiler fuses \<open>x * y + z\<close> in the Go code.\<close>

record target =
  amd64 :: bool
  fuses :: bool

subsection \<open>The kernels\<close>

definition block_diff :: "fl list \<Rightarrow> i16 list \<Rightarrow> nat \<Rightarrow> nat \<Rightarrow> fl" where
  "block_diff q block d lane = fsub F32 (q ! d) (fl_of_int F32 (sint (block ! (d * 8 + lane))))"

definition any_alive :: "fl \<Rightarrow> fl list \<Rightarrow> bool" where
  "any_alive worst accs = list_ex (\<lambda>lane. flt (accs ! lane) worst) [0..<8]"

definition dim_step :: "bool \<Rightarrow> fl list \<Rightarrow> i16 list \<Rightarrow> nat \<Rightarrow> fl list \<Rightarrow> fl list" where
  "dim_step fused q block d accs =
     map (\<lambda>lane. let diff = block_diff q block d lane in fmac fused F32 (accs ! lane) diff diff) [0..<8]"

definition checkpoints :: "nat list" where
  "checkpoints = [8]"

function scan_dims :: "bool \<Rightarrow> fl list \<Rightarrow> i16 list \<Rightarrow> fl \<Rightarrow> nat \<Rightarrow> nat \<Rightarrow> fl list \<Rightarrow> bool \<times> fl list" where
  "scan_dims fused q block worst d cpIdx accs =
     (if d < 14 then
        let accs' = dim_step fused q block d accs in
        if cpIdx < length checkpoints \<and> d + 1 = checkpoints ! cpIdx then
          if any_alive worst accs' then scan_dims fused q block worst (d + 1) (cpIdx + 1) accs'
          else (False, accs')
        else scan_dims fused q block worst (d + 1) cpIdx accs'
      else (any_alive worst accs, accs))"
  by pat_completeness auto
termination
  by (relation "measure (\<lambda>(f, q, b, w, d, c, s). 14 - d)") auto

declare scan_dims.simps [simp del]

definition ScanBlock8Generic :: "bool \<Rightarrow> fl list \<Rightarrow> i16 list \<Rightarrow> fl \<Rightarrow> bool \<times> fl list" where
  "ScanBlock8Generic fused q block worst = scan_dims fused q block worst 0 0 (replicate 8 (Fin 0))"

definition asm_dim :: "fl list \<Rightarrow> i16 list \<Rightarrow> nat \<Rightarrow> fl list \<Rightarrow> fl list" where
  \<comment> \<open>\<open>VPMOVSXWD; VCVTDQ2PS; VBROADCASTSS; VSUBPS; VFMADD231PS\<close>\<close>
  "asm_dim q block d acc =
     map (\<lambda>lane. let diff = block_diff q block d lane in fma F32 diff diff (acc ! lane)) [0..<8]"

definition asm_merge :: "fl list \<Rightarrow> fl list \<Rightarrow> fl list" where
  \<comment> \<open>\<open>VADDPS Y4, Y0, Y3\<close>\<close>
  "asm_merge y0 y4 = map (\<lambda>lane. fadd F32 (y0 ! lane) (y4 ! lane)) [0..<8]"

definition ScanBlock8_asm :: "fl list \<Rightarrow> i16 list \<Rightarrow> fl \<Rightarrow> bool \<times> fl list" where
  "ScanBlock8_asm q block worst =
     (let y0 = fold (asm_dim q block) [0, 2, 4, 6] (replicate 8 (Fin 0));
          y4 = fold (asm_dim q block) [1, 3, 5, 7] (replicate 8 (Fin 0))
      in if \<not> any_alive worst (asm_merge y0 y4) then (False, asm_merge y0 y4)
      else
        let y0' = fold (asm_dim q block) [8, 10, 12] y0;
            y4' = fold (asm_dim q block) [9, 11, 13] y4;
            s = asm_merge y0' y4'
        in if \<not> any_alive worst s then (False, asm_merge s y4') else (True, s))"

definition ScanBlock8AVX2 :: "target \<Rightarrow> fl list \<Rightarrow> i16 list \<Rightarrow> fl \<Rightarrow> bool \<times> fl list" where
  "ScanBlock8AVX2 tgt q block worst =
     (if amd64 tgt then ScanBlock8_asm q block worst
      else ScanBlock8Generic (fuses tgt) q block worst)"

subsection \<open>Exact distance\<close>

definition exactI64Dist :: "i16 list \<Rightarrow> i16 list \<Rightarrow> nat \<Rightarrow> int" where
  "exactI64Dist qi block lane =
     fold (\<lambda>d ssd. let diff = wrap64 (sint (qi ! d) - sint (block ! (d * 8 + lane)))
                    in wrap64 (ssd + wrap64 (diff * diff))) [0..<14] 0"

text \<open>The float32 view of a query, as the callers prepare it.\<close>

definition to_f32 :: "i16 list \<Rightarrow> fl list" where
  "to_f32 qi = map (\<lambda>w. fl_of_int F32 (sint w)) qi"

subsection \<open>The mathematical distance\<close>

definition sq_dist :: "i16 list \<Rightarrow> i16 list \<Rightarrow> int" where
  "sq_dist a b = (\<Sum>d<14. (sint (a ! d) - sint (b ! d))\<^sup>2)"

definition lane_vec :: "i16 list \<Rightarrow> nat \<Rightarrow> i16 list" where
  \<comment> \<open>the vector a block stores in one lane\<close>
  "lane_vec block lane = map (\<lambda>d. block ! (d * 8 + lane)) [0..<14]"

lemma length_lane_vec [simp]: "length (lane_vec block lane) = 14"
  by (simp add: lane_vec_def)

lemma nth_lane_vec [simp]: "d < 14 \<Longrightarrow> lane_vec block lane ! d = block ! (d * 8 + lane)"
  by (simp add: lane_vec_def)

lemma i16_diff_range: "\<bar>sint (a :: i16) - sint (b :: i16)\<bar> \<le> 65535"
  using i16_range [of a] i16_range [of b] by linarith

lemma square_le_of_abs_le: "\<bar>x\<bar> \<le> b \<Longrightarrow> x\<^sup>2 \<le> b\<^sup>2" for x b :: "'a::linordered_idom"
  by (metis abs_ge_zero power2_abs power_mono)

lemma sq_dist_nonneg: "0 \<le> sq_dist a b"
  by (simp add: sq_dist_def sum_nonneg)

lemma sq_dist_le: "sq_dist a b \<le> 14 * 65535\<^sup>2"
proof -
  have "sq_dist a b \<le> (\<Sum>d<(14::nat). 65535\<^sup>2)"
    unfolding sq_dist_def by (intro sum_mono square_le_of_abs_le i16_diff_range)
  then show ?thesis by simp
qed

lemma fold_wrap64_sum:
  assumes "\<And>d. d < n \<Longrightarrow> 0 \<le> f d \<and> f d \<le> B" and "int n * B < 2 ^ 63" and "0 \<le> B" and "m \<le> n"
  shows "fold (\<lambda>d s. wrap64 (s + f d)) [0..<m] 0 = (\<Sum>d<m. f d)"
  using assms(4)
proof (induction m)
  case (Suc m)
  have "(\<Sum>d<Suc m. f d) \<le> (\<Sum>d<Suc m. B)"
    using assms(1) Suc.prems by (intro sum_mono) auto
  also have "\<dots> \<le> int n * B" using Suc.prems assms(3) by (auto intro!: mult_right_mono)
  finally have "(\<Sum>d<Suc m. f d) < 2 ^ 63" using assms(2) by linarith
  moreover have "0 \<le> (\<Sum>d<Suc m. f d)" using assms(1) Suc.prems by (intro sum_nonneg) auto
  ultimately show ?case using Suc by simp
qed simp

lemma exactI64Dist_eq: "exactI64Dist qi block lane = sq_dist qi (lane_vec block lane)"
proof -
  define f where "f d = (sint (qi ! d) - sint (block ! (d * 8 + lane)))\<^sup>2" for d
  have f: "0 \<le> f d \<and> f d \<le> 65535\<^sup>2" for d
    unfolding f_def using square_le_of_abs_le [OF i16_diff_range] by simp
  have w: "wrap64 (sint (qi ! d) - sint (block ! (d * 8 + lane))) = sint (qi ! d) - sint (block ! (d * 8 + lane))" for d
    using i16_diff_range [of "qi ! d" "block ! (d * 8 + lane)"] by (intro wrap64_id) auto
  have w2: "wrap64 (f d) = f d" for d
    using f [of d] by (intro wrap64_id) auto
  have "exactI64Dist qi block lane = fold (\<lambda>d s. wrap64 (s + f d)) [0..<14] 0"
    unfolding exactI64Dist_def Let_def w
    by (rule fold_cong) (simp_all add: f_def [symmetric] w2 flip: power2_eq_square)
  also have "\<dots> = (\<Sum>d<14. f d)"
    by (rule fold_wrap64_sum [where n = 14 and B = "65535\<^sup>2"]) (use f in auto)
  finally show ?thesis by (simp add: sq_dist_def f_def)
qed

subsection \<open>Rounding of accumulated squares\<close>

text \<open>\<open>acc_ok r S n\<close>: \<open>r\<close> is a single-precision value reached by accumulating squares that
  sum up to \<open>S\<close> with at most \<open>n\<close> roundings on each.\<close>

definition acc_ok :: "real \<Rightarrow> real \<Rightarrow> nat \<Rightarrow> bool" where
  "acc_ok r S n \<longleftrightarrow> (r = 0 \<or> 1 \<le> r) \<and> r \<le> S * (1 + ulp F32) ^ n"

lemma acc_ok_0: "acc_ok 0 0 n"
  by (simp add: acc_ok_def)

lemma one_ulp: "1 \<le> 1 + ulp F32" "0 < 1 + ulp F32"
  using ulp_pos [of F32] by auto

lemma acc_ok_mono: "acc_ok r S n \<Longrightarrow> n \<le> m \<Longrightarrow> 0 \<le> S \<Longrightarrow> S \<le> S' \<Longrightarrow> acc_ok r S' m"
proof -
  assume r: "acc_ok r S n" and le: "n \<le> m" "0 \<le> S" "S \<le> S'"
  have "S * (1 + ulp F32) ^ n \<le> S' * (1 + ulp F32) ^ m"
    using le one_ulp by (intro mult_mono power_increasing) auto
  with r show ?thesis by (auto simp: acc_ok_def)
qed

lemma ulp_pow_le_2: "n \<le> 20 \<Longrightarrow> (1 + ulp F32) ^ n \<le> 2"
proof -
  assume "n \<le> 20"
  then have "(1 + ulp F32) ^ n \<le> (1 + ulp F32) ^ 20"
    using one_ulp by (intro power_increasing) auto
  also have "\<dots> \<le> 2" by (simp add: ulp_F32 power_divide)
  finally show ?thesis .
qed

lemma acc_ok_le:
  assumes "acc_ok r S n" "n \<le> 20" "S \<le> 2 ^ 59" "0 \<le> S"
  shows "r \<le> 2 ^ 60"
proof -
  have "S * (1 + ulp F32) ^ n \<le> 2 ^ 59 * 2"
    using assms ulp_pow_le_2 [of n] one_ulp by (intro mult_mono) auto
  with assms(1) show ?thesis by (simp add: acc_ok_def)
qed

lemma acc_step_bound:
  fixes u :: real
  assumes "r \<le> S * u ^ Suc n" "0 \<le> S" "0 \<le> t" "1 \<le> u"
  shows "(r + t * u) * u \<le> (S + t) * u ^ Suc (Suc n)"
proof -
  have "t * u \<le> t * u ^ Suc n"
    using assms by (intro mult_left_mono self_le_power) auto
  then have "r + t * u \<le> (S + t) * u ^ Suc n"
    using assms(1) by (simp add: distrib_right)
  then have "(r + t * u) * u \<le> (S + t) * u ^ Suc n * u"
    using assms(4) by (intro mult_right_mono) auto
  then show ?thesis by (simp add: mult_ac)
qed

lemma fmac_square_acc:
  assumes "acc_ok r S (Suc n)" and "n \<le> 18" and "0 \<le> S" and "S \<le> 2 ^ 59"
    and "\<bar>z\<bar> \<le> 2 ^ 29"
  shows "\<exists>r'. fmac fused F32 (Fin r) (Fin (of_int z)) (Fin (of_int z)) = Fin r' \<and>
    acc_ok r' (S + (of_int z)\<^sup>2) (Suc (Suc n))"
proof -
  have d: "of_int z = (0::real) \<or> 1 \<le> \<bar>real_of_int z\<bar>" by (cases "z = 0") auto
  have "\<bar>real_of_int z\<bar> \<le> 2 ^ 29" using assms(5) by (metis of_int_abs of_int_le_iff of_int_numeral of_int_power)
  then have "(real_of_int z)\<^sup>2 \<le> (2 ^ 29)\<^sup>2" by (rule square_le_of_abs_le)
  then have zz: "real_of_int z * real_of_int z \<le> 2 ^ 60" by (simp add: power2_eq_square)
  have "r = 0 \<or> 1 \<le> r" "r \<le> 2 ^ 60"
    using assms acc_ok_le [of r S "Suc n"] by (auto simp: acc_ok_def)
  from fmac_square_F32 [OF this(1) d this(2) zz, of fused]
  obtain r' where r': "fmac fused F32 (Fin r) (Fin (of_int z)) (Fin (of_int z)) = Fin r'"
      "r' = 0 \<or> 1 \<le> r'" "r' \<le> (r + of_int z * of_int z * (1 + ulp F32)) * (1 + ulp F32)"
    by blast
  have "(r + of_int z * of_int z * (1 + ulp F32)) * (1 + ulp F32) \<le>
      (S + of_int z * of_int z) * (1 + ulp F32) ^ Suc (Suc n)"
    using assms one_ulp by (intro acc_step_bound) (auto simp: acc_ok_def)
  with r' show ?thesis by (auto simp: acc_ok_def power2_eq_square)
qed

lemma fma_square_acc:
  assumes "acc_ok r S (Suc n)" and "n \<le> 18" and "0 \<le> S" and "S \<le> 2 ^ 59"
    and "\<bar>z\<bar> \<le> 2 ^ 29"
  shows "\<exists>r'. fma F32 (Fin (of_int z)) (Fin (of_int z)) (Fin r) = Fin r' \<and>
    acc_ok r' (S + (of_int z)\<^sup>2) (Suc (Suc n))"
  using fmac_square_acc [OF assms, of True] by (simp add: fmac_def)

lemma block_diff_eq:
  assumes "d < 14" "length qi = 14"
  shows "block_diff (to_f32 qi) block d lane = Fin (of_int (sint (qi ! d) - sint (block ! (d * 8 + lane))))"
proof -
  have a: "fl_of_int F32 (sint w) = Fin (of_int (sint w))" for w :: i16
    using i16_range [of w] by (intro fl_of_int_exact) auto
  have "\<bar>sint (qi ! d) - sint (block ! (d * 8 + lane))\<bar> \<le> 2 ^ nat (prec F32)"
    using i16_diff_range [of "qi ! d" "block ! (d * 8 + lane)"] by simp
  from fround_of_int [OF this] show ?thesis
    using assms by (simp add: block_diff_def to_f32_def fsub_def a)
qed

subsection \<open>The invariant of one lane\<close>

definition lane_sq :: "i16 list \<Rightarrow> i16 list \<Rightarrow> nat \<Rightarrow> nat \<Rightarrow> int" where
  "lane_sq qi block lane d = (sint (qi ! d) - sint (block ! (d * 8 + lane)))\<^sup>2"

definition lane_inv :: "i16 list \<Rightarrow> i16 list \<Rightarrow> nat \<Rightarrow> nat list \<Rightarrow> nat \<Rightarrow> fl list \<Rightarrow> bool" where
  "lane_inv qi block lane ds n accs \<longleftrightarrow>
     (\<exists>r. accs ! lane = Fin r \<and> acc_ok r (of_int (\<Sum>d\<leftarrow>ds. lane_sq qi block lane d)) n)"

lemma asm_dim_eq: "asm_dim q block d = dim_step True q block d"
  by (simp add: fun_eq_iff asm_dim_def dim_step_def fmac_def)

lemma lane_sq_bounds: "0 \<le> lane_sq qi block lane d \<and> lane_sq qi block lane d \<le> 65535\<^sup>2"
  unfolding lane_sq_def using square_le_of_abs_le [OF i16_diff_range] by simp

lemma lane_sum_bounds:
  "0 \<le> (\<Sum>d\<leftarrow>ds. lane_sq qi block lane d) \<and> (\<Sum>d\<leftarrow>ds. lane_sq qi block lane d) \<le> int (length ds) * 65535\<^sup>2"
proof (induction ds)
  case (Cons d ds)
  then show ?case using lane_sq_bounds [of qi block lane d] by (simp add: distrib_right)
qed simp

lemma lane_inv_init: "lane < 8 \<Longrightarrow> lane_inv qi block lane [] n (replicate 8 (Fin 0))"
  by (simp add: lane_inv_def acc_ok_0)

lemma dim_step_inv:
  assumes inv: "lane_inv qi block lane ds (Suc n) accs" and n: "n \<le> 18" "length ds \<le> 14"
    and d: "d < 14" "lane < 8" "length qi = 14"
  shows "lane_inv qi block lane (ds @ [d]) (Suc (Suc n)) (dim_step fused (to_f32 qi) block d accs)"
proof -
  define S where "S = (\<Sum>d\<leftarrow>ds. lane_sq qi block lane d)"
  define z where "z = sint (qi ! d) - sint (block ! (d * 8 + lane))"
  obtain r where r: "accs ! lane = Fin r" "acc_ok r (of_int S) (Suc n)"
    using inv by (auto simp: lane_inv_def S_def)
  have S: "0 \<le> S" "S \<le> 14 * 65535\<^sup>2"
  proof -
    have "int (length ds) * 65535\<^sup>2 \<le> 14 * 65535\<^sup>2" using n(2) by simp
    with lane_sum_bounds [of qi block lane ds] show "0 \<le> S" "S \<le> 14 * 65535\<^sup>2"
      unfolding S_def by linarith+
  qed
  then have "(0::real) \<le> of_int S" "real_of_int S \<le> 2 ^ 59" by auto
  moreover have "\<bar>z\<bar> \<le> 2 ^ 29" using i16_diff_range [of "qi ! d" "block ! (d * 8 + lane)"] by (simp add: z_def)
  ultimately obtain r' where "fmac fused F32 (Fin r) (Fin (of_int z)) (Fin (of_int z)) = Fin r'"
      "acc_ok r' (of_int S + (of_int z)\<^sup>2) (Suc (Suc n))"
    using fmac_square_acc [OF r(2) n(1)] by blast
  moreover have "block_diff (to_f32 qi) block d lane = Fin (of_int z)"
    unfolding z_def by (rule block_diff_eq [OF d(1,3)])
  moreover have "real_of_int (lane_sq qi block lane d) = (of_int z)\<^sup>2"
    by (simp add: lane_sq_def z_def)
  ultimately show ?thesis
    using d(2) r(1) by (auto simp: lane_inv_def dim_step_def Let_def S_def [symmetric])
qed

lemma fold_asm_inv:
  assumes "lane_inv qi block lane ds (Suc n) accs" "n + length es \<le> 18" "length ds + length es \<le> 14"
    "\<forall>d \<in> set es. d < 14" "lane < 8" "length qi = 14"
  shows "lane_inv qi block lane (ds @ es) (Suc (n + length es)) (fold (asm_dim (to_f32 qi) block) es accs)"
  using assms
proof (induction es arbitrary: ds n accs)
  case (Cons e es)
  have "lane_inv qi block lane (ds @ [e]) (Suc (Suc n)) (asm_dim (to_f32 qi) block e accs)"
    unfolding asm_dim_eq using Cons.prems by (intro dim_step_inv) auto
  from Cons.IH [OF this] Cons.prems show ?case by simp
qed simp

lemma asm_merge_inv:
  assumes "lane_inv qi block lane ds n y0" "lane_inv qi block lane es n y4"
    and n: "n \<le> 18" "length ds \<le> 7" "length es \<le> 7" "lane < 8"
  shows "lane_inv qi block lane (ds @ es) (Suc n) (asm_merge y0 y4)"
proof -
  define S T where "S = (\<Sum>d\<leftarrow>ds. lane_sq qi block lane d)" and "T = (\<Sum>d\<leftarrow>es. lane_sq qi block lane d)"
  obtain r t where r: "y0 ! lane = Fin r" "acc_ok r (of_int S) n" and t: "y4 ! lane = Fin t" "acc_ok t (of_int T) n"
    using assms(1,2) by (auto simp: lane_inv_def S_def T_def)
  have len: "int (length ds) * 65535\<^sup>2 \<le> 7 * 65535\<^sup>2" "int (length es) * 65535\<^sup>2 \<le> 7 * 65535\<^sup>2"
    using n by auto
  have ST: "0 \<le> S" "S \<le> 7 * 65535\<^sup>2" "0 \<le> T" "T \<le> 7 * 65535\<^sup>2"
    using len lane_sum_bounds [of qi block lane ds] lane_sum_bounds [of qi block lane es]
    unfolding S_def T_def by linarith+
  then have "r \<le> 2 ^ 60" "t \<le> 2 ^ 60" using r t n acc_ok_le [of r "of_int S" n] acc_ok_le [of t "of_int T" n] by auto
  then have "\<bar>r + t\<bar> \<le> 2 ^ 127" using r(2) t(2) by (auto simp: acc_ok_def)
  then have eq: "asm_merge y0 y4 ! lane = Fin (rnd F32 (r + t))"
    using n(4) r(1) t(1) by (simp add: asm_merge_def fround_Fin_F32)
  have "rnd F32 (r + t) = 0 \<or> 1 \<le> rnd F32 (r + t)"
    using r(2) t(2) by (cases "r + t = 0") (auto simp: acc_ok_def intro!: rnd_ge1)
  moreover have "rnd F32 (r + t) \<le> (r + t) * (1 + ulp F32)"
    using r(2) t(2) by (intro rnd_upper_ge1) (auto simp: acc_ok_def)
  moreover have "(r + t) * (1 + ulp F32) \<le> (of_int S + of_int T) * (1 + ulp F32) ^ n * (1 + ulp F32)"
    using r(2) t(2) one_ulp by (intro mult_right_mono) (auto simp: acc_ok_def distrib_right)
  ultimately show ?thesis
    by (auto simp: lane_inv_def eq acc_ok_def S_def T_def mult.assoc mult.commute)
qed

subsection \<open>The threshold keeps its margin\<close>

definition worst32 :: "int \<Rightarrow> fl" where
  "worst32 w = fadd F32 (fl_of_int F32 w) (fl_of_int F32 kernelSafety)"

lemma WorstF32_eq: "WorstF32 t = worst32 (WorstI64 t)"
  by (simp add: WorstF32_def worst32_def WorstI64_def)

lemma worst32_lower:
  assumes "0 \<le> D" "D < w" "w \<le> 2 ^ 62"
  shows "\<exists>x. worst32 w = Fin x \<and> (of_int D * (1 - ulp F32) + 65536) * (1 - ulp F32) \<le> x"
proof -
  define W where "W = rnd F32 (of_int w)"
  have u: "0 < ulp F32" "ulp F32 \<le> 1" by (simp_all add: ulp_F32)
  have w: "1 \<le> real_of_int w" "real_of_int w \<le> 2 ^ 62" using assms by auto
  have err: "\<bar>W - of_int w\<bar> \<le> ulp F32 * of_int w"
    unfolding W_def using rnd_err_ge1 [of "of_int w" F32] w by simp
  have "of_int D * (1 - ulp F32) \<le> of_int w * (1 - ulp F32)"
    using assms u by (intro mult_right_mono) auto
  with err have lo: "of_int D * (1 - ulp F32) \<le> W" by (simp add: algebra_simps)
  have "ulp F32 * of_int w \<le> 1 * 2 ^ 62" using u w by (intro mult_mono) auto
  with err w have W: "\<bar>W + 65536\<bar> \<le> 2 ^ 127" by (simp add: abs_le_iff)
  have w0: "0 \<le> W" unfolding W_def using w by (intro rnd_nonneg) simp
  have k: "fl_of_int F32 kernelSafety = Fin 65536"
    using fl_of_int_exact [of 65536 F32] by (simp add: kernelSafety_def)
  have "fl_of_int F32 w = Fin W"
    using w unfolding fl_of_int_def W_def by (intro fround_Fin_F32) simp
  then have eq: "worst32 w = Fin (rnd F32 (W + 65536))"
    using W by (simp add: worst32_def k fround_Fin_F32)
  have "\<bar>rnd F32 (W + 65536) - (W + 65536)\<bar> \<le> ulp F32 * \<bar>W + 65536\<bar>"
    using w0 by (intro rnd_err_ge1) simp
  then have "(W + 65536) * (1 - ulp F32) \<le> rnd F32 (W + 65536)"
    using w0 by (simp add: algebra_simps abs_le_iff)
  moreover have "(of_int D * (1 - ulp F32) + 65536) * (1 - ulp F32) \<le> (W + 65536) * (1 - ulp F32)"
    using lo u by (intro mult_right_mono) auto
  ultimately show ?thesis using eq by auto
qed

text \<open>Fifteen roundings on a sum of fourteen int16 squares stay within the margin.\<close>

lemma margin:
  assumes "0 \<le> D" "D \<le> 14 * 65535\<^sup>2" "acc_ok r (of_int S) n" "0 \<le> S" "S \<le> D" "n \<le> 15"
    and "D < w" "w \<le> 2 ^ 62"
  shows "\<exists>x. worst32 w = Fin x \<and> r < x"
proof -
  obtain x where x: "worst32 w = Fin x"
    "(of_int D * (1 - ulp F32) + 65536) * (1 - ulp F32) \<le> x"
    using worst32_lower [OF assms(1,7,8)] by blast
  have D: "0 \<le> real_of_int D" "real_of_int D \<le> 14 * 65535\<^sup>2"
  proof -
    show "0 \<le> real_of_int D" using assms(1) by simp
    have "real_of_int D \<le> real_of_int (14 * 65535\<^sup>2)" using assms(2) by (simp only: of_int_le_iff)
    then show "real_of_int D \<le> 14 * 65535\<^sup>2" by simp
  qed
  have "acc_ok r (of_int D) 15" using assms by (intro acc_ok_mono [OF assms(3)]) auto
  then have r: "r \<le> of_int D * (1 + ulp F32) ^ 15" by (simp add: acc_ok_def)
  have c: "0 \<le> (1 + ulp F32) ^ 15 - (1 - ulp F32)\<^sup>2" "14 * 65535\<^sup>2 * ((1 + ulp F32) ^ 15 - (1 - ulp F32)\<^sup>2) < 65536 * (1 - ulp F32)"
    by (simp_all add: ulp_F32 power_divide)
  have "of_int D * ((1 + ulp F32) ^ 15 - (1 - ulp F32)\<^sup>2) \<le> 14 * 65535\<^sup>2 * ((1 + ulp F32) ^ 15 - (1 - ulp F32)\<^sup>2)"
    using D(2) c(1) by (rule mult_right_mono)
  with c(2) have "of_int D * (1 + ulp F32) ^ 15 < of_int D * (1 - ulp F32)\<^sup>2 + 65536 * (1 - ulp F32)"
    by (simp add: right_diff_distrib)
  then have "of_int D * (1 + ulp F32) ^ 15 < (of_int D * (1 - ulp F32) + 65536) * (1 - ulp F32)"
    by (simp add: power2_eq_square distrib_right)
  with r x show ?thesis by fastforce
qed

subsection \<open>The contract\<close>

lemma sq_dist_lane: "sq_dist qi (lane_vec block lane) = (\<Sum>d<14. lane_sq qi block lane d)"
  by (simp add: sq_dist_def lane_sq_def)

lemma lane_inv_dead:
  \<comment> \<open>a lane whose accumulator has reached the threshold cannot enter the top five\<close>
  assumes inv: "lane_inv qi block lane ds n accs" and n: "n \<le> 15"
    and ds: "distinct ds" "set ds \<subseteq> {..<14}" and w: "w \<le> 2 ^ 62"
    and dead: "\<not> flt (accs ! lane) (worst32 w)"
  shows "w \<le> sq_dist qi (lane_vec block lane)"
proof (rule ccontr)
  define D where "D = sq_dist qi (lane_vec block lane)"
  define S where "S = (\<Sum>d\<leftarrow>ds. lane_sq qi block lane d)"
  assume "\<not> w \<le> sq_dist qi (lane_vec block lane)"
  then have lt: "D < w" by (simp add: D_def)
  obtain r where r: "accs ! lane = Fin r" "acc_ok r (of_int S) n"
    using inv by (auto simp: lane_inv_def S_def)
  have "S = (\<Sum>d\<in>set ds. lane_sq qi block lane d)"
    unfolding S_def by (rule sum_list_distinct_conv_sum_set [OF ds(1)])
  also have "\<dots> \<le> D"
    unfolding D_def sq_dist_lane using ds(2) lane_sq_bounds by (intro sum_mono2) auto
  finally have "S \<le> D" .
  moreover have "0 \<le> S" unfolding S_def using lane_sum_bounds by blast
  ultimately obtain x where "worst32 w = Fin x" "r < x"
    using margin [OF sq_dist_nonneg sq_dist_le r(2) _ _ n, of qi "lane_vec block lane" w] lt w
    unfolding D_def by blast
  with dead r(1) show False by simp
qed

lemma fle_not_flt: "fle a b \<Longrightarrow> \<not> flt b a"
  by (cases a; cases b) auto

locale scan_kernel =
  fixes kern :: "fl list \<Rightarrow> i16 list \<Rightarrow> fl \<Rightarrow> bool \<times> fl list"
  assumes dead_block: "length qi = 14 \<Longrightarrow> w \<le> 2 ^ 62 \<Longrightarrow> lane < 8 \<Longrightarrow>
      kern (to_f32 qi) block (worst32 w) = (False, accs) \<Longrightarrow> w \<le> sq_dist qi (lane_vec block lane)"
    and dead_lane: "length qi = 14 \<Longrightarrow> w \<le> 2 ^ 62 \<Longrightarrow> lane < 8 \<Longrightarrow>
      kern (to_f32 qi) block (worst32 w) = (True, accs) \<Longrightarrow> fle (worst32 w) (accs ! lane) \<Longrightarrow>
      w \<le> sq_dist qi (lane_vec block lane)"

lemma not_any_alive: "\<not> any_alive worst accs \<Longrightarrow> lane < 8 \<Longrightarrow> \<not> flt (accs ! lane) worst"
  by (auto simp: any_alive_def list_ex_iff)

lemma scan_dims_result:
  assumes "length qi = 14" "d \<le> 14" "\<forall>lane<8. lane_inv qi block lane [0..<d] (Suc d) accs"
    and "scan_dims fused (to_f32 qi) block worst d c accs = (alive, accs')"
  shows "\<exists>m\<le>14. (\<forall>lane<8. lane_inv qi block lane [0..<m] (Suc m) accs') \<and> (alive = any_alive worst accs')"
  using assms
proof (induction fused "to_f32 qi" block worst d c accs rule: scan_dims.induct)
  case (1 fused block worst d c accs)
  show ?case
  proof (cases "d < 14")
    case False
    then have "d = 14" using "1.prems" by simp
    then show ?thesis using "1.prems" by (auto simp: scan_dims.simps [of _ _ _ _ 14])
  next
    case True
    define acc1 where "acc1 = dim_step fused (to_f32 qi) block d accs"
    have inv: "\<forall>lane<8. lane_inv qi block lane [0..<Suc d] (Suc (Suc d)) acc1"
      using "1.prems" True dim_step_inv [of qi block _ "[0..<d]" d accs d fused]
      by (auto simp: acc1_def)
    show ?thesis
    proof (cases "c < length checkpoints \<and> d + 1 = checkpoints ! c \<and> \<not> any_alive worst acc1")
      case dead: True
      then have "alive = False" "accs' = acc1"
        using "1.prems"(4) True by (auto simp: scan_dims.simps [of _ _ _ _ d] acc1_def Let_def)
      moreover have "any_alive worst acc1 = False" using dead by simp
      ultimately show ?thesis
        using inv True by (intro exI [of _ "Suc d"]) (simp del: upt_Suc)
    next
      case go: False
      define c' where "c' = (if c < length checkpoints \<and> d + 1 = checkpoints ! c then c + 1 else c)"
      have eq: "scan_dims fused (to_f32 qi) block worst (d + 1) c' acc1 = (alive, accs')"
        using "1.prems"(4) True go
        by (auto simp: scan_dims.simps [of _ _ _ _ d] acc1_def Let_def c'_def split: if_splits)
      show ?thesis
      proof (cases "c < length checkpoints \<and> d + 1 = checkpoints ! c")
        case c: True
        then have "any_alive worst acc1" using go by blast
        from "1.hyps"(1) [OF True acc1_def c this "1.prems"(1)] eq inv True c show ?thesis
          by (simp add: c'_def)
      next
        case c: False
        then have "c' = c" unfolding c'_def by (rule if_not_P)
        with "1.hyps"(2) [OF True acc1_def c "1.prems"(1)] eq inv True show ?thesis
          by simp
      qed
    qed
  qed
qed

lemma generic_kernel: "scan_kernel (ScanBlock8Generic fused)"
proof
  fix qi block :: "i16 list" and w :: int and lane accs
  assume len: "length qi = 14" and w: "w \<le> 2 ^ 62" and lane: "lane < (8::nat)"
  have init: "\<forall>lane<8. lane_inv qi block lane [0..<0] (Suc 0) (replicate 8 (Fin 0))"
    by (simp add: lane_inv_init)
  { fix alive assume "ScanBlock8Generic fused (to_f32 qi) block (worst32 w) = (alive, accs)"
    then obtain m where "m \<le> 14" "lane_inv qi block lane [0..<m] (Suc m) accs" "alive = any_alive (worst32 w) accs"
      using scan_dims_result [OF len _ init] lane unfolding ScanBlock8Generic_def by blast
    moreover from this have "set [0..<m] \<subseteq> {..<14}" by auto
    ultimately have "\<not> flt (accs ! lane) (worst32 w) \<Longrightarrow> w \<le> sq_dist qi (lane_vec block lane)"
      and "alive = any_alive (worst32 w) accs"
      using lane_inv_dead [of qi block lane "[0..<m]" "Suc m" accs w] w by auto }
  note res = this
  show "ScanBlock8Generic fused (to_f32 qi) block (worst32 w) = (False, accs) \<Longrightarrow>
      w \<le> sq_dist qi (lane_vec block lane)"
    using res [of False] not_any_alive [OF _ lane] by blast
  show "ScanBlock8Generic fused (to_f32 qi) block (worst32 w) = (True, accs) \<Longrightarrow>
      fle (worst32 w) (accs ! lane) \<Longrightarrow> w \<le> sq_dist qi (lane_vec block lane)"
    using res [of True] fle_not_flt by blast
qed

lemma asm_kernel: "scan_kernel ScanBlock8_asm"
proof
  fix qi block :: "i16 list" and w :: int and lane accs
  assume len: "length qi = 14" and w: "w \<le> 2 ^ 62" and lane: "lane < (8::nat)"
  define q where "q = to_f32 qi"
  define y0 y4 where "y0 = fold (asm_dim q block) [0, 2, 4, 6] (replicate 8 (Fin 0))"
    and "y4 = fold (asm_dim q block) [1, 3, 5, 7] (replicate 8 (Fin 0))"
  define z0 z4 where "z0 = fold (asm_dim q block) [8, 10, 12] y0" and "z4 = fold (asm_dim q block) [9, 11, 13] y4"
  have y: "lane_inv qi block lane [0, 2, 4, 6] 5 y0" "lane_inv qi block lane [1, 3, 5, 7] 5 y4"
    using fold_asm_inv [OF lane_inv_init [OF lane], of 0 "[0, 2, 4, 6]" qi block] 
      fold_asm_inv [OF lane_inv_init [OF lane], of 0 "[1, 3, 5, 7]" qi block] lane len
    by (simp_all add: y0_def y4_def q_def eval_nat_numeral)
  have z: "lane_inv qi block lane [0, 2, 4, 6, 8, 10, 12] 8 z0" "lane_inv qi block lane [1, 3, 5, 7, 9, 11, 13] 8 z4"
    using fold_asm_inv [of qi block lane "[0, 2, 4, 6]" 4 y0 "[8, 10, 12]"]
      fold_asm_inv [of qi block lane "[1, 3, 5, 7]" 4 y4 "[9, 11, 13]"] y lane len
    by (simp_all add: z0_def z4_def q_def eval_nat_numeral)
  have m8: "lane_inv qi block lane ([0, 2, 4, 6] @ [1, 3, 5, 7]) 6 (asm_merge y0 y4)"
    using asm_merge_inv [OF y] lane by simp
  have m14: "lane_inv qi block lane ([0, 2, 4, 6, 8, 10, 12] @ [1, 3, 5, 7, 9, 11, 13]) 9 (asm_merge z0 z4)"
    using asm_merge_inv [OF z] lane by simp
  have d8: "\<not> flt (asm_merge y0 y4 ! lane) (worst32 w) \<Longrightarrow> w \<le> sq_dist qi (lane_vec block lane)"
    by (rule lane_inv_dead [OF m8 _ _ _ w]) auto
  have d14: "\<not> flt (asm_merge z0 z4 ! lane) (worst32 w) \<Longrightarrow> w \<le> sq_dist qi (lane_vec block lane)"
    by (rule lane_inv_dead [OF m14 _ _ _ w]) auto
  have eq: "ScanBlock8_asm q block (worst32 w) =
      (if \<not> any_alive (worst32 w) (asm_merge y0 y4) then (False, asm_merge y0 y4)
       else if \<not> any_alive (worst32 w) (asm_merge z0 z4) then (False, asm_merge (asm_merge z0 z4) z4)
       else (True, asm_merge z0 z4))"
    unfolding ScanBlock8_asm_def Let_def y0_def y4_def z0_def z4_def by simp
  show "ScanBlock8_asm (to_f32 qi) block (worst32 w) = (False, accs) \<Longrightarrow>
      w \<le> sq_dist qi (lane_vec block lane)"
    using eq d8 d14 not_any_alive [OF _ lane] by (auto simp: q_def split: if_splits)
  show "ScanBlock8_asm (to_f32 qi) block (worst32 w) = (True, accs) \<Longrightarrow>
      fle (worst32 w) (accs ! lane) \<Longrightarrow> w \<le> sq_dist qi (lane_vec block lane)"
    using eq d14 fle_not_flt by (auto simp: q_def split: if_splits)
qed

lemma ScanBlock8AVX2_kernel: "scan_kernel (ScanBlock8AVX2 tgt)"
proof (cases "amd64 tgt")
  case True
  then have "ScanBlock8AVX2 tgt = ScanBlock8_asm"
    by (simp add: fun_eq_iff ScanBlock8AVX2_def)
  then show ?thesis by (simp add: asm_kernel)
next
  case False
  then have "ScanBlock8AVX2 tgt = ScanBlock8Generic (fuses tgt)"
    by (simp add: fun_eq_iff ScanBlock8AVX2_def)
  then show ?thesis by (simp add: generic_kernel)
qed

interpretation build_kernel: scan_kernel "ScanBlock8AVX2 tgt" for tgt
  by (rule ScanBlock8AVX2_kernel)

subsection \<open>Re-ranking the lanes of one block\<close>

text \<open>The inner loop both searches run on a block the kernel reported alive: lanes below the
  threshold taken before the block get their exact distance and are offered to the top five.\<close>

definition rerank_lanes ::
  "('t \<Rightarrow> int \<Rightarrow> u8 \<Rightarrow> 't) \<Rightarrow> i16 list \<Rightarrow> i16 list \<Rightarrow> u8 list \<Rightarrow> nat \<Rightarrow> fl \<Rightarrow> fl list \<Rightarrow> 't \<Rightarrow> 't option" where
  \<comment> \<open>the lane loop: only the lanes below the threshold look up their label\<close>
  "rerank_lanes ins qi block labels labelBase worst accs t =
     ofold (\<lambda>lane t. if fle worst (accs ! lane) then Some t
                     else do { l \<leftarrow> get labels (labelBase + lane); Some (ins t (exactI64Dist qi block lane) l) }) [0..<8] t"

definition rerank ::
  "('t \<Rightarrow> int \<Rightarrow> u8 \<Rightarrow> 't) \<Rightarrow> i16 list \<Rightarrow> i16 list \<Rightarrow> u8 list \<Rightarrow> fl \<Rightarrow> fl list \<Rightarrow> 't \<Rightarrow> 't" where
  \<comment> \<open>the same with the eight labels at hand\<close>
  "rerank ins qi block labels worst accs t =
     fold (\<lambda>lane t. if fle worst (accs ! lane) then t
                     else ins t (exactI64Dist qi block lane) (labels ! lane)) [0..<8] t"

lemma rerank_lanes_eq:
  assumes "labelBase + 8 \<le> length labels"
  shows "rerank_lanes ins qi block labels labelBase worst accs t = Some (rerank ins qi block (take 8 (drop labelBase labels)) worst accs t)"
proof -
  have "ofold (\<lambda>lane t. if fle worst (accs ! lane) then Some t
        else do { l \<leftarrow> get labels (labelBase + lane); Some (ins t (exactI64Dist qi block lane) l) }) ls t =
      Some (fold (\<lambda>lane t. if fle worst (accs ! lane) then t
        else ins t (exactI64Dist qi block lane) (take 8 (drop labelBase labels) ! lane)) ls t)"
    if "\<forall>lane \<in> set ls. lane < 8" for ls t
    using that assms by (induction ls arbitrary: t) (simp_all add: get_Some)
  then show ?thesis unfolding rerank_lanes_def rerank_def by simp
qed

definition block_cands :: "i16 list \<Rightarrow> i16 list \<Rightarrow> u8 list \<Rightarrow> (int \<times> u8) list" where
  "block_cands qi block labels = map (\<lambda>lane. (sq_dist qi (lane_vec block lane), labels ! lane)) [0..<8]"

locale block_search = scan_kernel kern + top_store ins worst contents inv
  for kern and ins :: "'t \<Rightarrow> int \<Rightarrow> u8 \<Rightarrow> 't" and worst contents inv
begin

lemma rerank_all:
  assumes inv: "inv t0" and len: "length qi = 14" and w: "worst t0 \<le> 2 ^ 62"
    and k: "kern (to_f32 qi) block (worst32 (worst t0)) = (True, accs)"
  shows "rerank ins qi block labels (worst32 (worst t0)) accs t0 = insert_all (block_cands qi block labels) t0"
proof -
  define f where "f lane t = (if fle (worst32 (worst t0)) (accs ! lane) then t
      else ins t (exactI64Dist qi block lane) (labels ! lane))" for lane t
  define cs where "cs = map (\<lambda>lane. (sq_dist qi (lane_vec block lane), labels ! lane))"
  have "inv t \<Longrightarrow> worst t \<le> worst t0 \<Longrightarrow> \<forall>lane \<in> set ls. lane < 8 \<Longrightarrow>
      fold f ls t = insert_all (cs ls) t" for ls t
  proof (induction ls arbitrary: t)
    case (Cons l ls)
    let ?d = "sq_dist qi (lane_vec block l)"
    have step: "f l t = ins t ?d (labels ! l)"
    proof (cases "fle (worst32 (worst t0)) (accs ! l)")
      case True
      then have "worst t0 \<le> ?d" using dead_lane [OF len w _ k] Cons.prems(3) by simp
      with True Cons.prems show ?thesis by (simp add: f_def ins_worse)
    qed (simp add: f_def exactI64Dist_eq)
    have "worst (ins t ?d (labels ! l)) \<le> worst t0"
      using worst_ins_le [OF Cons.prems(1)] Cons.prems(2) by (rule order_trans)
    with Cons inv_ins show ?case by (simp add: step cs_def)
  qed (simp add: cs_def)
  from this [OF inv order_refl, of "[0..<8]"] show ?thesis
    unfolding rerank_def block_cands_def f_def cs_def by simp
qed

text \<open>A block step inserts all eight lanes, whatever the kernel pruned.\<close>

theorem block_step_eq:
  assumes inv: "inv t" and len: "length qi = 14" and w: "worst t \<le> 2 ^ 62"
  shows "(case kern (to_f32 qi) block (worst32 (worst t)) of (alive, accs) \<Rightarrow>
      if alive then rerank ins qi block labels (worst32 (worst t)) accs t else t)
    = insert_all (block_cands qi block labels) t"
proof (cases "kern (to_f32 qi) block (worst32 (worst t))")
  case (Pair alive accs)
  show ?thesis
  proof (cases alive)
    case True
    then show ?thesis using Pair rerank_all [OF inv len w] by simp
  next
    case False
    then have "\<forall>lane<8. worst t \<le> sq_dist qi (lane_vec block lane)"
      using dead_block [OF len w, of _ block accs] Pair by simp
    then have "insert_all (block_cands qi block labels) t = t"
      using inv by (intro insert_all_skip) (auto simp: block_cands_def)
    then show ?thesis using Pair False by simp
  qed
qed

end

interpretation ivf_blocks: block_search "ScanBlock8AVX2 tgt" InsertI64 WorstI64 ents top_inv for tgt
  by unfold_locales

interpretation specialist_blocks: block_search "ScanBlock8AVX2 tgt" sp_InsertI64 WorstI64 ents top_inv for tgt
  by unfold_locales

end
