(* ===== verification/DistError.thy ===== *)
theory DistError
  imports Kernel
begin

text \<open>
  Rounding analysis of the single-precision Euclidean distances of
  \<open>ScoreAllCentroids\<close> and \<open>ComputeRadii\<close>: how far the computed values are from
  the distances of the real vectors, and the triangle inequality they are used in.
  \<open>near_sum\<close> is the invariant of the accumulation loops, \<open>sqacc\<close> their common
  shape.  The last lemma, \<open>triangle_prune\<close>, is the arithmetic of the first filter of
  \<open>scanCluster\<close>.
\<close>

subsection \<open>The triangle inequality in fourteen dimensions\<close>

definition ssd :: "(nat \<Rightarrow> real) \<Rightarrow> (nat \<Rightarrow> real) \<Rightarrow> real" where
  "ssd a b = (\<Sum>d<14. (a d - b d)\<^sup>2)"

lemma ssd_nonneg: "0 \<le> ssd a b"
  by (simp add: ssd_def sum_nonneg)

lemma cauchy_schwarz: "(\<Sum>d\<in>I. a d * b d)\<^sup>2 \<le> (\<Sum>d\<in>I. (a d)\<^sup>2) * (\<Sum>d\<in>I. (b d)\<^sup>2)"
  if "finite I" for a b :: "nat \<Rightarrow> real"
proof -
  define A B C where "A = (\<Sum>d\<in>I. (a d)\<^sup>2)" and "B = (\<Sum>d\<in>I. (b d)\<^sup>2)" and "C = (\<Sum>d\<in>I. a d * b d)"
  have "0 \<le> (\<Sum>d\<in>I. (A * b d - C * a d)\<^sup>2)" by (simp add: sum_nonneg)
  also have "\<dots> = (\<Sum>d\<in>I. A\<^sup>2 * (b d)\<^sup>2 - 2 * A * C * (a d * b d) + C\<^sup>2 * (a d)\<^sup>2)"
    by (rule sum.cong) (auto simp: power2_eq_square algebra_simps)
  also have "\<dots> = A\<^sup>2 * B - 2 * A * C * C + C\<^sup>2 * A"
    by (simp add: sum.distrib sum_subtractf A_def B_def C_def flip: sum_distrib_left)
  also have "\<dots> = A * (A * B - C\<^sup>2)" by (simp add: power2_eq_square algebra_simps)
  finally have AB: "0 \<le> A * (A * B - C\<^sup>2)" .
  show ?thesis
  proof (cases "A = 0")
    case True
    then have "\<forall>d\<in>I. (a d)\<^sup>2 = 0" unfolding A_def using that by (subst (asm) sum_nonneg_eq_0_iff) auto
    then show ?thesis by simp
  next
    case False
    then have "0 < A" unfolding A_def by (simp add: order_less_le sum_nonneg)
    with AB have "0 \<le> A * B - C\<^sup>2" by (simp add: zero_le_mult_iff)
    then show ?thesis by (simp add: A_def B_def C_def)
  qed
qed

lemma ssd_triangle: "sqrt (ssd a c) \<le> sqrt (ssd a b) + sqrt (ssd b c)"
proof (rule power2_le_imp_le)
  define S T C where "S = ssd a b" and "T = ssd b c" and "C = (\<Sum>d<14. (a d - b d) * (b d - c d))"
  have eq: "ssd a c = S + 2 * C + T"
  proof -
    have "ssd a c = (\<Sum>d<14. (a d - b d)\<^sup>2 + 2 * ((a d - b d) * (b d - c d)) + (b d - c d)\<^sup>2)"
      unfolding ssd_def by (rule sum.cong) (auto simp: power2_eq_square algebra_simps)
    then show ?thesis by (simp add: sum.distrib S_def T_def C_def ssd_def flip: sum_distrib_left)
  qed
  have "C\<^sup>2 \<le> S * T" unfolding S_def T_def C_def ssd_def by (rule cauchy_schwarz) simp
  then have "\<bar>C\<bar> \<le> sqrt (S * T)" by (metis real_sqrt_abs real_sqrt_le_iff)
  then have "ssd a c \<le> (sqrt S + sqrt T)\<^sup>2"
    using ssd_nonneg [of a b] ssd_nonneg [of b c] unfolding eq
    by (simp add: power2_eq_square algebra_simps real_sqrt_mult S_def T_def)
  then show "(sqrt (ssd a c))\<^sup>2 \<le> (sqrt (ssd a b) + sqrt (ssd b c))\<^sup>2"
    using ssd_nonneg by (simp add: S_def T_def)
  show "0 \<le> sqrt (ssd a b) + sqrt (ssd b c)" using ssd_nonneg by simp
qed

subsection \<open>One accumulation step\<close>

abbreviation "eps \<equiv> ulp F32"

lemma eps_bounds: "0 < eps" "eps \<le> 1 / 16" by (simp_all add: ulp_F32)

lemma rnd32: "x - (eps * \<bar>x\<bar> + tiny F32) \<le> rnd F32 x" "rnd F32 x \<le> x + (eps * \<bar>x\<bar> + tiny F32)"
  using rnd_err [of F32 x] by (auto simp: abs_le_iff)

lemma tiny32: "tiny F32 = 1 / 2 ^ 150"
  by (simp add: tiny_def power_int_def field_simps)

lemma fmac_near:
  assumes s: "0 \<le> s" "s \<le> 2 ^ 60" and z: "z\<^sup>2 \<le> 2 ^ 60"
  shows "\<exists>s'. fmac fused F32 (Fin s) (Fin z) (Fin z) = Fin s' \<and> 0 \<le> s' \<and>
    (s + z\<^sup>2 * (1 - eps)) * (1 - eps) - 2 * tiny F32 \<le> s' \<and>
    s' \<le> (s + z\<^sup>2 * (1 + eps)) * (1 + eps) + 3 * tiny F32"
proof (cases fused)
  case True
  have z0: "0 \<le> z\<^sup>2" by simp
  have "fmac fused F32 (Fin s) (Fin z) (Fin z) = Fin (rnd F32 (z\<^sup>2 + s))"
    using True s z by (simp add: fmac_def power2_eq_square fround_Fin_F32)
  moreover have "0 \<le> rnd F32 (z\<^sup>2 + s)" using s by (intro rnd_nonneg) auto
  moreover have "(z\<^sup>2 + s) - (eps * (z\<^sup>2 + s) + tiny F32) \<le> rnd F32 (z\<^sup>2 + s)"
    "rnd F32 (z\<^sup>2 + s) \<le> (z\<^sup>2 + s) + (eps * (z\<^sup>2 + s) + tiny F32)"
    using rnd32 [of "z\<^sup>2 + s"] s z0 by auto
  moreover have "(s + z\<^sup>2 * (1 - eps)) * (1 - eps) \<le> (s + z\<^sup>2) * (1 - eps)"
    "(s + z\<^sup>2) * (1 + eps) \<le> (s + z\<^sup>2 * (1 + eps)) * (1 + eps)"
    using eps_bounds z0 by (intro mult_right_mono; simp add: mult_left_le mult_le_cancel_left1)+
  ultimately show ?thesis
    using tiny_pos [of F32] by (auto simp: algebra_simps)
next
  case False
  define p where "p = rnd F32 (z\<^sup>2)"
  have z0: "0 \<le> z\<^sup>2" by simp
  have p: "0 \<le> p" "z\<^sup>2 * (1 - eps) - tiny F32 \<le> p" "p \<le> z\<^sup>2 * (1 + eps) + tiny F32"
    using rnd32 [of "z\<^sup>2"] rnd_nonneg [OF z0, of F32] by (auto simp: p_def algebra_simps)
  have "z\<^sup>2 * (1 + eps) \<le> 2 ^ 60 * 2" using z eps_bounds by (intro mult_mono) auto
  then have pb: "p \<le> 2 ^ 62" using p(3) by (simp add: tiny32)
  have "fmac fused F32 (Fin s) (Fin z) (Fin z) = Fin (rnd F32 (s + p))"
    using False s z p pb by (simp add: fmac_def power2_eq_square fround_Fin_F32 p_def)
  moreover have "0 \<le> rnd F32 (s + p)" using s p by (intro rnd_nonneg) auto
  moreover have "(s + p) - (eps * (s + p) + tiny F32) \<le> rnd F32 (s + p)"
    "rnd F32 (s + p) \<le> (s + p) + (eps * (s + p) + tiny F32)"
    using rnd32 [of "s + p"] s p by auto
  moreover have "(s + z\<^sup>2 * (1 - eps) - tiny F32) * (1 - eps) \<le> (s + p) * (1 - eps)"
    "(s + p) * (1 + eps) \<le> (s + z\<^sup>2 * (1 + eps) + tiny F32) * (1 + eps)"
    using eps_bounds p by (intro mult_right_mono; simp)+
  moreover have "tiny F32 * (1 - eps) \<le> tiny F32" "tiny F32 * (1 + eps) \<le> 2 * tiny F32"
    using eps_bounds tiny_pos [of F32] by (auto simp: algebra_simps)
  ultimately show ?thesis
    by (auto simp: algebra_simps)
qed

subsection \<open>Accumulating the squares of rounded differences\<close>

definition sqacc :: "bool \<Rightarrow> fl list \<Rightarrow> fl \<Rightarrow> fl" where
  "sqacc fused zs s = fold (\<lambda>z s. fmac fused F32 s z z) zs s"

definition fdiffs :: "(nat \<Rightarrow> real) \<Rightarrow> (nat \<Rightarrow> real) \<Rightarrow> nat list \<Rightarrow> fl list" where
  "fdiffs a b ds = map (\<lambda>d. fsub F32 (Fin (a d)) (Fin (b d))) ds"

lemma diff_sq_near:
  assumes "\<bar>\<delta>\<bar> \<le> 2 ^ 20"
  shows "(rnd F32 \<delta>)\<^sup>2 \<le> \<delta>\<^sup>2 * (1 + eps)\<^sup>2 + 1 / 2 ^ 120 \<and>
    \<delta>\<^sup>2 * (1 - eps)\<^sup>2 - 1 / 2 ^ 120 \<le> (rnd F32 \<delta>)\<^sup>2 \<and> (rnd F32 \<delta>)\<^sup>2 \<le> 2 ^ 44"
proof -
  define t where "t = \<bar>rnd F32 \<delta>\<bar>"
  define y where "y = \<bar>\<delta>\<bar>"
  have y: "0 \<le> y" "y \<le> 2 ^ 20" using assms by (simp_all add: y_def)
  have t: "0 \<le> t" "t \<le> y * (1 + eps) + tiny F32" "y * (1 - eps) - tiny F32 \<le> t"
    using rnd_err [of F32 \<delta>] by (auto simp: t_def y_def algebra_simps abs_le_iff)
  have "t\<^sup>2 \<le> (y * (1 + eps) + tiny F32)\<^sup>2" using t by (intro power_mono) auto
  also have "\<dots> = y\<^sup>2 * (1 + eps)\<^sup>2 + (2 * y * (1 + eps) + tiny F32) * tiny F32"
    by (simp add: power2_eq_square algebra_simps)
  also have "(2 * y * (1 + eps) + tiny F32) * tiny F32 \<le> (2 * 2 ^ 20 * 2 + 1) * tiny F32"
    using y eps_bounds by (intro mult_right_mono add_mono mult_mono) (auto simp: tiny32)
  also have "\<dots> \<le> 1 / 2 ^ 120" by (simp add: tiny32)
  finally have 1: "t\<^sup>2 \<le> y\<^sup>2 * (1 + eps)\<^sup>2 + 1 / 2 ^ 120" by simp
  have "(y * (1 - eps))\<^sup>2 \<le> (t + tiny F32)\<^sup>2" using t y eps_bounds by (intro power_mono) auto
  also have "\<dots> = t\<^sup>2 + (2 * t + tiny F32) * tiny F32" by (simp add: power2_eq_square algebra_simps)
  also have "\<dots> \<le> t\<^sup>2 + (2 * 2 ^ 22 + 1) * tiny F32"
  proof -
    have "y * (1 + eps) \<le> 2 ^ 20 * 2" using y eps_bounds by (intro mult_mono) auto
    then have "t \<le> 2 ^ 22" using t(2) by (simp add: tiny32)
    then show ?thesis using tiny_pos [of F32] by (intro add_left_mono mult_right_mono) (auto simp: tiny32)
  qed
  also have "\<dots> \<le> t\<^sup>2 + 1 / 2 ^ 120" by (simp add: tiny32)
  finally have 2: "y\<^sup>2 * (1 - eps)\<^sup>2 - 1 / 2 ^ 120 \<le> t\<^sup>2" by (simp add: power_mult_distrib)
  have "y\<^sup>2 * (1 + eps)\<^sup>2 \<le> (2 ^ 20)\<^sup>2 * 2\<^sup>2"
    using y eps_bounds by (intro mult_mono power_mono) auto
  with 1 have "t\<^sup>2 \<le> 2 ^ 44" by simp
  with 1 2 show ?thesis by (simp add: t_def y_def)
qed

definition near_sum :: "real \<Rightarrow> real \<Rightarrow> nat \<Rightarrow> bool" where
  "near_sum s S n \<longleftrightarrow> 0 \<le> s \<and> s \<le> (S + real n / 2 ^ 110) * (1 + eps) ^ (n + 3) \<and>
     S * (1 - eps) ^ (n + 3) - real n / 2 ^ 110 \<le> s"

lemma near_step:
  assumes s: "near_sum s S n" and S: "0 \<le> S" and r: "r = rnd F32 \<delta>" and \<delta>: "\<bar>\<delta>\<bar> \<le> 2 ^ 20"
    and s': "0 \<le> s'" "(s + r\<^sup>2 * (1 - eps)) * (1 - eps) - 2 * tiny F32 \<le> s'"
      "s' \<le> (s + r\<^sup>2 * (1 + eps)) * (1 + eps) + 3 * tiny F32"
  shows "near_sum s' (S + \<delta>\<^sup>2) (Suc n)"
proof -
  define e where "e = 1 / (2::real) ^ 110"
  have dz: "0 \<le> \<delta>\<^sup>2" by simp
  note d = diff_sq_near [OF \<delta>, folded r]
  have u: "1 \<le> 1 + eps" "0 \<le> 1 - eps" "1 - eps \<le> 1" using eps_bounds by auto
  have "s' \<le> (s + (\<delta>\<^sup>2 * (1 + eps)\<^sup>2 + 1 / 2 ^ 120) * (1 + eps)) * (1 + eps) + 3 * tiny F32"
    using s'(3) d u by (smt (verit, best) mult_right_mono)
  also have "\<dots> = s * (1 + eps) + \<delta>\<^sup>2 * (1 + eps) ^ 4 + 1 / 2 ^ 120 * (1 + eps)\<^sup>2 + 3 * tiny F32"
    by (simp add: algebra_simps power_def)
  also have "\<dots> \<le> s * (1 + eps) + \<delta>\<^sup>2 * (1 + eps) ^ 4 + e"
    using u by (simp add: e_def tiny32 ulp_F32 power2_eq_square)
  also have "\<dots> \<le> s * (1 + eps) + \<delta>\<^sup>2 * (1 + eps) ^ (n + 4) + e * (1 + eps) ^ (n + 4)"
  proof -
    have "(1 + eps) ^ 4 \<le> (1 + eps) ^ (n + 4)" "1 \<le> (1 + eps) ^ (n + 4)"
      using u by (auto intro: power_increasing one_le_power)
    then show ?thesis using dz s by (intro add_mono mult_left_mono) (auto simp: e_def near_sum_def)
  qed
  also have "s * (1 + eps) \<le> ((S + n * e) * (1 + eps) ^ (n + 3)) * (1 + eps)"
    using s u by (intro mult_right_mono) (auto simp: near_sum_def e_def)
  also have "((S + n * e) * (1 + eps) ^ (n + 3)) * (1 + eps) = (S + n * e) * (1 + eps) ^ (n + 4)"
  proof -
    have "(x * q ^ (n + 3)) * q = x * q ^ (n + 4)" for x q :: real by (simp add: eval_nat_numeral)
    then show ?thesis .
  qed
  finally have le: "s' \<le> (S + n * e) * (1 + eps) ^ (n + 4) + \<delta>\<^sup>2 * (1 + eps) ^ (n + 4) + e * (1 + eps) ^ (n + 4)"
    by simp
  have "(S + n * e) * q + \<delta>\<^sup>2 * q + e * q = ((S + \<delta>\<^sup>2) + (Suc n) * e) * q" for q
    by (simp add: algebra_simps)
  with le have 1: "s' \<le> ((S + \<delta>\<^sup>2) + (Suc n) * e) * (1 + eps) ^ (Suc n + 3)"
    by (simp add: add.commute [of 4])
  have "(S + \<delta>\<^sup>2) * (1 - eps) ^ (n + 4) \<le> S * (1 - eps) ^ (n + 4) + \<delta>\<^sup>2 * (1 - eps) ^ 4"
    using u dz by (simp add: distrib_right mult_left_mono power_decreasing)
  also have "S * (1 - eps) ^ (n + 4) \<le> (s + n * e) * (1 - eps)"
  proof -
    have "S * (1 - eps) ^ (n + 3) \<le> s + n * e" using s by (simp add: near_sum_def e_def)
    moreover have "(1 - eps) ^ (n + 4) = (1 - eps) ^ (n + 3) * (1 - eps)" by (simp add: eval_nat_numeral)
    ultimately show ?thesis using mult_right_mono [OF _ u(2)] by (metis mult.assoc)
  qed
  also have "(s + n * e) * (1 - eps) \<le> s * (1 - eps) + n * e"
    using u eps_bounds by (simp add: algebra_simps e_def)
  finally have "(S + \<delta>\<^sup>2) * (1 - eps) ^ (n + 4) - n * e \<le> s * (1 - eps) + \<delta>\<^sup>2 * (1 - eps) ^ 4"
    by simp
  also have "\<dots> = (s + (\<delta>\<^sup>2 * (1 - eps)\<^sup>2) * (1 - eps)) * (1 - eps)"
    by (simp add: algebra_simps power_def)
  also have "\<dots> \<le> (s + (r\<^sup>2 + 1 / 2 ^ 120) * (1 - eps)) * (1 - eps)"
    using d u by (intro mult_right_mono add_left_mono) auto
  also have "\<dots> \<le> (s + r\<^sup>2 * (1 - eps)) * (1 - eps) + 1 / 2 ^ 120"
    using u by (simp add: algebra_simps ulp_F32)
  also have "\<dots> \<le> s' + e" using s'(2) by (simp add: e_def tiny32)
  finally have 2: "(S + \<delta>\<^sup>2) * (1 - eps) ^ (Suc n + 3) - (Suc n) * e \<le> s'"
    by (simp add: algebra_simps)
  from 1 2 s'(1) show ?thesis by (simp add: near_sum_def e_def)
qed

lemma near_sum_le:
  assumes "near_sum s S n" "n \<le> 20" "S \<le> 2 ^ 50" "0 \<le> S"
  shows "s \<le> 2 ^ 60"
proof -
  have "(1 + eps) ^ (n + 3) \<le> (1 + eps) ^ 23"
    using assms(2) eps_bounds by (intro power_increasing) auto
  also have "\<dots> \<le> 2" by (simp add: ulp_F32 power_divide)
  finally have "(S + real n / 2 ^ 110) * (1 + eps) ^ (n + 3) \<le> (2 ^ 50 + 20 / 2 ^ 110) * 2"
    using assms eps_bounds by (intro mult_mono add_mono divide_right_mono) auto
  also have "\<dots> \<le> 2 ^ 60" by simp
  finally show ?thesis using assms(1) by (simp add: near_sum_def)
qed

lemma sqacc_near:
  assumes "near_sum s S n" "n + length ds \<le> 20" "0 \<le> S" "S + real (length ds) * 2 ^ 40 \<le> 2 ^ 50"
    and "\<forall>d \<in> set ds. \<bar>a d - b d\<bar> \<le> 2 ^ 20"
  shows "\<exists>s'. sqacc fused (fdiffs a b ds) (Fin s) = Fin s' \<and>
    near_sum s' (S + (\<Sum>d\<leftarrow>ds. (a d - b d)\<^sup>2)) (n + length ds)"
  using assms
proof (induction ds arbitrary: s S n)
  case (Cons d ds)
  define \<delta> where "\<delta> = a d - b d"
  define r where "r = rnd F32 \<delta>"
  have \<delta>: "\<bar>\<delta>\<bar> \<le> 2 ^ 20" using Cons.prems(5) by (simp add: \<delta>_def)
  have rsq: "r\<^sup>2 \<le> 2 ^ 60" using diff_sq_near [OF \<delta>] by (simp add: r_def)
  have S50: "S \<le> 2 ^ 50" using Cons.prems(4) by (smt (verit) mult_nonneg_nonneg of_nat_0_le_iff zero_le_power)
  have s: "0 \<le> s" "s \<le> 2 ^ 60"
    using near_sum_le [OF Cons.prems(1) _ S50 Cons.prems(3)] Cons.prems(1,2) by (auto simp: near_sum_def)
  obtain s1 where s1: "fmac fused F32 (Fin s) (Fin r) (Fin r) = Fin s1" "0 \<le> s1"
    "(s + r\<^sup>2 * (1 - eps)) * (1 - eps) - 2 * tiny F32 \<le> s1"
    "s1 \<le> (s + r\<^sup>2 * (1 + eps)) * (1 + eps) + 3 * tiny F32"
    using fmac_near [OF s rsq] by blast
  have near: "near_sum s1 (S + \<delta>\<^sup>2) (Suc n)"
    by (rule near_step [OF Cons.prems(1,3) r_def \<delta> s1(2-4)])
  have diff: "fsub F32 (Fin (a d)) (Fin (b d)) = Fin r"
    using \<delta> by (simp add: fsub_def r_def \<delta>_def fround_Fin_F32)
  have "\<delta>\<^sup>2 \<le> (2 ^ 20)\<^sup>2" using \<delta> by (rule square_le_of_abs_le)
  then have "S + \<delta>\<^sup>2 + real (length ds) * 2 ^ 40 \<le> 2 ^ 50" "0 \<le> S + \<delta>\<^sup>2"
    using Cons.prems(3,4) by (auto simp: algebra_simps)
  from Cons.IH [OF near _ this(2,1)] Cons.prems show ?case
    by (simp add: sqacc_def fdiffs_def diff s1(1) \<delta>_def add.assoc)
qed (simp add: sqacc_def fdiffs_def)

lemma sqacc_dist:
  assumes "\<And>d. d < 14 \<Longrightarrow> \<bar>a d - b d\<bar> \<le> 2 ^ 20"
  shows "\<exists>s. sqacc fused (fdiffs a b [0..<14]) (Fin 0) = Fin s \<and> 0 \<le> s \<and> s \<le> 2 ^ 60 \<and>
    sqrt s \<le> sqrt (ssd a b) * (1 + 9 * eps) + 1 / 2 ^ 52 \<and>
    sqrt (ssd a b) * (1 - 9 * eps) - 1 / 2 ^ 52 \<le> sqrt s"
proof -
  have "near_sum 0 0 0" by (simp add: near_sum_def)
  from sqacc_near [OF this, of "[0..<14]" a b fused] assms
  obtain s where s: "sqacc fused (fdiffs a b [0..<14]) (Fin 0) = Fin s" "near_sum s (ssd a b) 14"
    by (auto simp: ssd_def interv_sum_list_conv_sum_set_nat atLeast0LessThan)
  define S where "S = ssd a b"
  have S0: "0 \<le> S" by (simp add: S_def ssd_nonneg)
  have "S \<le> (\<Sum>d<(14::nat). (2 ^ 20)\<^sup>2)"
    unfolding S_def ssd_def using assms by (intro sum_mono square_le_of_abs_le) auto
  then have S50: "S \<le> 2 ^ 50" by simp
  from s(2) have b: "0 \<le> s" "s \<le> (S + 14 / 2 ^ 110) * (1 + eps) ^ 17" "S * (1 - eps) ^ 17 - 14 / 2 ^ 110 \<le> s"
    by (auto simp: near_sum_def S_def)
  have "s \<le> (S + 1 / 2 ^ 106) * (1 + 9 * eps)\<^sup>2"
  proof -
    have "(1 + eps) ^ 17 \<le> (1 + 9 * eps)\<^sup>2" by (simp add: ulp_F32 power_divide)
    then have "(S + 14 / 2 ^ 110) * (1 + eps) ^ 17 \<le> (S + 1 / 2 ^ 106) * (1 + 9 * eps)\<^sup>2"
      using S0 eps_bounds by (intro mult_mono) auto
    with b(2) show ?thesis by linarith
  qed
  then have "sqrt s \<le> sqrt (S + 1 / 2 ^ 106) * (1 + 9 * eps)"
    using eps_bounds by (metis abs_of_nonneg add_nonneg_nonneg mult_nonneg_nonneg order_less_imp_le
      real_sqrt_abs real_sqrt_le_iff real_sqrt_mult zero_le_numeral zero_le_one)
  also have "sqrt (S + 1 / 2 ^ 106) \<le> sqrt S + 1 / 2 ^ 53"
    using sqrt_add_le_add_sqrt [OF S0, of "1 / 2 ^ 106"]
    by (simp add: real_sqrt_divide real_sqrt_power_even)
  also have "(sqrt S + 1 / 2 ^ 53) * (1 + 9 * eps) \<le> sqrt S * (1 + 9 * eps) + 1 / 2 ^ 52"
    by (simp add: distrib_right ulp_F32)
  finally have 1: "sqrt s \<le> sqrt S * (1 + 9 * eps) + 1 / 2 ^ 52"
    using eps_bounds by (simp add: mult_right_mono)
  have "S * (1 - 9 * eps)\<^sup>2 \<le> S * (1 - eps) ^ 17"
    using S0 by (intro mult_left_mono) (simp_all add: ulp_F32 power_divide)
  then have "S * (1 - 9 * eps)\<^sup>2 \<le> s + 1 / 2 ^ 106" using b(3) by simp
  then have "sqrt S * (1 - 9 * eps) \<le> sqrt (s + 1 / 2 ^ 106)"
    using eps_bounds S0 by (intro real_le_rsqrt) (simp add: power_mult_distrib)
  also have "\<dots> \<le> sqrt s + 1 / 2 ^ 53"
    using sqrt_add_le_add_sqrt [OF b(1), of "1 / 2 ^ 106"]
    by (simp add: real_sqrt_divide real_sqrt_power_even)
  finally have 2: "sqrt S * (1 - 9 * eps) - 1 / 2 ^ 52 \<le> sqrt s" by simp
  have "s \<le> 2 ^ 60" using near_sum_le [OF s(2)] S50 S0 by (simp add: S_def)
  with s(1) b(1) 1 2 show ?thesis by (auto simp: S_def)
qed

subsection \<open>Square roots\<close>

definition sqrt32 :: "fl \<Rightarrow> fl" where
  \<comment> \<open>\<open>float32(math.Sqrt(float64(x)))\<close>\<close>
  "sqrt32 x = fconv F32 (fsqrt F64 (fconv F64 x))"

lemma rnd64_near:
  assumes "0 \<le> x"
  shows "rnd F64 x \<le> x * (1 + eps) + 1 / 2 ^ 200" "x * (1 - eps) - 1 / 2 ^ 200 \<le> rnd F64 x"
    "rnd F64 x \<le> x * (1 + eps)\<^sup>2 + 1 / 2 ^ 200" "x * (1 - eps)\<^sup>2 - 1 / 2 ^ 200 \<le> rnd F64 x"
proof -
  have t: "tiny F64 \<le> 1 / 2 ^ 200" by (simp add: tiny_def power_int_def field_simps)
  have u: "ulp F64 \<le> eps" by (simp add: ulp_F32 ulp_F64)
  have "ulp F64 * x \<le> eps * x" using u assms by (rule mult_right_mono)
  then show 1: "rnd F64 x \<le> x * (1 + eps) + 1 / 2 ^ 200" "x * (1 - eps) - 1 / 2 ^ 200 \<le> rnd F64 x"
    using rnd_err [of F64 x] t assms by (auto simp: abs_le_iff algebra_simps)
  have "x * (1 + eps) \<le> x * (1 + eps)\<^sup>2" "x * (1 - eps)\<^sup>2 \<le> x * (1 - eps)"
    using assms eps_bounds by (auto intro!: mult_left_mono simp: power2_eq_square mult_left_le)
  with 1 show "rnd F64 x \<le> x * (1 + eps)\<^sup>2 + 1 / 2 ^ 200" "x * (1 - eps)\<^sup>2 - 1 / 2 ^ 200 \<le> rnd F64 x"
    by linarith+
qed

lemma sqrt_small: "0 \<le> x \<Longrightarrow> sqrt (x + 1 / 2 ^ 200) \<le> sqrt x + 1 / 2 ^ 100"
  using sqrt_add_le_add_sqrt [of x "1 / 2 ^ 200"] by (simp add: real_sqrt_divide real_sqrt_power_even)

lemma sqrt32_near:
  assumes s: "0 \<le> s" "s \<le> 2 ^ 60"
  shows "\<exists>t. sqrt32 (Fin s) = Fin t \<and> 0 \<le> t \<and> t \<le> 2 ^ 60 \<and>
    t \<le> sqrt s * (1 + 3 * eps + 4 * eps\<^sup>2) + 1 / 2 ^ 60 \<and> sqrt s * (1 - 3 * eps) - 1 / 2 ^ 60 \<le> t"
proof -
  define s1 where "s1 = rnd F64 s"
  have s1: "0 \<le> s1" "s1 \<le> s * (1 + eps)\<^sup>2 + 1 / 2 ^ 200" "s * (1 - eps)\<^sup>2 - 1 / 2 ^ 200 \<le> s1"
    using rnd64_near [OF s(1)] rnd_nonneg [OF s(1), of F64] by (auto simp: s1_def)
  define y where "y = sqrt s1"
  have y0: "0 \<le> y" using s1 by (simp add: y_def)
  have "y \<le> sqrt (s * (1 + eps)\<^sup>2 + 1 / 2 ^ 200)" using s1 by (simp add: y_def)
  also have "\<dots> \<le> sqrt s * (1 + eps) + 1 / 2 ^ 100"
    using sqrt_small [of "s * (1 + eps)\<^sup>2"] s eps_bounds by (simp add: real_sqrt_mult)
  finally have y1: "y \<le> sqrt s * (1 + eps) + 1 / 2 ^ 100" .
  have "sqrt s * (1 - eps) = sqrt (s * (1 - eps)\<^sup>2)" using eps_bounds s by (simp add: real_sqrt_mult)
  also have "\<dots> \<le> sqrt (s1 + 1 / 2 ^ 200)" using s1 by simp
  also have "\<dots> \<le> y + 1 / 2 ^ 100" using sqrt_small [OF s1(1)] by (simp add: y_def)
  finally have y2: "sqrt s * (1 - eps) - 1 / 2 ^ 100 \<le> y" by simp
  have ys: "sqrt s \<le> 2 ^ 30" using s by (intro real_le_lsqrt) auto
  have "sqrt s * (1 + eps) \<le> 2 ^ 30 * 2" using ys s eps_bounds by (intro mult_mono) auto
  then have y31: "y \<le> 2 ^ 32" using y1 by simp
  define t1 where "t1 = rnd F64 y"
  have t1: "0 \<le> t1" "t1 \<le> y * (1 + eps) + 1 / 2 ^ 200" "y * (1 - eps) - 1 / 2 ^ 200 \<le> t1"
    using rnd64_near [OF y0] rnd_nonneg [OF y0, of F64] by (auto simp: t1_def)
  have "y * (1 + eps) \<le> 2 ^ 32 * 2" using y31 y0 eps_bounds by (intro mult_mono) auto
  then have t133: "t1 \<le> 2 ^ 34" using t1 by simp
  define t where "t = rnd F32 t1"
  have t: "0 \<le> t" "t \<le> t1 * (1 + eps) + tiny F32" "t1 * (1 - eps) - tiny F32 \<le> t"
    using rnd32 [of t1] rnd_nonneg [OF t1(1), of F32] t1(1) by (auto simp: t_def algebra_simps)
  have "(2::real) ^ 60 \<le> 2 ^ 1023" by simp
  then have "sqrt32 (Fin s) = Fin t"
    using s s1 y0 y31 t1 t133
    by (simp add: sqrt32_def fround_Fin_F64 fround_Fin_F32 s1_def [symmetric] y_def [symmetric]
        t1_def [symmetric] t_def [symmetric])
  moreover have "t \<le> sqrt s * (1 + 3 * eps + 4 * eps\<^sup>2) + 1 / 2 ^ 60"
  proof -
    have "t1 * (1 + eps) \<le> (y * (1 + eps) + 1 / 2 ^ 200) * (1 + eps)"
      using t1 eps_bounds by (intro mult_right_mono) auto
    also have "\<dots> \<le> ((sqrt s * (1 + eps) + 1 / 2 ^ 100) * (1 + eps) + 1 / 2 ^ 200) * (1 + eps)"
      using y1 eps_bounds by (intro mult_right_mono add_right_mono) auto
    also have "\<dots> = sqrt s * (1 + eps) ^ 3 + (1 / 2 ^ 100 * (1 + eps) + 1 / 2 ^ 200) * (1 + eps)"
      by (simp add: algebra_simps power3_eq_cube)
    also have "\<dots> \<le> sqrt s * (1 + 3 * eps + 4 * eps\<^sup>2) + 1 / 2 ^ 61"
      using s by (intro add_mono mult_left_mono) (simp_all add: ulp_F32 power_divide)
    finally show ?thesis using t(2) by (simp add: tiny32)
  qed
  moreover have "sqrt s * (1 - 3 * eps) - 1 / 2 ^ 60 \<le> t"
  proof -
    have "sqrt s * (1 - 3 * eps) \<le> sqrt s * (1 - eps) ^ 3"
      using s by (intro mult_left_mono) (simp_all add: ulp_F32 power_divide)
    also have "\<dots> = sqrt s * (1 - eps) * (1 - eps) * (1 - eps)" by (simp add: power3_eq_cube)
    also have "\<dots> \<le> (y + 1 / 2 ^ 100) * (1 - eps) * (1 - eps)"
      using y2 eps_bounds by (intro mult_right_mono) auto
    also have "\<dots> \<le> (t1 + 1 / 2 ^ 200 + 1 / 2 ^ 100) * (1 - eps)"
      using t1(3) eps_bounds by (intro mult_right_mono) (auto simp: algebra_simps ulp_F32)
    also have "\<dots> \<le> t + tiny F32 + (1 / 2 ^ 200 + 1 / 2 ^ 100)"
      using t(3) eps_bounds by (auto simp: algebra_simps ulp_F32)
    finally show ?thesis by (simp add: tiny32)
  qed
  moreover have "t \<le> 2 ^ 60"
  proof -
    have "t1 * (1 + eps) \<le> 2 ^ 34 * 2" using t133 t1 eps_bounds by (intro mult_mono) auto
    then show ?thesis using t(2) by (simp add: tiny32)
  qed
  ultimately show ?thesis using t(1) by blast
qed

subsection \<open>The two filters of a cluster scan\<close>

text \<open>Both filters compare a rounded lower bound on the distance with the rounded worst
  distance plus 65536; when they fire, the exact distance is not below the worst one.\<close>

lemma prune_margin:
  assumes g: "0 \<le> g" "g\<^sup>2 \<le> of_int D" "g \<le> 74834" and D: "0 \<le> D" "D \<le> 14 * 65535\<^sup>2" and w: "w \<le> 2 ^ 62"
    and h: "0 < h" "h \<le> (g + 117 / 1000) * (1 + eps) + tiny F32"
    and fire: "fle (worst32 w) (fmul F32 (Fin h) (Fin h))"
  shows "w \<le> D"
proof (rule ccontr)
  assume "\<not> w \<le> D"
  then obtain x where x: "worst32 w = Fin x" "(of_int D * (1 - eps) + 65536) * (1 - eps) \<le> x"
    using worst32_lower [OF D(1) _ w] by auto
  have "(g + 117 / 1000) * eps \<le> (74834 + 117 / 1000) * eps" using g eps_bounds by (intro mult_right_mono) auto
  also have "\<dots> \<le> 45 / 10000" by (simp add: ulp_F32)
  finally have "(g + 117 / 1000) * eps \<le> 45 / 10000" .
  moreover have "tiny F32 \<le> 1 / 10000" by (simp add: tiny32)
  moreover have "(g + 117 / 1000) * (1 + eps) = g + 117 / 1000 + (g + 117 / 1000) * eps"
    by (metis distrib_left mult.right_neutral)
  ultimately have "(g + 117 / 1000) * (1 + eps) + tiny F32 \<le> g + 122 / 1000" by linarith
  with h have hb: "0 \<le> h" "h \<le> g + 122 / 1000" by linarith+
  then have "h\<^sup>2 \<le> (g + 122 / 1000)\<^sup>2" by (intro power_mono)
  also have "\<dots> = g\<^sup>2 + 244 / 1000 * g + (122 / 1000)\<^sup>2" by (simp add: power2_eq_square algebra_simps)
  also have "\<dots> \<le> of_int D + 18261"
  proof -
    have "244 / 1000 * g \<le> 18260" using g by simp
    moreover have "(122 / 1000 :: real)\<^sup>2 \<le> 1" by (simp add: power2_eq_square)
    ultimately show ?thesis using g(2) by linarith
  qed
  finally have hh: "h * h \<le> of_int D + 18261" by (simp add: power2_eq_square)
  have DR: "real_of_int D \<le> 14 * 65535\<^sup>2" "0 \<le> real_of_int D" using D by auto
  have hh0: "0 \<le> h * h" by simp
  have "\<bar>h * h\<bar> \<le> 2 ^ 127" using hh DR hh0 by simp
  then have "fmul F32 (Fin h) (Fin h) = Fin (rnd F32 (h * h))" by (simp add: fround_Fin_F32)
  then have le: "x \<le> rnd F32 (h * h)" using fire x by simp
  have "rnd F32 (h * h) \<le> h * h + (eps * (h * h) + tiny F32)" using rnd32(2) [of "h * h"] by simp
  also have "\<dots> \<le> (of_int D + 18261) * (1 + eps) + tiny F32"
    using hh eps_bounds mult_right_mono [OF hh, of eps] by (simp add: algebra_simps)
  also have "\<dots> < (of_int D * (1 - eps) + 65536) * (1 - eps)"
  proof -
    have "3 * eps * of_int D \<le> 10752" using DR by (simp add: ulp_F32)
    moreover have "0 \<le> eps * (eps * of_int D)" using DR eps_bounds by simp
    moreover have "(of_int D * (1 - eps) + 65536) * (1 - eps) - ((of_int D + 18261) * (1 + eps) + tiny F32) =
      eps * (eps * of_int D) - 3 * eps * of_int D + 47275 - (65536 + 18261) * eps - tiny F32"
      by (simp add: algebra_simps)
    moreover have "(65536 + 18261) * eps + tiny F32 \<le> 1" by (simp add: ulp_F32 tiny32)
    ultimately show ?thesis by linarith
  qed
  finally show False using le x by simp
qed

lemma triangle_prune:
  fixes cdS rad Q r :: real
  assumes cd: "0 \<le> cdS" "cdS \<le> 2 ^ 60" "cdS \<le> Q * (1 + 13 * eps) + 1 / 2 ^ 50"
    and rad: "0 \<le> rad" "rad \<le> 2 ^ 60" "r * (1 - 13 * eps) - 1 / 2 ^ 50 \<le> rad"
    and Q: "0 \<le> Q" "Q \<le> 74834" and r: "0 \<le> r" and tri: "Q - r \<le> sqrt (of_int D)"
    and D: "0 \<le> D" "D \<le> 14 * 65535\<^sup>2" and w: "w \<le> 2 ^ 62"
    and gap: "gap = fsub F32 (Fin cdS) (Fin rad)" "flt (Fin 0) gap" "fle (worst32 w) (fmul F32 gap gap)"
  shows "w \<le> D"
proof -
  define \<delta> where "\<delta> = cdS - rad"
  define h where "h = rnd F32 \<delta>"
  define g where "g = max 0 (Q - r)"
  have "\<bar>\<delta>\<bar> \<le> 2 ^ 61" using cd rad by (simp add: \<delta>_def abs_le_iff)
  then have gap': "gap = Fin h" using gap(1) by (simp add: fsub_def \<delta>_def h_def fround_Fin_F32)
  have h0: "0 < h" using gap(2) gap' by simp
  have \<delta>0: "0 < \<delta>"
  proof (rule ccontr)
    assume "\<not> 0 < \<delta>"
    then have "h \<le> 0" unfolding h_def by (intro rnd_nonpos) simp
    with h0 show False by simp
  qed
  have g: "0 \<le> g" "g \<le> 74834" "g \<le> sqrt (of_int D)" using Q r tri D by (auto simp: g_def)
  have "g\<^sup>2 \<le> (sqrt (of_int D))\<^sup>2" using g by (intro power_mono) auto
  then have g2: "g\<^sup>2 \<le> of_int D" using D by simp
  have "\<delta> \<le> g + 117 / 1000"
  proof -
    define m where "m = min r Q"
    have m: "0 \<le> m" "m \<le> r" "m \<le> Q" "Q - m = g" using Q r by (auto simp: m_def g_def)
    have "m * (1 - 13 * eps) \<le> r * (1 - 13 * eps)" using m by (intro mult_right_mono) (auto simp: ulp_F32)
    then have "\<delta> \<le> Q * (1 + 13 * eps) - m * (1 - 13 * eps) + 1 / 2 ^ 49"
      using cd rad by (simp add: \<delta>_def)
    also have "\<dots> = g + 13 * eps * (Q + m) + 1 / 2 ^ 49" using m by (simp add: algebra_simps)
    also have "13 * eps * (Q + m) \<le> 13 * eps * (2 * 74834)"
      using m Q eps_bounds by (intro mult_left_mono) auto
    also have "\<dots> = 13 * 2 * 74834 / 2 ^ 24" by (simp add: ulp_F32)
    finally show ?thesis by simp
  qed
  then have "\<delta> * (1 + eps) \<le> (g + 117 / 1000) * (1 + eps)" using eps_bounds by (intro mult_right_mono) auto
  moreover have "h \<le> \<delta> * (1 + eps) + tiny F32" using rnd32(2) [of \<delta>] \<delta>0 by (simp add: h_def algebra_simps)
  ultimately have "h \<le> (g + 117 / 1000) * (1 + eps) + tiny F32" by linarith
  with g g2 D w h0 gap(3) gap' show ?thesis by (intro prune_margin [of g D w h]) auto
qed

end
