(* ===== verification/GoSort.thy ===== *)
theory GoSort
  imports Prelude
begin

text \<open>
  \<open>sort.SliceStable\<close> of the Go standard library, as the index builders use it: blocks of
  twenty are insertion-sorted, then merged in place by rotations.  The comparison is a
  closure over positions that may read the slice being sorted, so it takes the current
  list.  Elements are moved by swaps only, hence the result is a permutation whatever
  the comparison says; this is all the index needs, and all that can be promised when
  the closure compares something other than the elements at those positions.
\<close>

definition swap :: "nat \<Rightarrow> nat \<Rightarrow> 'a list \<Rightarrow> 'a list" where
  \<comment> \<open>positions are always in range here; out of range Go would panic\<close>
  "swap i j xs = (if i < length xs \<and> j < length xs then xs[i := xs ! j, j := xs ! i] else xs)"

fun sift_down :: "('a list \<Rightarrow> nat \<Rightarrow> nat \<Rightarrow> bool) \<Rightarrow> nat \<Rightarrow> nat \<Rightarrow> 'a list \<Rightarrow> 'a list" where
  "sift_down lt a 0 xs = xs"
| "sift_down lt a (Suc j) xs =
     (if a < Suc j \<and> lt xs (Suc j) j then sift_down lt a j (swap (Suc j) j xs) else xs)"

definition insertionSort :: "('a list \<Rightarrow> nat \<Rightarrow> nat \<Rightarrow> bool) \<Rightarrow> nat \<Rightarrow> nat \<Rightarrow> 'a list \<Rightarrow> 'a list" where
  "insertionSort lt a b xs = fold (\<lambda>i. sift_down lt a i) [a + 1..<b] xs"

function insert_blocks :: "('a list \<Rightarrow> nat \<Rightarrow> nat \<Rightarrow> bool) \<Rightarrow> nat \<Rightarrow> nat \<Rightarrow> nat \<Rightarrow> 'a list \<Rightarrow> 'a list" where
  "insert_blocks lt blockSize n a xs =
     (if 0 < blockSize \<and> a + blockSize \<le> n
      then insert_blocks lt blockSize n (a + blockSize) (insertionSort lt a (a + blockSize) xs)
      else insertionSort lt a n xs)"
  by pat_completeness auto
termination
  by (relation "measure (\<lambda>(l, s, n, a, xs). n - a)") auto

function bsearch :: "(nat \<Rightarrow> bool) \<Rightarrow> nat \<Rightarrow> nat \<Rightarrow> nat" where
  "bsearch right i j =
     (if i < j then let h = (i + j) div 2 in if right h then bsearch right (h + 1) j else bsearch right i h
      else i)"
  by pat_completeness auto
termination
  by (relation "measure (\<lambda>(r, i, j). j - i)") auto

declare bsearch.simps [simp del]

definition swapRange :: "nat \<Rightarrow> nat \<Rightarrow> nat \<Rightarrow> 'a list \<Rightarrow> 'a list" where
  "swapRange a b n xs = fold (\<lambda>i. swap (a + i) (b + i)) [0..<n] xs"

function rotate_loop :: "nat \<Rightarrow> nat \<Rightarrow> nat \<Rightarrow> 'a list \<Rightarrow> 'a list" where
  \<comment> \<open>both lengths are positive where it is called\<close>
  "rotate_loop m i j xs =
     (if i = j \<or> i = 0 \<or> j = 0 then swapRange (m - i) m i xs
      else if j < i then rotate_loop m (i - j) j (swapRange (m - i) m j xs)
      else rotate_loop m i (j - i) (swapRange (m - i) (m + j - i) i xs))"
  by pat_completeness auto
termination
  by (relation "measure (\<lambda>(m, i, j, xs). i + j)") auto

definition rotate_range :: "nat \<Rightarrow> nat \<Rightarrow> nat \<Rightarrow> 'a list \<Rightarrow> 'a list" where
  "rotate_range a m b xs = rotate_loop m (m - a) (b - m) xs"

definition sym_start :: "('a list \<Rightarrow> nat \<Rightarrow> nat \<Rightarrow> bool) \<Rightarrow> nat \<Rightarrow> nat \<Rightarrow> nat \<Rightarrow> 'a list \<Rightarrow> nat" where
  "sym_start lt a m b xs =
     (let mid = (a + b) div 2; n = mid + m; p = n - 1
      in bsearch (\<lambda>c. \<not> lt xs (p - c) c) (if mid < m then n - b else a) (if mid < m then mid else m))"

definition sym_single :: "('a list \<Rightarrow> nat \<Rightarrow> nat \<Rightarrow> bool) \<Rightarrow> nat \<Rightarrow> nat \<Rightarrow> nat \<Rightarrow> 'a list \<Rightarrow> 'a list" where
  \<comment> \<open>one of the two runs has a single element\<close>
  "sym_single lt a m b xs =
     (if m - a = 1 then
        let i = bsearch (\<lambda>h. lt xs h a) m b
        in fold (\<lambda>k. swap k (k + 1)) [a..<i - 1] xs
      else
        let i = bsearch (\<lambda>h. \<not> lt xs m h) a m
        in fold (\<lambda>k. swap k (k - 1)) (rev [i + 1..<m + 1]) xs)"

definition sym_rotate :: "nat \<Rightarrow> nat \<Rightarrow> nat \<Rightarrow> 'a list \<Rightarrow> 'a list" where
  "sym_rotate start m stop xs = (if start < m \<and> m < stop then rotate_range start m stop xs else xs)"

function symMerge :: "('a list \<Rightarrow> nat \<Rightarrow> nat \<Rightarrow> bool) \<Rightarrow> nat \<Rightarrow> nat \<Rightarrow> nat \<Rightarrow> 'a list \<Rightarrow> 'a list" where
  "symMerge lt a m b xs =
     (if m - a = 1 \<or> b - m = 1 then sym_single lt a m b xs
      else
        let mid = (a + b) div 2;
            start = sym_start lt a m b xs;
            stop = mid + m - start;
            xs1 = sym_rotate start m stop xs;
            xs2 = (if a < start \<and> start < mid then symMerge lt a start mid xs1 else xs1)
        in if mid < stop \<and> stop < b then symMerge lt mid stop b xs2 else xs2)"
  by pat_completeness auto
termination
proof (relation "measure (\<lambda>(l, a, m, b, xs). b - a)", goal_cases)
  case 1
  show ?case by simp
next
  case 2
  then show ?case by (simp only: in_measure prod.case) linarith
next
  case 3
  then show ?case by (simp only: in_measure prod.case) linarith
qed

function merge_pass :: "('a list \<Rightarrow> nat \<Rightarrow> nat \<Rightarrow> bool) \<Rightarrow> nat \<Rightarrow> nat \<Rightarrow> nat \<Rightarrow> 'a list \<Rightarrow> 'a list" where
  "merge_pass lt blockSize n a xs =
     (if 0 < blockSize \<and> a + 2 * blockSize \<le> n
      then merge_pass lt blockSize n (a + 2 * blockSize) (symMerge lt a (a + blockSize) (a + 2 * blockSize) xs)
      else if a + blockSize < n then symMerge lt a (a + blockSize) n xs
      else xs)"
  by pat_completeness auto
termination
  by (relation "measure (\<lambda>(l, s, n, a, xs). n - a)") auto

function merge_passes :: "('a list \<Rightarrow> nat \<Rightarrow> nat \<Rightarrow> bool) \<Rightarrow> nat \<Rightarrow> nat \<Rightarrow> 'a list \<Rightarrow> 'a list" where
  "merge_passes lt blockSize n xs =
     (if 0 < blockSize \<and> blockSize < n
      then merge_passes lt (2 * blockSize) n (merge_pass lt blockSize n 0 xs)
      else xs)"
  by pat_completeness auto
termination
  by (relation "measure (\<lambda>(l, s, n, xs). n - s)") auto

definition SliceStable :: "('a list \<Rightarrow> nat \<Rightarrow> nat \<Rightarrow> bool) \<Rightarrow> 'a list \<Rightarrow> 'a list" where
  "SliceStable lt xs = merge_passes lt 20 (length xs) (insert_blocks lt 20 (length xs) 0 xs)"

declare insert_blocks.simps [simp del] rotate_loop.simps [simp del]
  symMerge.simps [simp del] merge_pass.simps [simp del] merge_passes.simps [simp del]

subsection \<open>Sorting permutes\<close>

lemma mset_swap [simp]: "mset (swap i j xs) = mset xs"
  by (simp add: swap_def mset_swap)

lemma mset_fold: "(\<And>x ys. mset (f x ys) = mset ys) \<Longrightarrow> mset (fold f zs xs) = mset xs"
  by (induction zs arbitrary: xs) auto

lemma mset_sift_down [simp]: "mset (sift_down lt a j xs) = mset xs"
  by (induction lt a j xs rule: sift_down.induct) auto

lemma mset_insertionSort [simp]: "mset (insertionSort lt a b xs) = mset xs"
  unfolding insertionSort_def by (rule mset_fold) simp

lemma mset_insert_blocks [simp]: "mset (insert_blocks lt s n a xs) = mset xs"
  by (induction lt s n a xs rule: insert_blocks.induct) (subst insert_blocks.simps, simp)

lemma mset_swapRange [simp]: "mset (swapRange a b n xs) = mset xs"
  unfolding swapRange_def by (rule mset_fold) simp

lemma mset_rotate_loop [simp]: "mset (rotate_loop m i j xs) = mset xs"
  by (induction m i j xs rule: rotate_loop.induct) (subst rotate_loop.simps, simp)

lemma mset_rotate_range [simp]: "mset (rotate_range a m b xs) = mset xs"
  by (simp add: rotate_range_def)

lemma mset_sym_single [simp]: "mset (sym_single lt a m b xs) = mset xs"
  unfolding sym_single_def Let_def by (simp add: mset_fold)

lemma mset_sym_rotate [simp]: "mset (sym_rotate start m stop xs) = mset xs"
  by (simp add: sym_rotate_def)

lemma mset_symMerge [simp]: "mset (symMerge lt a m b xs) = mset xs"
proof (induction lt a m b xs rule: symMerge.induct)
  case (1 lt a m b xs)
  show ?case
  proof (cases "m - a = 1 \<or> b - m = 1")
    case True
    then show ?thesis by (subst symMerge.simps) simp
  next
    case False
    note IH = 1 [OF False refl refl refl refl]
    define xs1 where "xs1 = sym_rotate (sym_start lt a m b xs) m ((a + b) div 2 + m - sym_start lt a m b xs) xs"
    define xs2 where "xs2 = (if a < sym_start lt a m b xs \<and> sym_start lt a m b xs < (a + b) div 2
        then symMerge lt a (sym_start lt a m b xs) ((a + b) div 2) xs1 else xs1)"
    have "mset xs2 = mset xs" using IH(1) by (simp add: xs2_def xs1_def)
    moreover have "mset (symMerge lt a m b xs) = mset xs2"
    proof (cases "(a + b) div 2 < (a + b) div 2 + m - sym_start lt a m b xs \<and>
        (a + b) div 2 + m - sym_start lt a m b xs < b")
      case T: True
      show ?thesis unfolding xs2_def xs1_def using IH(2) [OF refl T]
        by (subst symMerge.simps) (simp only: False T Let_def if_False if_True simp_thms)
    next
      case F: False
      show ?thesis unfolding xs2_def xs1_def
        by (subst symMerge.simps) (simp only: False F Let_def if_False if_True simp_thms)
    qed
    ultimately show ?thesis by simp
  qed
qed

lemma mset_merge_pass [simp]: "mset (merge_pass lt s n a xs) = mset xs"
  by (induction lt s n a xs rule: merge_pass.induct) (subst merge_pass.simps, simp)

lemma mset_merge_passes [simp]: "mset (merge_passes lt s n xs) = mset xs"
  by (induction lt s n xs rule: merge_passes.induct) (subst merge_passes.simps, simp)

theorem mset_SliceStable [simp]: "mset (SliceStable lt xs) = mset xs"
  by (simp add: SliceStable_def)

lemma length_SliceStable [simp]: "length (SliceStable lt xs) = length xs"
  by (metis mset_SliceStable size_mset)

lemma set_SliceStable [simp]: "set (SliceStable lt xs) = set xs"
  by (metis mset_SliceStable set_mset_mset)

end
