(* ===== verification/IvfIndex.thy ===== *)
theory IvfIndex
  imports DistError GoSort
begin

text \<open>
  The cluster index: \<open>internal/ivf/index.go\<close> (the type and \<open>Build\<close>) and
  \<open>internal/ivf/radii.go\<close>.  The Go constant \<open>ivf.K\<close> (4096 in production) is the
  argument \<open>K\<close>; \<open>currentLabelSource.s\<close>, the package variable \<open>SetLabelSource\<close>
  writes, is the argument \<open>src\<close>.  \<open>None\<close> is a panic (an index out of range),
  \<open>Inl\<close> an error return.

  The lemmas show what the searches need from a built index (\<open>wf_index\<close>): the
  offsets partition the blocks, every slot of a cluster holds either a member
  inside the cluster's box and radius or the padding vector with label 0, and
  the members of all clusters together are the data set, each exactly once.
\<close>

subsection \<open>The index\<close>

record IVFIndex =
  ixN :: u32
  ixK :: u32
  ixBlocks :: u32
  Centroids :: "fl list"
  Offsets :: "u32 list"
  BboxMin :: "i16 list"
  BboxMax :: "i16 list"
  Radii :: "fl list"
  Labels :: "u8 list"
  BlockData :: "i16 list"

subsection \<open>ComputeRadii\<close>

definition member_dist_sq :: "bool \<Rightarrow> fl list \<Rightarrow> i16 list \<Rightarrow> nat \<Rightarrow> nat \<Rightarrow> fl option" where
  "member_dist_sq fused centroid data b lane =
     ofold (\<lambda>d distSq. do {
         w \<leftarrow> get data (b * 112 + d * 8 + lane);
         let diff = fsub F32 (fl_of_int F32 (sint w)) (centroid ! d);
         Some (fmac fused F32 distSq diff diff)
       }) [0..<14] (Fin 0)"

definition max_dist_sq :: "bool \<Rightarrow> fl list \<Rightarrow> i16 list \<Rightarrow> nat \<Rightarrow> nat \<Rightarrow> fl option" where
  "max_dist_sq fused centroid data startBlock endBlock =
     ofold (\<lambda>b m. ofold (\<lambda>lane m. do {
         s \<leftarrow> member_dist_sq fused centroid data b lane;
         Some (if flt m s then s else m)
       }) [0..<8] m) [startBlock..<endBlock] (Fin 0)"

definition cluster_radius :: "bool \<Rightarrow> IVFIndex \<Rightarrow> nat \<Rightarrow> fl option" where
  "cluster_radius fused idx c = do {
     startBlock \<leftarrow> get (Offsets idx) c;
     endBlock \<leftarrow> get (Offsets idx) (c + 1);
     if startBlock = endBlock then Some (Fin 0)
     else do {
       centroid \<leftarrow> those (map (\<lambda>d. get (Centroids idx) (d * unat (ixK idx) + c)) [0..<14]);
       m \<leftarrow> max_dist_sq fused centroid (BlockData idx) (unat startBlock) (unat endBlock);
       Some (sqrt32 m)
     }
   }"

definition ComputeRadii :: "bool \<Rightarrow> IVFIndex \<Rightarrow> IVFIndex option" where
  "ComputeRadii fused idx = do {
     rs \<leftarrow> those (map (cluster_radius fused idx) [0..<unat (ixK idx)]);
     Some (idx\<lparr>Radii := rs\<rparr>)
   }"

subsection \<open>Build\<close>

definition vector_at :: "i16 list \<Rightarrow> nat \<Rightarrow> i16 list option" where
  \<comment> \<open>the fourteen reads \<open>vectors[id*Stride + d]\<close>\<close>
  "vector_at vectors i = gslice vectors (i * 14) (i * 14 + 14)"

definition bucket_ids :: "nat \<Rightarrow> u16 list \<Rightarrow> nat \<Rightarrow> nat list list option" where
  "bucket_ids K assign cnt =
     ofold (\<lambda>i buckets. do {
         c \<leftarrow> get assign i;
         b \<leftarrow> get buckets (unat c);
         put buckets (unat c) (b @ [i])
       }) [0..<unat (of_nat cnt :: u32)] (replicate K [])"

definition cluster_offsets :: "nat list list \<Rightarrow> u32 list \<times> u32" where
  \<comment> \<open>\<open>Offsets\<close> before its last entry, and the running block count\<close>
  "cluster_offsets buckets =
     fold (\<lambda>ids (offs, total). (offs @ [total], total + of_nat ((length ids + 7) div 8))) buckets ([], 0)"

definition soa_centroids :: "nat \<Rightarrow> fl list list \<Rightarrow> fl list" where
  "soa_centroids K centroids = concat (map (\<lambda>d. map (\<lambda>c. centroids ! c ! d) [0..<K]) [0..<14])"

definition bbox_step :: "i16 list \<Rightarrow> i16 list \<times> i16 list \<Rightarrow> i16 list \<times> i16 list" where
  "bbox_step v = (\<lambda>(mn, mx).
     (map (\<lambda>d. if sint (v ! d) < sint (mn ! d) then v ! d else mn ! d) [0..<14],
      map (\<lambda>d. if sint (mx ! d) < sint (v ! d) then v ! d else mx ! d) [0..<14]))"

definition cluster_bbox :: "i16 list \<Rightarrow> nat list \<Rightarrow> (i16 list \<times> i16 list) option" where
  "cluster_bbox vectors ids =
     (if ids = [] then Some (replicate 16 32767, replicate 16 32767)
      else do {
        (mn, mx) \<leftarrow> ofold (\<lambda>i box. do { v \<leftarrow> vector_at vectors i; Some (bbox_step v box) }) ids
                     (replicate 14 32767, replicate 14 (- 32768));
        Some (mn @ [0, 0], mx @ [0, 0])
      })"

definition centroid_dist64 :: "bool \<Rightarrow> i16 list \<Rightarrow> fl list \<Rightarrow> fl" where
  "centroid_dist64 fused v centroid =
     fold (\<lambda>d s. let diff = fsub F64 (fl_of_int F64 (sint (v ! d))) (fconv F64 (centroid ! d))
                 in fmac fused F64 s diff diff) [0..<14] (Fin 0)"

definition sortIDsByCentroidDist :: "bool \<Rightarrow> nat list \<Rightarrow> i16 list \<Rightarrow> fl list \<Rightarrow> nat list option" where
  \<comment> \<open>the closure compares \<open>dists\<close> by position while only \<open>ids\<close> is permuted\<close>
  "sortIDsByCentroidDist fused ids vectors centroid = do {
     vs \<leftarrow> those (map (vector_at vectors) ids);
     let dists = map (\<lambda>v. centroid_dist64 fused v centroid) vs;
     Some (SliceStable (\<lambda>_ a b. flt (dists ! a) (dists ! b)) ids)
   }"

definition write_lane :: "nat \<Rightarrow> nat \<Rightarrow> i16 list \<Rightarrow> i16 list \<Rightarrow> i16 list option" where
  "write_lane b lane v data = ofold (\<lambda>d data. put data (b * 112 + d * 8 + lane) (v ! d)) [0..<14] data"

definition write_members ::
  "i16 list \<Rightarrow> u8 list \<Rightarrow> nat \<Rightarrow> nat list \<Rightarrow> i16 list \<times> u8 list \<Rightarrow> (i16 list \<times> u8 list) option" where
  "write_members vectors src blockStart ids =
     ofold (\<lambda>(i, v_id) (data, labels). do {
         let b = blockStart + i div 8;
         let lane = i mod 8;
         v \<leftarrow> vector_at vectors v_id;
         data' \<leftarrow> write_lane b lane v data;
         l \<leftarrow> get src v_id;
         labels' \<leftarrow> put labels (b * 8 + lane) l;
         Some (data', labels')
       }) (enumerate 0 ids)"

definition phantom :: "i16 list" where
  "phantom = replicate 14 32767"

definition pad_block :: "nat \<Rightarrow> nat \<Rightarrow> i16 list \<Rightarrow> i16 list option" where
  \<comment> \<open>the unused lanes of a partial last block\<close>
  "pad_block blockStart n data =
     (let used = n mod 8 in
      if used = 0 then Some data
      else ofold (\<lambda>lane. write_lane (blockStart + n div 8) lane phantom) [used..<8] data)"

definition fill_cluster ::
  "bool \<Rightarrow> i16 list \<Rightarrow> u8 list \<Rightarrow> fl list list \<Rightarrow> u32 list \<Rightarrow> nat list list \<Rightarrow> nat \<Rightarrow>
   i16 list \<times> u8 list \<Rightarrow> (i16 list \<times> u8 list) option" where
  "fill_cluster fused vectors src centroids offs buckets c st =
     (let ids = buckets ! c in
      if ids = [] then Some st
      else do {
        ids' \<leftarrow> sortIDsByCentroidDist fused ids vectors (centroids ! c);
        (data, labels) \<leftarrow> write_members vectors src (unat (offs ! c)) ids' st;
        data' \<leftarrow> pad_block (unat (offs ! c)) (length ids) data;
        Some (data', labels)
      })"

definition Build ::
  "bool \<Rightarrow> nat \<Rightarrow> u8 list \<Rightarrow> i16 list \<Rightarrow> nat \<Rightarrow> fl list list \<Rightarrow> u16 list \<Rightarrow> (string + IVFIndex) option" where
  "Build fused K src vectors cnt centroids assign =
     (if length assign \<noteq> cnt then Some (Inl ''assign length != count'')
      else do {
        buckets \<leftarrow> bucket_ids K assign cnt;
        let (offs, total) = cluster_offsets buckets;
        boxes \<leftarrow> those (map (cluster_bbox vectors) buckets);
        (data, labels) \<leftarrow> ofold (fill_cluster fused vectors src centroids offs buckets) [0..<K]
            (replicate (unat total * 112) 0, replicate (unat total * 8) 0);
        idx \<leftarrow> ComputeRadii fused
          \<lparr>ixN = of_nat cnt, ixK = of_nat K, ixBlocks = total,
           Centroids = soa_centroids K centroids, Offsets = offs @ [total],
           BboxMin = concat (map fst boxes), BboxMax = concat (map snd boxes),
           Radii = [], Labels = labels, BlockData = data\<rparr>;
        Some (Inr idx)
      })"

subsection \<open>The slots of the block data\<close>

text \<open>Slot \<open>p\<close> is lane \<open>p mod 8\<close> of block \<open>p div 8\<close>.\<close>

definition slot_vec :: "i16 list \<Rightarrow> nat \<Rightarrow> i16 list" where
  "slot_vec data p = map (\<lambda>d. data ! (p div 8 * 112 + d * 8 + p mod 8)) [0..<14]"

definition slots :: "nat \<Rightarrow> i16 list \<Rightarrow> i16 list list" where
  "slots B data = map (slot_vec data) [0..<8 * B]"

lemma length_slots [simp]: "length (slots B data) = 8 * B"
  by (simp add: slots_def)

lemma slot_index_div:
  assumes "d < 14" "l < (8::nat)"
  shows "(b * 112 + d * 8 + l) div 112 = b" "(b * 112 + d * 8 + l) mod 112 div 8 = d"
    "(b * 112 + d * 8 + l) mod 8 = l"
proof -
  have "d * 8 + l < 112" using assms by linarith
  then show "(b * 112 + d * 8 + l) div 112 = b" "(b * 112 + d * 8 + l) mod 112 div 8 = d"
    using assms by (simp_all add: add.assoc div_nat_eqI)
  have "b * 112 + d * 8 + l = l + 8 * (b * 14 + d)" by simp
  then show "(b * 112 + d * 8 + l) mod 8 = l" using assms(2) by (metis mod_mult_self2 mod_less)
qed

lemma slot_index_inj:
  "d < 14 \<Longrightarrow> d' < 14 \<Longrightarrow> l < 8 \<Longrightarrow> l' < 8 \<Longrightarrow>
   b * 112 + d * 8 + l = b' * 112 + d' * 8 + l' \<longleftrightarrow> b = b' \<and> d = d' \<and> l = (l' :: nat)"
  by (metis slot_index_div)

lemma slot_index_less:
  "b < B \<Longrightarrow> d < 14 \<Longrightarrow> l < 8 \<Longrightarrow> b * 112 + d * 8 + l < 112 * (B :: nat)"
  by linarith

lemma write_lane_nth:
  assumes len: "length data = 112 * B" "length v = 14" and b: "b < B" "lane < 8"
  shows "\<exists>data'. write_lane b lane v data = Some data' \<and> length data' = 112 * B \<and>
    (\<forall>b' d' l'. b' < B \<longrightarrow> d' < 14 \<longrightarrow> l' < 8 \<longrightarrow> data' ! (b' * 112 + d' * 8 + l') =
       (if b' = b \<and> l' = lane then v ! d' else data ! (b' * 112 + d' * 8 + l')))"
proof -
  have "\<exists>data'. write_lane b lane v data = Some data' \<and> (length data' = 112 * B \<and>
    (\<forall>b' d' l'. b' < B \<longrightarrow> d' < 14 \<longrightarrow> l' < 8 \<longrightarrow> data' ! (b' * 112 + d' * 8 + l') =
       (if b' = b \<and> l' = lane \<and> d' < length [0..<14] then v ! d' else data ! (b' * 112 + d' * 8 + l'))))"
    unfolding write_lane_def
  proof (rule ofold_prefix_rule, goal_cases)
    case (2 i s)
    then show ?case
      using b len by (auto simp: put_Some slot_index_less nth_list_update slot_index_inj less_Suc_eq)
  qed (use len in simp)
  then show ?thesis by auto
qed

lemma write_lane_slots:
  assumes "length data = 112 * B" "length v = 14" "p < 8 * B"
  shows "\<exists>data'. write_lane (p div 8) (p mod 8) v data = Some data' \<and> length data' = 112 * B \<and>
    slots B data' = (slots B data)[p := v]"
proof -
  have "p div 8 < B" "p mod 8 < 8" using assms(3) by auto
  from write_lane_nth [OF assms(1,2) this] obtain data' where
    d: "write_lane (p div 8) (p mod 8) v data = Some data'" "length data' = 112 * B"
    "\<forall>b' d' l'. b' < B \<longrightarrow> d' < 14 \<longrightarrow> l' < 8 \<longrightarrow> data' ! (b' * 112 + d' * 8 + l') =
       (if b' = p div 8 \<and> l' = p mod 8 then v ! d' else data ! (b' * 112 + d' * 8 + l'))" by blast
  have "slot_vec data' q = (if q = p then v else slot_vec data q)" if q: "q < 8 * B" for q
  proof -
    have "q div 8 = p div 8 \<and> q mod 8 = p mod 8 \<longleftrightarrow> q = p" by (metis div_mult_mod_eq)
    moreover have "q div 8 < B" "q mod 8 < 8" using q by auto
    ultimately show ?thesis
      using d(3) assms(2) by (auto simp: slot_vec_def intro!: nth_equalityI)
  qed
  then have "slots B data' = (slots B data)[p := v]"
    by (intro nth_equalityI) (auto simp: slots_def nth_list_update)
  with d show ?thesis by blast
qed

lemma slots_init: "slots B (replicate (B * 112) 0) = replicate (8 * B) (replicate 14 0)"
proof -
  have "slot_vec (replicate (B * 112) 0) p = replicate 14 0" if "p < 8 * B" for p
  proof (rule nth_equalityI)
    fix i assume "i < length (slot_vec (replicate (B * 112) 0) p)"
    then have i: "i < 14" by (simp add: slot_vec_def)
    have "p div 8 * 112 + i * 8 + p mod 8 < 112 * B"
      using slot_index_less [of "p div 8" B i "p mod 8"] that i by auto
    with i show "slot_vec (replicate (B * 112) 0) p ! i = replicate 14 0 ! i"
      by (simp add: slot_vec_def mult.commute [of B])
  qed (simp add: slot_vec_def)
  then show ?thesis by (intro nth_equalityI) (auto simp: slots_def)
qed

lemma slot_vec_lane:
  assumes "b * 112 + 112 \<le> length data" "lane < 8"
  shows "lane_vec (take 112 (drop (b * 112) data)) lane = slot_vec data (b * 8 + lane)"
proof -
  have "d * 8 + lane < 112" if "d < 14" for d using that assms(2) by linarith
  then show ?thesis
    using assms by (intro nth_equalityI) (auto simp: lane_vec_def slot_vec_def add.assoc)
qed

subsection \<open>What filling one cluster does to the slots\<close>

definition vec_of :: "i16 list \<Rightarrow> nat \<Rightarrow> i16 list" where
  "vec_of vectors i = take 14 (drop (i * 14) vectors)"

definition padn :: "nat \<Rightarrow> nat" where
  "padn n = (8 - n mod 8) mod 8"

lemma padn_add: "n + padn n = 8 * ((n + 7) div 8)"
proof -
  define q m where "q = n div 8" and "m = n mod 8"
  have n: "n = 8 * q + m" "m < 8" by (simp_all add: q_def m_def)
  have "(n + 7) div 8 = q + (if m = 0 then 0 else 1)" using n by (simp add: div_nat_eqI)
  then show ?thesis using n by (simp add: padn_def m_def [symmetric])
qed

lemma div_mod_8: "p = 8 * a + x \<Longrightarrow> x < 8 \<Longrightarrow> p div 8 = a \<and> p mod 8 = (x :: nat)"
  by simp

lemma vector_at_Some: "i * 14 + 14 \<le> length vectors \<Longrightarrow> vector_at vectors i = Some (vec_of vectors i)"
  by (simp add: vector_at_def vec_of_def gslice_Some)

lemma length_vec_of [simp]: "i * 14 + 14 \<le> length vectors \<Longrightarrow> length (vec_of vectors i) = 14"
  by (simp add: vec_of_def)

lemma length_phantom [simp]: "length phantom = 14"
  by (simp add: phantom_def)

lemma list_update_append_replicate:
  "length xs = n \<Longrightarrow> 0 < r \<Longrightarrow> (xs @ replicate r z)[n := x] = xs @ x # replicate (r - 1) z"
  by (cases r) (auto simp: list_update_append)

lemma write_members_slots:
  assumes data: "length data = 112 * B" "slots B data = V @ replicate r z" "length V = 8 * start"
    and labs: "labels = L @ replicate r 0" "length L = 8 * start"
    and fits: "length ids \<le> r"
    and ids: "\<forall>i \<in> set ids. i * 14 + 14 \<le> length vectors \<and> i < length src"
  shows "\<exists>data' labels'. write_members vectors src start ids (data, labels) = Some (data', labels') \<and>
    length data' = 112 * B \<and>
    slots B data' = V @ map (vec_of vectors) ids @ replicate (r - length ids) z \<and>
    labels' = L @ map (\<lambda>i. src ! i) ids @ replicate (r - length ids) 0"
proof -
  define P where "P n = (\<lambda>(data', labels').
    length data' = 112 * B \<and>
    slots B data' = (V @ map (vec_of vectors) (take n ids)) @ replicate (r - n) z \<and>
    labels' = (L @ map (\<lambda>i. src ! i) (take n ids)) @ replicate (r - n) 0)" for n
  have lenB: "8 * start + r = 8 * B"
    using arg_cong [OF data(2), of length] data(3) by simp
  have "\<exists>s'. write_members vectors src start ids (data, labels) = Some s' \<and> P (length (enumerate 0 ids)) s'"
    unfolding write_members_def
  proof (rule ofold_prefix_rule)
    show "P 0 (data, labels)" using data labs by (simp add: P_def)
    fix i s assume i: "i < length (enumerate 0 ids)" and P: "P i s"
    obtain da la where s: "s = (da, la)" by force
    from P have da: "length da = 112 * B" "slots B da = (V @ map (vec_of vectors) (take i ids)) @ replicate (r - i) z"
      and la: "la = (L @ map (\<lambda>i. src ! i) (take i ids)) @ replicate (r - i) 0"
      by (auto simp: P_def s)
    have i': "i < length ids" using i by simp
    define p where "p = 8 * start + i"
    have p: "p < 8 * B" "p div 8 = start + i div 8" "p mod 8 = i mod 8"
      using i' fits lenB by (auto simp: p_def)
    have ok: "ids ! i * 14 + 14 \<le> length vectors" "ids ! i < length src"
      using ids i' by auto
    obtain da' where da': "write_lane (start + i div 8) (i mod 8) (vec_of vectors (ids ! i)) da = Some da'"
      "length da' = 112 * B" "slots B da' = (slots B da)[p := vec_of vectors (ids ! i)]"
      using write_lane_slots [OF da(1) length_vec_of [OF ok(1)] p(1)] p by auto
    have 1: "slots B da' = (V @ map (vec_of vectors) (take (Suc i) ids)) @ replicate (r - Suc i) z"
      unfolding da'(3) da(2) using i' fits data(3)
      by (subst list_update_append_replicate) (auto simp: p_def take_Suc_conv_app_nth)
    have bl: "(start + i div 8) * 8 + i mod 8 = p" by (simp add: p_def)
    have 2: "la[p := src ! (ids ! i)] = (L @ map (\<lambda>i. src ! i) (take (Suc i) ids)) @ replicate (r - Suc i) 0"
      unfolding la using i' fits labs(2)
      by (subst list_update_append_replicate) (auto simp: p_def take_Suc_conv_app_nth)
    have lp: "p < length la" using la i' fits labs(2) by (simp add: p_def)
    show "\<exists>s'. (case enumerate 0 ids ! i of (i, v_id) \<Rightarrow> \<lambda>(data, labels). do {
         let b = start + i div 8;
         let lane = i mod 8;
         v \<leftarrow> vector_at vectors v_id;
         data' \<leftarrow> write_lane b lane v data;
         l \<leftarrow> get src v_id;
         labels' \<leftarrow> put labels (b * 8 + lane) l;
         Some (data', labels')
       }) s = Some s' \<and> P (Suc i) s'"
      using 1 2 da' ok lp i'
      unfolding s nth_enumerate_eq [OF i'] prod.case Let_def add_0 bl
      by (simp add: vector_at_Some get_Some put_Some P_def)
  qed
  then show ?thesis by (auto simp: P_def)
qed

lemma pad_block_slots:
  assumes data: "length data = 112 * B" "slots B data = V @ replicate r z" "length V = 8 * start + n"
    and fits: "padn n \<le> r"
  shows "\<exists>data'. pad_block start n data = Some data' \<and> length data' = 112 * B \<and>
    slots B data' = V @ replicate (padn n) phantom @ replicate (r - padn n) z"
proof (cases "n mod 8 = 0")
  case True
  then show ?thesis using data by (simp add: pad_block_def padn_def)
next
  case False
  define u where "u = n mod 8"
  have u: "0 < u" "u < 8" "padn n = 8 - u" using False by (simp_all add: u_def padn_def)
  have lenB: "8 * start + n + r = 8 * B" using arg_cong [OF data(2), of length] data(3) by simp
  define P where "P i data' \<longleftrightarrow> length data' = 112 * B \<and>
    slots B data' = (V @ replicate i phantom) @ replicate (r - i) z" for i data'
  have "\<exists>s'. ofold (\<lambda>lane. write_lane (start + n div 8) lane phantom) [u..<8] data = Some s' \<and> P (length [u..<8]) s'"
  proof (rule ofold_prefix_rule)
    show "P 0 data" using data by (simp add: P_def)
    fix i s assume i: "i < length [u..<8]" and P: "P i s"
    define p where "p = 8 * start + n + i"
    have n: "n = 8 * (n div 8) + u" by (simp add: u_def)
    have "p = 8 * (start + n div 8) + (u + i)" using n by (simp add: p_def algebra_simps)
    moreover have "u + i < 8" using i by simp
    ultimately have p: "p div 8 = start + n div 8" "p mod 8 = u + i" using div_mod_8 by blast+
    have lt: "p < 8 * B" using i lenB fits u by (simp add: p_def)
    obtain s' where "write_lane (p div 8) (p mod 8) phantom s = Some s'" "length s' = 112 * B"
      "slots B s' = (slots B s)[p := phantom]"
      using write_lane_slots [OF _ length_phantom lt, of s] P by (auto simp: P_def)
    moreover have "(slots B s)[p := phantom] = (V @ replicate (Suc i) phantom) @ replicate (r - Suc i) z"
    proof -
      have "slots B s = (V @ replicate i phantom) @ replicate (r - i) z" using P by (simp add: P_def)
      moreover have "length (V @ replicate i phantom) = p" using data(3) by (simp add: p_def)
      moreover have "0 < r - i" using i fits u by simp
      ultimately show ?thesis
        by (simp add: list_update_append_replicate del: append_assoc) (simp add: replicate_append_same flip: replicate_Suc)
    qed
    ultimately show "\<exists>s'. write_lane (start + n div 8) ([u..<8] ! i) phantom s = Some s' \<and> P (Suc i) s'"
      using i p by (simp add: P_def)
  qed
  then show ?thesis using u False by (auto simp: pad_block_def u_def [symmetric] Let_def P_def)
qed

subsection \<open>Buckets and offsets\<close>

lemma bucket_ids_eq:
  assumes "length assign = n" "\<forall>a \<in> set assign. unat a < K" "n < 2 ^ 32"
  shows "bucket_ids K assign n = Some (map (\<lambda>c. filter (\<lambda>i. unat (assign ! i) = c) [0..<n]) [0..<K])"
proof -
  have n: "unat (of_nat n :: u32) = n" using assms(3) by simp
  have "\<exists>s'. bucket_ids K assign n = Some s' \<and>
    s' = map (\<lambda>c. filter (\<lambda>i. unat (assign ! i) = c) [0..<length [0..<n]]) [0..<K]"
    unfolding bucket_ids_def n
  proof (rule ofold_prefix_rule)
    show "replicate K [] = map (\<lambda>c. filter (\<lambda>i. unat (assign ! i) = c) [0..<0]) [0..<K]"
      by (simp add: map_replicate_const)
    fix i s assume i: "i < length [0..<n]" and s: "s = map (\<lambda>c. filter (\<lambda>i. unat (assign ! i) = c) [0..<i]) [0..<K]"
    have c: "unat (assign ! i) < K" using assms(1,2) i by simp
    show "\<exists>s'. do { c \<leftarrow> get assign ([0..<n] ! i); b \<leftarrow> get s (unat c); put s (unat c) (b @ [[0..<n] ! i]) } = Some s' \<and>
      s' = map (\<lambda>c. filter (\<lambda>i. unat (assign ! i) = c) [0..<Suc i]) [0..<K]"
      using i c assms(1) by (auto simp: get_Some put_Some s nth_list_update intro!: nth_equalityI)
  qed
  then show ?thesis by simp
qed

definition nblocks :: "'a list \<Rightarrow> nat" where
  "nblocks ids = (length ids + 7) div 8"

definition block_start :: "'a list list \<Rightarrow> nat \<Rightarrow> nat" where
  "block_start bs c = (\<Sum>j<c. nblocks (bs ! j))"

lemma cluster_offsets_eq:
  "cluster_offsets bs = (map (\<lambda>c. of_nat (block_start bs c)) [0..<length bs], of_nat (block_start bs (length bs)))"
proof (induction bs rule: rev_induct)
  case Nil
  then show ?case by (simp add: cluster_offsets_def block_start_def)
next
  case (snoc ids bs)
  have "block_start (bs @ [ids]) c = block_start bs c" if "c \<le> length bs" for c
    using that by (auto simp: block_start_def nth_append intro!: sum.cong)
  moreover have "cluster_offsets (bs @ [ids]) =
    (fst (cluster_offsets bs) @ [snd (cluster_offsets bs)], snd (cluster_offsets bs) + of_nat (nblocks ids))"
    by (simp add: cluster_offsets_def nblocks_def split_beta)
  ultimately show ?case
    using snoc by (auto simp: block_start_def nth_append intro!: sum.cong)
qed

lemma nblocks_le: "nblocks ids \<le> length ids"
  by (cases ids) (auto simp: nblocks_def)

lemma sum_filter_length:
  "(\<forall>x \<in> set xs. f x < K) \<Longrightarrow> (\<Sum>c<K. length (filter (\<lambda>x. f x = c) xs)) = length xs" for f :: "'a \<Rightarrow> nat"
proof (induction xs)
  case (Cons x xs)
  have "(\<Sum>c<K. length (filter (\<lambda>y. f y = c) (x # xs))) =
    (\<Sum>c<K. (if c = f x then 1 else 0) + length (filter (\<lambda>y. f y = c) xs))"
    by (rule sum.cong) auto
  with Cons show ?case by (simp add: sum.distrib)
qed simp

lemma block_start_mono: "c \<le> c' \<Longrightarrow> block_start bs c \<le> block_start bs c'"
  unfolding block_start_def by (rule sum_mono2) auto

lemma block_start_Suc: "block_start bs (Suc c) = block_start bs c + nblocks (bs ! c)"
  by (simp add: block_start_def)

subsection \<open>Filling all clusters\<close>

lemma those_map_Some: "(\<And>x. x \<in> set xs \<Longrightarrow> f x = Some (g x)) \<Longrightarrow> those (map f xs) = Some (map g xs)"
  by (induction xs) auto

definition sorted_ids :: "bool \<Rightarrow> i16 list \<Rightarrow> fl list list \<Rightarrow> nat list list \<Rightarrow> nat \<Rightarrow> nat list" where
  "sorted_ids fused vectors centroids buckets c =
     the (sortIDsByCentroidDist fused (buckets ! c) vectors (centroids ! c))"

lemma sortIDs_Some:
  assumes "\<forall>i \<in> set ids. i * 14 + 14 \<le> length vectors"
  shows "\<exists>ids'. sortIDsByCentroidDist fused ids vectors centroid = Some ids' \<and> mset ids' = mset ids"
proof -
  have "those (map (vector_at vectors) ids) = Some (map (vec_of vectors) ids)"
    using assms by (intro those_map_Some) (simp add: vector_at_Some)
  then show ?thesis by (simp add: sortIDsByCentroidDist_def Let_def)
qed

definition padded :: "('a \<Rightarrow> 'b) \<Rightarrow> 'b \<Rightarrow> 'a list \<Rightarrow> 'b list" where
  "padded f pad ids = map f ids @ replicate (padn (length ids)) pad"

lemma length_padded: "length (padded f pad ids) = 8 * nblocks ids"
  by (simp add: padded_def padn_add nblocks_def)

lemma length_concat_padded:
  assumes "\<And>c. c < n \<Longrightarrow> length (g c) = length (bs ! c)"
  shows "length (concat (map (\<lambda>c. padded f pad (g c)) [0..<n])) = 8 * block_start bs n"
  using assms
proof (induction n)
  case (Suc n)
  have "nblocks (g n) = nblocks (bs ! n)" using Suc.prems by (simp add: nblocks_def)
  with Suc show ?case by (simp add: length_padded block_start_Suc)
qed (simp add: block_start_def)

lemma fill_clusters:
  fixes fused :: bool and centroids :: "fl list list" and vectors :: "i16 list" and src :: "u8 list"
  assumes bs: "length bs = K" "block_start bs K = B" "B < 2 ^ 32"
    and ids: "\<forall>ids \<in> set bs. \<forall>i \<in> set ids. i * 14 + 14 \<le> length vectors \<and> i < length src"
    and offs: "offs = map (\<lambda>c. of_nat (block_start bs c)) [0..<K]"
  defines "g \<equiv> sorted_ids fused vectors centroids bs"
  shows "\<exists>data labels. ofold (fill_cluster fused vectors src centroids offs bs) [0..<K]
      (replicate (B * 112) 0, replicate (B * 8) 0) = Some (data, labels) \<and>
    length data = 112 * B \<and>
    slots B data = concat (map (\<lambda>c. padded (vec_of vectors) phantom (g c)) [0..<K]) \<and>
    labels = concat (map (\<lambda>c. padded (\<lambda>i. src ! i) 0 (g c)) [0..<K]) \<and>
    (\<forall>c<K. mset (g c) = mset (bs ! c))"
proof -
  define z :: "i16 list" where "z = replicate 14 0"
  have g: "sortIDsByCentroidDist fused (bs ! c) vectors (centroids ! c) = Some (g c) \<and> mset (g c) = mset (bs ! c)"
    if "c < K" for c
    using sortIDs_Some [of "bs ! c" vectors fused "centroids ! c"] ids bs(1) that
    by (fastforce simp: g_def sorted_ids_def)
  then have lg: "length (g c) = length (bs ! c)" if "c < K" for c by (metis that size_mset)
  define P where "P n = (\<lambda>(data :: i16 list, labels :: u8 list). length data = 112 * B \<and>
    slots B data = concat (map (\<lambda>c. padded (vec_of vectors) phantom (g c)) [0..<n]) @
      replicate (8 * B - 8 * block_start bs n) z \<and>
    labels = concat (map (\<lambda>c. padded (\<lambda>i. src ! i) 0 (g c)) [0..<n]) @
      replicate (8 * B - 8 * block_start bs n) 0)" for n
  have "\<exists>s'. ofold (fill_cluster fused vectors src centroids offs bs) [0..<K]
      (replicate (B * 112) 0, replicate (B * 8) 0) = Some s' \<and> P (length [0..<K]) s'"
  proof (rule ofold_prefix_rule)
    show "P 0 (replicate (B * 112) 0, replicate (B * 8) 0)"
      by (simp add: P_def slots_init z_def block_start_def mult.commute)
    fix n s assume n: "n < length [0..<K]" and P: "P n s"
    obtain da la where s: "s = (da, la)" by force
    have nK: "n < K" using n by simp
    define V where "V = concat (map (\<lambda>c. padded (vec_of vectors) phantom (g c)) [0..<n])"
    define L where "L = concat (map (\<lambda>c. padded (\<lambda>i. src ! i) (0::u8) (g c)) [0..<n])"
    define r where "r = 8 * B - 8 * block_start bs n"
    have VL: "length V = 8 * block_start bs n" "length L = 8 * block_start bs n"
      unfolding V_def L_def by (rule length_concat_padded; use lg nK in simp)+
    have da: "length da = 112 * B" "slots B da = V @ replicate r z" and la: "la = L @ replicate r 0"
      using P by (simp_all add: P_def s V_def L_def r_def)
    have le: "block_start bs n + nblocks (bs ! n) \<le> B"
      using block_start_mono [of "Suc n" K bs] bs(2) nK by (simp add: block_start_Suc)
    have start: "unat (offs ! n) = block_start bs n"
      using offs nK le bs(3) by simp
    have len_g: "length (g n) + padn (length (bs ! n)) = 8 * nblocks (bs ! n)"
      using lg [OF nK] padn_add [of "length (bs ! n)"] by (simp add: nblocks_def)
    show "\<exists>s'. fill_cluster fused vectors src centroids offs bs ([0..<K] ! n) s = Some s' \<and> P (Suc n) s'"
    proof (cases "bs ! n = []")
      case True
      then have "g n = []" using lg [OF nK] by simp
      with True P nK show ?thesis
        by (simp add: fill_cluster_def P_def s padded_def padn_def block_start_Suc nblocks_def)
    next
      case False
      have ids': "\<forall>i \<in> set (g n). i * 14 + 14 \<le> length vectors \<and> i < length src"
        using g [OF nK] ids bs(1) nK by (metis mset_eq_setD nth_mem)
      have fits: "length (g n) \<le> r" "padn (length (bs ! n)) \<le> r - length (g n)"
        using len_g le by (auto simp: r_def)
      obtain da1 la1 where w: "write_members vectors src (block_start bs n) (g n) (da, la) = Some (da1, la1)"
        "length da1 = 112 * B" "slots B da1 = V @ map (vec_of vectors) (g n) @ replicate (r - length (g n)) z"
        "la1 = L @ map (\<lambda>i. src ! i) (g n) @ replicate (r - length (g n)) 0"
        using write_members_slots [OF da VL(1) la VL(2) fits(1) ids'] by blast
      have V1: "slots B da1 = (V @ map (vec_of vectors) (g n)) @ replicate (r - length (g n)) z"
        "length (V @ map (vec_of vectors) (g n)) = 8 * block_start bs n + length (bs ! n)"
        using w(3) VL lg [OF nK] by simp_all
      obtain da2 where p: "pad_block (block_start bs n) (length (bs ! n)) da1 = Some da2"
        "length da2 = 112 * B"
        "slots B da2 = (V @ map (vec_of vectors) (g n)) @ replicate (padn (length (bs ! n))) phantom @
           replicate (r - length (g n) - padn (length (bs ! n))) z"
        using pad_block_slots [OF w(2) V1 fits(2)] by blast
      have rest: "r - length (g n) - padn (length (bs ! n)) = 8 * B - 8 * block_start bs (Suc n)"
        using len_g by (simp add: r_def block_start_Suc)
      have rest0: "replicate (r - length (g n)) (0::u8) =
        replicate (padn (length (bs ! n))) 0 @ replicate (8 * B - 8 * block_start bs (Suc n)) 0"
        using fits(2) rest by (simp flip: replicate_add)
      have "P (Suc n) (da2, la1)"
        using p w(4) rest rest0 lg [OF nK] by (simp add: P_def V_def L_def padded_def)
      then show ?thesis
        using False nK g [OF nK] w(1) p(1) by (simp add: fill_cluster_def s start)
    qed
  qed
  then show ?thesis using bs(2) g by (auto simp: P_def)
qed

subsection \<open>Bounding boxes\<close>

definition in_box :: "i16 list \<Rightarrow> i16 list \<Rightarrow> i16 list \<Rightarrow> bool" where
  "in_box mn mx v \<longleftrightarrow> (\<forall>d<14. sint (mn ! d) \<le> sint (v ! d) \<and> sint (v ! d) \<le> sint (mx ! d))"

lemma bbox_step_box:
  "length (fst (bbox_step v box)) = 14 \<and> length (snd (bbox_step v box)) = 14 \<and>
   in_box (fst (bbox_step v box)) (snd (bbox_step v box)) v"
  by (auto simp: bbox_step_def split_beta in_box_def)

lemma bbox_step_grows:
  "in_box (fst box) (snd box) w \<Longrightarrow> in_box (fst (bbox_step v box)) (snd (bbox_step v box)) w"
  by (auto simp: bbox_step_def split_beta in_box_def)

lemma cluster_bbox_ok:
  assumes "\<forall>i \<in> set ids. i * 14 + 14 \<le> length vectors"
  shows "\<exists>mn mx. cluster_bbox vectors ids = Some (mn, mx) \<and> length mn = 16 \<and> length mx = 16 \<and>
    (\<forall>i \<in> set ids. in_box mn mx (vec_of vectors i))"
proof (cases "ids = []")
  case True
  then show ?thesis by (simp add: cluster_bbox_def)
next
  case False
  define P where "P n = (\<lambda>box. length (fst box) = 14 \<and> length (snd box) = 14 \<and>
    (\<forall>i \<in> set (take n ids). in_box (fst box) (snd box) (vec_of vectors i)))" for n :: nat
  have "\<exists>box. ofold (\<lambda>i box. do { v \<leftarrow> vector_at vectors i; Some (bbox_step v box) }) ids
      (replicate 14 32767, replicate 14 (- 32768)) = Some box \<and> P (length ids) box"
  proof (rule ofold_prefix_rule)
    show "P 0 (replicate 14 32767, replicate 14 (- 32768))" by (simp add: P_def)
    fix n box assume n: "n < length ids" and P: "P n box"
    have "ids ! n * 14 + 14 \<le> length vectors" using assms n by simp
    then show "\<exists>box'. do { v \<leftarrow> vector_at vectors (ids ! n); Some (bbox_step v box) } = Some box' \<and> P (Suc n) box'"
      using P n bbox_step_box bbox_step_grows
      by (auto simp: P_def vector_at_Some take_Suc_conv_app_nth)
  qed
  then obtain mn mx where "ofold (\<lambda>i box. do { v \<leftarrow> vector_at vectors i; Some (bbox_step v box) }) ids
      (replicate 14 32767, replicate 14 (- 32768)) = Some (mn, mx)"
    "length mn = 14" "length mx = 14" "\<forall>i \<in> set ids. in_box mn mx (vec_of vectors i)"
    by (auto simp: P_def)
  then show ?thesis using False by (auto simp: cluster_bbox_def in_box_def nth_append)
qed

subsection \<open>Radii\<close>

definition slot_diffs :: "fl list \<Rightarrow> i16 list \<Rightarrow> fl list" where
  "slot_diffs centroid v = map (\<lambda>d. fsub F32 (fl_of_int F32 (sint (v ! d))) (centroid ! d)) [0..<14]"

lemma member_dist_sq_eq:
  assumes "b * 112 + 112 \<le> length data" "lane < 8"
  shows "member_dist_sq fused centroid data b lane =
    Some (sqacc fused (slot_diffs centroid (slot_vec data (b * 8 + lane))) (Fin 0))"
proof -
  define g where "g d s = (let diff = fsub F32 (fl_of_int F32 (sint (slot_vec data (b * 8 + lane) ! d))) (centroid ! d)
      in fmac fused F32 s diff diff)" for d s
  have "member_dist_sq fused centroid data b lane = Some (fold g [0..<14] (Fin 0)) \<and> True"
    unfolding member_dist_sq_def
  proof (rule ofold_eq_fold [where P = "\<lambda>_. True"])
    fix d s assume "d \<in> set [0..<14]"
    then have "d < 14" "b * 112 + d * 8 + lane < length data"
      using assms slot_index_less [of b "Suc b" d lane] by auto
    then show "do { w \<leftarrow> get data (b * 112 + d * 8 + lane);
         let diff = fsub F32 (fl_of_int F32 (sint w)) (centroid ! d);
         Some (fmac fused F32 s diff diff) } = Some (g d s) \<and> True"
      using assms by (simp add: get_Some g_def slot_vec_def Let_def)
  qed simp
  moreover have "fold g [0..<14] (Fin 0) = sqacc fused (slot_diffs centroid (slot_vec data (b * 8 + lane))) (Fin 0)"
    by (simp add: sqacc_def slot_diffs_def fold_map g_def [abs_def] Let_def comp_def)
  ultimately show ?thesis by simp
qed

definition max_fl :: "fl list \<Rightarrow> fl" where
  "max_fl xs = fold (\<lambda>s m. if flt m s then s else m) xs (Fin 0)"

lemma upt_mult_8: "concat (map (\<lambda>b. map (\<lambda>lane. b * 8 + lane) [0..<8]) [s..<e]) = [8 * s..<8 * e]"
proof (cases "s \<le> e")
  case True
  then show ?thesis
  proof (induction e rule: dec_induct)
    case (step e)
    have "map (\<lambda>lane. e * 8 + lane) [0..<8] = [8 * e..<8 * e + 8]"
      by (rule nth_equalityI) auto
    then have "concat (map (\<lambda>b. map (\<lambda>lane. b * 8 + lane) [0..<8]) [s..<Suc e]) = [8 * s..<8 * e] @ [8 * e..<8 * e + 8]"
      using step by simp
    also have "\<dots> = [8 * s..<8 * Suc e]"
      using step.hyps upt_add_eq_append [of "8 * s" "8 * e" 8] by (simp add: add.commute)
    finally show ?case .
  qed simp
qed simp

lemma max_dist_sq_eq:
  assumes "e * 112 \<le> length data"
  shows "max_dist_sq fused centroid data s e =
    Some (max_fl (map (\<lambda>p. sqacc fused (slot_diffs centroid (slot_vec data p)) (Fin 0)) [8 * s..<8 * e]))"
proof -
  define h where "h p m = (let s = sqacc fused (slot_diffs centroid (slot_vec data p)) (Fin 0) in if flt m s then s else m)" for p m
  define gl where "gl b m = fold (\<lambda>lane. h (b * 8 + lane)) [0..<8] m" for b m
  have inner: "ofold (\<lambda>lane m. do {
         s \<leftarrow> member_dist_sq fused centroid data b lane;
         Some (if flt m s then s else m)
       }) [0..<8] m = Some (gl b m) \<and> True" if "b < e" for b m
    unfolding gl_def
  proof (rule ofold_eq_fold [where P = "\<lambda>_. True"])
    fix lane m assume "lane \<in> set [0..<8]"
    moreover have "b * 112 + 112 \<le> length data" using that assms by linarith
    ultimately show "do { s \<leftarrow> member_dist_sq fused centroid data b lane; Some (if flt m s then s else m) } =
        Some (h (b * 8 + lane) m) \<and> True"
      by (simp add: member_dist_sq_eq h_def Let_def)
  qed simp
  have dist: "max_dist_sq fused centroid data s e = Some (fold gl [s..<e] (Fin 0)) \<and> True"
    unfolding max_dist_sq_def
    by (rule ofold_eq_fold [where P = "\<lambda>_. True"]) (use inner in auto)
  have "fold gl bs m = fold h (concat (map (\<lambda>b. map (\<lambda>lane. b * 8 + lane) [0..<8]) bs)) m" for bs m
    by (induction bs arbitrary: m) (simp_all add: gl_def fold_map comp_def)
  from this [of "[s..<e]" "Fin 0"] have "fold gl [s..<e] (Fin 0) = fold h [8 * s..<8 * e] (Fin 0)"
    unfolding upt_mult_8 .
  moreover have "max_fl (map (\<lambda>p. sqacc fused (slot_diffs centroid (slot_vec data p)) (Fin 0)) ps) = fold h ps (Fin 0)" for ps
    by (simp add: max_fl_def fold_map comp_def h_def [abs_def] Let_def)
  ultimately show ?thesis using dist by simp
qed

subsection \<open>Well-formed indexes\<close>

definition off :: "IVFIndex \<Rightarrow> nat \<Rightarrow> nat" where
  "off idx c = unat (Offsets idx ! c)"

definition cslots :: "IVFIndex \<Rightarrow> nat \<Rightarrow> nat list" where
  \<comment> \<open>the slots of one cluster, in scan order\<close>
  "cslots idx c = [8 * off idx c..<8 * off idx (Suc c)]"

definition slot_entry :: "IVFIndex \<Rightarrow> nat \<Rightarrow> i16 list \<times> u8" where
  "slot_entry idx p = (slot_vec (BlockData idx) p, Labels idx ! p)"

definition quantized :: "i16 list \<Rightarrow> bool" where
  "quantized v \<longleftrightarrow> length v = 14 \<and> (\<forall>d<14. \<bar>sint (v ! d)\<bar> \<le> 10000)"

definition centroid_ok :: "fl \<Rightarrow> bool" where
  "centroid_ok x \<longleftrightarrow> (\<exists>r. x = Fin r \<and> \<bar>r\<bar> \<le> 10000)"

definition cval :: "IVFIndex \<Rightarrow> nat \<Rightarrow> nat \<Rightarrow> real" where
  "cval idx c d = fval (Centroids idx ! (d * unat (ixK idx) + c))"

definition shape_ok :: "IVFIndex \<Rightarrow> bool" where
  \<comment> \<open>what the slices' lengths and the offsets must satisfy\<close>
  "shape_ok idx \<longleftrightarrow>
     0 < unat (ixK idx) \<and> length (Centroids idx) = 14 * unat (ixK idx) \<and>
     length (Offsets idx) = unat (ixK idx) + 1 \<and> off idx 0 = 0 \<and>
     (\<forall>c < unat (ixK idx). off idx c \<le> off idx (Suc c)) \<and> off idx (unat (ixK idx)) = unat (ixBlocks idx) \<and>
     length (BboxMin idx) = 16 * unat (ixK idx) \<and> length (BboxMax idx) = 16 * unat (ixK idx) \<and>
     length (Labels idx) = 8 * unat (ixBlocks idx) \<and> length (BlockData idx) = 112 * unat (ixBlocks idx)"

definition bbox_of :: "i16 list \<Rightarrow> nat \<Rightarrow> i16 list" where
  "bbox_of xs c = take 16 (drop (c * 16) xs)"

definition member_ok :: "IVFIndex \<Rightarrow> nat \<Rightarrow> nat \<Rightarrow> bool" where
  "member_ok idx c p \<longleftrightarrow> quantized (fst (slot_entry idx p)) \<and> snd (slot_entry idx p) \<le> 1 \<and>
     in_box (bbox_of (BboxMin idx) c) (bbox_of (BboxMax idx) c) (fst (slot_entry idx p))"

definition cluster_ok :: "IVFIndex \<Rightarrow> nat \<Rightarrow> bool" where
  "cluster_ok idx c \<longleftrightarrow>
     (\<forall>p \<in> set (cslots idx c). member_ok idx c p \<or> slot_entry idx p = (phantom, 0)) \<and>
     (cslots idx c \<noteq> [] \<longrightarrow> member_ok idx c (hd (cslots idx c)))"

definition wf_index :: "IVFIndex \<Rightarrow> bool" where
  "wf_index idx \<longleftrightarrow> shape_ok idx \<and> (\<forall>x \<in> set (Centroids idx). centroid_ok x) \<and>
     (\<exists>fused. ComputeRadii fused idx = Some idx) \<and> (\<forall>c < unat (ixK idx). cluster_ok idx c)"

definition members :: "IVFIndex \<Rightarrow> (i16 list \<times> u8) list" where
  \<comment> \<open>the vectors the index holds, padding left out\<close>
  "members idx = filter (\<lambda>e. fst e \<noteq> phantom)
     (concat (map (\<lambda>c. map (slot_entry idx) (cslots idx c)) [0..<unat (ixK idx)]))"

lemma off_mono:
  assumes "shape_ok idx" "c \<le> c'" "c' \<le> unat (ixK idx)"
  shows "off idx c \<le> off idx c'"
  using assms(2,3)
proof (induction c' rule: dec_induct)
  case (step n)
  then show ?case using assms(1) by (auto simp: shape_ok_def intro: order_trans)
qed simp

lemma off_le_blocks: "shape_ok idx \<Longrightarrow> c \<le> unat (ixK idx) \<Longrightarrow> off idx c \<le> unat (ixBlocks idx)"
  using off_mono [of idx c "unat (ixK idx)"] by (simp add: shape_ok_def)

lemma max_fl_bounds:
  assumes "\<forall>x \<in> set xs. \<exists>s. x = Fin s \<and> 0 \<le> s \<and> s \<le> B" "0 \<le> B"
  shows "\<exists>m. max_fl xs = Fin m \<and> 0 \<le> m \<and> m \<le> B \<and> (\<forall>s. Fin s \<in> set xs \<longrightarrow> s \<le> m)"
proof -
  have "\<exists>m. fold (\<lambda>s m. if flt m s then s else m) xs (Fin m0) = Fin m \<and> 0 \<le> m \<and> m \<le> B \<and> m0 \<le> m \<and>
      (\<forall>s. Fin s \<in> set xs \<longrightarrow> s \<le> m)" if "0 \<le> m0" "m0 \<le> B" for m0
    using assms(1) that
  proof (induction xs arbitrary: m0)
    case (Cons x xs)
    then obtain s where s: "x = Fin s" "0 \<le> s" "s \<le> B" by auto
    have "\<exists>m. fold (\<lambda>s m. if flt m s then s else m) xs (Fin (max m0 s)) = Fin m \<and> 0 \<le> m \<and> m \<le> B \<and>
        max m0 s \<le> m \<and> (\<forall>s. Fin s \<in> set xs \<longrightarrow> s \<le> m)"
      using Cons.prems s by (intro Cons.IH) auto
    then show ?case using s by (fastforce simp: max_def)
  qed auto
  from this [of 0] assms(2) show ?thesis by (auto simp: max_fl_def)
qed

lemma slot_diffs_fdiffs:
  assumes "\<forall>d<14. centroid ! d = Fin (cr d)"
  shows "slot_diffs centroid v = fdiffs (\<lambda>d. of_int (sint (v ! d))) cr [0..<14]"
proof -
  have "fl_of_int F32 (sint w) = Fin (of_int (sint w))" for w :: i16
    using i16_range [of w] by (intro fl_of_int_exact) auto
  then show ?thesis using assms by (simp add: slot_diffs_def fdiffs_def)
qed

lemma those_centroid:
  assumes "shape_ok idx" "\<forall>x \<in> set (Centroids idx). centroid_ok x" "c < unat (ixK idx)"
  shows "those (map (\<lambda>d. get (Centroids idx) (d * unat (ixK idx) + c)) [0..<14]) =
      Some (map (\<lambda>d. Fin (cval idx c d)) [0..<14])"
    and "d < 14 \<Longrightarrow> \<bar>cval idx c d\<bar> \<le> 10000"
    and "d < 14 \<Longrightarrow> Centroids idx ! (d * unat (ixK idx) + c) = Fin (cval idx c d)"
    and "d < 14 \<Longrightarrow> d * unat (ixK idx) + c < length (Centroids idx)"
proof -
  have lt: "d * unat (ixK idx) + c < length (Centroids idx)" if "d < 14" for d
  proof -
    have "d * unat (ixK idx) + c < (d + 1) * unat (ixK idx)" using assms(3) by simp
    also have "\<dots> \<le> 14 * unat (ixK idx)" using that by (intro mult_right_mono) auto
    finally show ?thesis using assms(1) by (simp add: shape_ok_def)
  qed
  then show "d < 14 \<Longrightarrow> d * unat (ixK idx) + c < length (Centroids idx)" .
  have ok: "Centroids idx ! (d * unat (ixK idx) + c) = Fin (cval idx c d) \<and> \<bar>cval idx c d\<bar> \<le> 10000" if "d < 14" for d
    using assms(2) lt [OF that] by (force simp: centroid_ok_def cval_def dest: nth_mem)
  then show "d < 14 \<Longrightarrow> \<bar>cval idx c d\<bar> \<le> 10000"
    "d < 14 \<Longrightarrow> Centroids idx ! (d * unat (ixK idx) + c) = Fin (cval idx c d)" by auto
  show "those (map (\<lambda>d. get (Centroids idx) (d * unat (ixK idx) + c)) [0..<14]) =
      Some (map (\<lambda>d. Fin (cval idx c d)) [0..<14])"
    using lt ok by (intro those_map_Some) (simp add: get_Some)
qed

definition ivec :: "i16 list \<Rightarrow> nat \<Rightarrow> real" where
  "ivec v d = of_int (sint (v ! d))"

lemma ivec_le: "\<bar>ivec v d\<bar> \<le> 32768"
proof -
  have "\<bar>sint (v ! d)\<bar> \<le> 32768" using i16_range [of "v ! d"] by linarith
  then show ?thesis unfolding ivec_def by (metis of_int_abs of_int_le_iff of_int_numeral)
qed

lemma cluster_radius_eq:
  assumes "shape_ok idx" "\<forall>x \<in> set (Centroids idx). centroid_ok x" "c < unat (ixK idx)"
  shows "cluster_radius fused idx c = Some (if off idx c = off idx (Suc c) then Fin 0 else
    sqrt32 (max_fl (map (\<lambda>p. sqacc fused (fdiffs (ivec (slot_vec (BlockData idx) p)) (cval idx c) [0..<14]) (Fin 0))
      (cslots idx c))))"
proof -
  have g: "get (Offsets idx) c = Some (Offsets idx ! c)" "get (Offsets idx) (Suc c) = Some (Offsets idx ! Suc c)"
    using assms(1,3) by (simp_all add: get_Some shape_ok_def)
  have "off idx (Suc c) * 112 \<le> length (BlockData idx)"
    using off_le_blocks [OF assms(1), of "Suc c"] assms(1,3) by (simp add: shape_ok_def)
  note m = max_dist_sq_eq [OF this, of fused _ "off idx c"]
  have sd: "slot_diffs (map (\<lambda>d. Fin (cval idx c d)) [0..<14]) v = fdiffs (ivec v) (cval idx c) [0..<14]" for v
    using slot_diffs_fdiffs [of "map (\<lambda>d. Fin (cval idx c d)) [0..<14]" "cval idx c" v]
    by (simp add: ivec_def [abs_def])
  have e: "Offsets idx ! c = Offsets idx ! Suc c \<longleftrightarrow> off idx c = off idx (Suc c)"
    by (simp add: off_def word_unat_eq_iff)
  show ?thesis
    unfolding cluster_radius_def Suc_eq_plus1 [symmetric] g those_centroid(1) [OF assms]
    using m [of "map (\<lambda>d. Fin (cval idx c d)) [0..<14]"]
    by (auto simp: e sd cslots_def simp flip: off_def)
qed

lemma ComputeRadii_eq:
  assumes "shape_ok idx" "\<forall>x \<in> set (Centroids idx). centroid_ok x"
  shows "ComputeRadii fused idx = Some (idx\<lparr>Radii := map (\<lambda>c. the (cluster_radius fused idx c)) [0..<unat (ixK idx)]\<rparr>)"
proof -
  have "those (map (cluster_radius fused idx) [0..<unat (ixK idx)]) =
    Some (map (\<lambda>c. the (cluster_radius fused idx c)) [0..<unat (ixK idx)])"
    by (intro those_map_Some) (use cluster_radius_eq [OF assms] in simp)
  then show ?thesis by (simp add: ComputeRadii_def)
qed

text \<open>The computed radius is, up to rounding, at least the distance of every slot.\<close>

lemma radius_bound:
  assumes "shape_ok idx" "\<forall>x \<in> set (Centroids idx). centroid_ok x" "ComputeRadii fused idx = Some idx"
    and c: "c < unat (ixK idx)" and ne: "cslots idx c \<noteq> []"
  shows "\<exists>t. c < length (Radii idx) \<and> Radii idx ! c = Fin t \<and> 0 \<le> t \<and> t \<le> 2 ^ 60 \<and>
    (\<forall>p \<in> set (cslots idx c).
       sqrt (ssd (ivec (slot_vec (BlockData idx) p)) (cval idx c)) * (1 - 13 * eps) - 1 / 2 ^ 50 \<le> t)"
proof -
  define f where "f p = sqacc fused (fdiffs (ivec (slot_vec (BlockData idx) p)) (cval idx c) [0..<14]) (Fin 0)" for p
  have "idx = idx\<lparr>Radii := map (\<lambda>c. the (cluster_radius fused idx c)) [0..<unat (ixK idx)]\<rparr>"
    using assms(3) ComputeRadii_eq [OF assms(1,2), of fused] by simp
  then have R: "Radii idx = map (\<lambda>c. the (cluster_radius fused idx c)) [0..<unat (ixK idx)]"
    by (metis IVFIndex.select_convs(8) IVFIndex.surjective IVFIndex.update_convs(8))
  have "off idx c \<noteq> off idx (Suc c)" using ne by (auto simp: cslots_def)
  then have Rc: "c < length (Radii idx)" "Radii idx ! c = sqrt32 (max_fl (map f (cslots idx c)))"
    using c cluster_radius_eq [OF assms(1,2) c, of fused] by (simp_all add: R f_def [abs_def])
  have d: "\<exists>s. f p = Fin s \<and> 0 \<le> s \<and> s \<le> 2 ^ 60 \<and>
    sqrt (ssd (ivec (slot_vec (BlockData idx) p)) (cval idx c)) * (1 - 9 * eps) - 1 / 2 ^ 52 \<le> sqrt s" for p
  proof -
    have "\<bar>ivec v d - cval idx c d\<bar> \<le> 2 ^ 20" if "d < 14" for v d
      using ivec_le [of v d] those_centroid(2) [OF assms(1,2) c that] by simp
    from sqacc_dist [of "ivec (slot_vec (BlockData idx) p)" "cval idx c" fused, OF this]
    show ?thesis by (auto simp: f_def)
  qed
  then obtain m where m: "max_fl (map f (cslots idx c)) = Fin m" "0 \<le> m" "m \<le> 2 ^ 60"
    "\<forall>s. Fin s \<in> set (map f (cslots idx c)) \<longrightarrow> s \<le> m"
    using max_fl_bounds [of "map f (cslots idx c)" "2 ^ 60"] by fastforce
  obtain t where t: "sqrt32 (Fin m) = Fin t" "0 \<le> t" "t \<le> 2 ^ 60" "sqrt m * (1 - 3 * eps) - 1 / 2 ^ 60 \<le> t"
    using sqrt32_near [OF m(2,3)] by blast
  have "sqrt (ssd (ivec (slot_vec (BlockData idx) p)) (cval idx c)) * (1 - 13 * eps) - 1 / 2 ^ 50 \<le> t"
    if p: "p \<in> set (cslots idx c)" for p
  proof -
    define q where "q = sqrt (ssd (ivec (slot_vec (BlockData idx) p)) (cval idx c))"
    obtain s where s: "f p = Fin s" "0 \<le> s" "q * (1 - 9 * eps) - 1 / 2 ^ 52 \<le> sqrt s"
      using d [of p] by (auto simp: q_def)
    have "s \<le> m" using m(4) p s(1) by (metis image_eqI list.set_map)
    then have "q * (1 - 9 * eps) - 1 / 2 ^ 52 \<le> sqrt m" using s(3) by (meson order_trans real_sqrt_le_iff)
    then have "(q * (1 - 9 * eps) - 1 / 2 ^ 52) * (1 - 3 * eps) \<le> sqrt m * (1 - 3 * eps)"
      by (rule mult_right_mono) (simp add: ulp_F32)
    moreover have "q * (1 - 13 * eps) \<le> q * ((1 - 9 * eps) * (1 - 3 * eps))"
      by (intro mult_left_mono) (simp_all add: ulp_F32 q_def ssd_nonneg)
    moreover have "(q * (1 - 9 * eps) - 1 / 2 ^ 52) * (1 - 3 * eps) = q * ((1 - 9 * eps) * (1 - 3 * eps)) - 1 / 2 ^ 52 * (1 - 3 * eps)"
      by (simp add: algebra_simps)
    moreover have "1 / 2 ^ 52 * (1 - 3 * eps) + 1 / 2 ^ 60 \<le> 1 / 2 ^ 50" by (simp add: ulp_F32)
    ultimately show ?thesis using t(4) unfolding q_def [symmetric] by linarith
  qed
  with Rc m t show ?thesis by auto
qed

subsection \<open>A built index\<close>

definition build_input ::
  "nat \<Rightarrow> u8 list \<Rightarrow> i16 list \<Rightarrow> nat \<Rightarrow> fl list list \<Rightarrow> u16 list \<Rightarrow> bool" where
  "build_input K src vectors n centroids assign \<longleftrightarrow>
     0 < K \<and> K < 65536 \<and> n < 2 ^ 32 \<and> length assign = n \<and> (\<forall>a \<in> set assign. unat a < K) \<and>
     length vectors = n * 14 \<and> (\<forall>x \<in> set vectors. \<bar>sint x\<bar> \<le> 10000) \<and>
     length src = n \<and> (\<forall>l \<in> set src. l \<le> 1) \<and> (\<forall>c<K. \<forall>d<14. centroid_ok (centroids ! c ! d))"

definition labelled :: "i16 list \<Rightarrow> u8 list \<Rightarrow> nat \<Rightarrow> (i16 list \<times> u8) list" where
  \<comment> \<open>the data set as a list of labelled vectors\<close>
  "labelled vectors labels n = map (\<lambda>i. (vec_of vectors i, labels ! i)) [0..<n]"

lemma concat_slice:
  assumes "\<And>c. c < K \<Longrightarrow> length (F c) = 8 * nblocks (bs ! c)" and c: "c < K"
  shows "map (\<lambda>p. concat (map F [0..<K]) ! p) [8 * block_start bs c..<8 * block_start bs (Suc c)] = F c"
proof -
  have len: "n \<le> K \<Longrightarrow> length (concat (map F [0..<n])) = 8 * block_start bs n" for n
    by (induction n) (simp_all add: assms(1) block_start_Suc, simp add: block_start_def)
  have "[0..<K] = [0..<c] @ c # [Suc c..<K]"
    using c by (metis le_add1 less_imp_add_positive upt_add_eq_append upt_conv_Cons zero_le)
  then have "concat (map F [0..<K]) = concat (map F [0..<c]) @ F c @ concat (map F [Suc c..<K])" by simp
  then show ?thesis
    using len [of c] c assms(1) [OF c]
    by (intro nth_equalityI) (auto simp: nth_append block_start_Suc)
qed

lemma zip_padded: "map (\<lambda>i. (f i, g i)) xs @ replicate n (a, b) = zip (map f xs @ replicate n a) (map g xs @ replicate n b)"
  by (simp add: zip_map_map zip_same_conv_map)

lemma slot_vec_slots: "p < 8 * B \<Longrightarrow> slot_vec data p = slots B data ! p"
  by (simp add: slots_def)

lemma phantom_not_quantized: "\<not> quantized phantom"
proof -
  have "sint (phantom ! 0) = 32767" by (simp add: phantom_def)
  then show ?thesis by (force simp: quantized_def)
qed

lemma concat_chunk:
  "(\<forall>x \<in> set xs. length x = k) \<Longrightarrow> c < length xs \<Longrightarrow> take k (drop (c * k) (concat xs)) = xs ! c"
proof (induction xs arbitrary: c)
  case (Cons x xs)
  then show ?case by (cases c) auto
qed simp

lemma length_concat_const: "(\<forall>x \<in> set xs. length x = k) \<Longrightarrow> length (concat xs) = length xs * k"
  by (induction xs) auto

lemma nth_soa:
  assumes "d < 14" "c < K"
  shows "soa_centroids K centroids ! (d * K + c) = centroids ! c ! d"
proof -
  have "take K (drop (d * K) (soa_centroids K centroids)) = map (\<lambda>c. centroids ! c ! d) [0..<K]"
    unfolding soa_centroids_def using assms(1)
    by (subst concat_chunk) auto
  then have "take K (drop (d * K) (soa_centroids K centroids)) ! c = centroids ! c ! d" using assms by simp
  moreover have "length (soa_centroids K centroids) = 14 * K"
    unfolding soa_centroids_def by (subst length_concat_const) auto
  moreover have "d * K \<le> 14 * K" using assms(1) by (intro mult_right_mono) auto
  ultimately show ?thesis using assms(2) by simp
qed

lemma soa_ok:
  assumes "\<forall>c<K. \<forall>d<14. centroid_ok (centroids ! c ! d)"
  shows "length (soa_centroids K centroids) = 14 * K" "\<forall>x \<in> set (soa_centroids K centroids). centroid_ok x"
proof -
  show "length (soa_centroids K centroids) = 14 * K"
    unfolding soa_centroids_def by (subst length_concat_const) auto
  show "\<forall>x \<in> set (soa_centroids K centroids). centroid_ok x"
    using assms by (auto simp: soa_centroids_def)
qed

lemma Radii_irrelevant [simp]:
  "shape_ok (idx\<lparr>Radii := rs\<rparr>) = shape_ok idx"
  "cluster_ok (idx\<lparr>Radii := rs\<rparr>) c = cluster_ok idx c"
  "members (idx\<lparr>Radii := rs\<rparr>) = members idx"
  "cluster_radius fused (idx\<lparr>Radii := rs\<rparr>) c = cluster_radius fused idx c"
  by (simp_all add: shape_ok_def off_def cluster_ok_def member_ok_def slot_entry_def cslots_def members_def
      cluster_radius_def cong: map_cong if_cong)

lemma cluster_ok_entries:
  assumes e: "map (slot_entry idx) (cslots idx c) = map f xs @ replicate (padn (length xs)) (phantom, 0)"
    and mem: "\<And>i p. i \<in> set xs \<Longrightarrow> slot_entry idx p = f i \<Longrightarrow> member_ok idx c p"
  shows "cluster_ok idx c"
proof -
  have 1: "member_ok idx c p \<or> slot_entry idx p = (phantom, 0)" if p: "p \<in> set (cslots idx c)" for p
  proof -
    have "slot_entry idx p \<in> set (map (slot_entry idx) (cslots idx c))" using p by simp
    then show ?thesis unfolding e using mem by auto
  qed
  have 2: "member_ok idx c (hd (cslots idx c))" if ne: "cslots idx c \<noteq> []"
  proof -
    have xs: "xs \<noteq> []" using e ne by (auto simp: padn_def)
    have "slot_entry idx (hd (cslots idx c)) = hd (map (slot_entry idx) (cslots idx c))" using ne by (simp add: hd_map)
    also have "\<dots> = f (hd xs)" unfolding e using xs by (simp add: hd_append hd_map)
    finally show ?thesis by (intro mem [of "hd xs"]) (use xs in auto)
  qed
  from 1 2 show ?thesis by (simp add: cluster_ok_def)
qed

lemma members_entries:
  assumes K: "unat (ixK idx) = K"
    and e: "\<And>c. c < K \<Longrightarrow> map (slot_entry idx) (cslots idx c) = map f (g c) @ replicate (padn (length (g c))) (phantom, 0)"
    and q: "\<And>c i. c < K \<Longrightarrow> i \<in> set (g c) \<Longrightarrow> quantized (fst (f i))"
  shows "members idx = concat (map (\<lambda>c. map f (g c)) [0..<K])"
proof -
  have "filter (\<lambda>e. fst e \<noteq> phantom) (map (slot_entry idx) (cslots idx c)) = map f (g c)" if c: "c < K" for c
  proof -
    have "\<forall>i \<in> set (g c). fst (f i) \<noteq> phantom" using q [OF c] phantom_not_quantized by metis
    then show ?thesis unfolding e [OF c] by (auto simp: filter_map comp_def intro!: filter_True)
  qed
  then show ?thesis unfolding members_def K filter_concat map_map comp_def
    by (intro arg_cong [where f = concat] map_cong) auto
qed

lemma sum_buckets:
  fixes f :: "'a \<Rightarrow> nat"
  assumes "\<And>x. x \<in> set xs \<Longrightarrow> f x < K"
  shows "(\<Sum>c<K. mset (filter (\<lambda>x. f x = c) xs)) = mset xs"
  using assms
proof (induction xs)
  case (Cons x xs)
  have "(\<Sum>c<K. mset (filter (\<lambda>y. f y = c) (x # xs))) =
    (\<Sum>c<K. (if c = f x then {#x#} else {#}) + mset (filter (\<lambda>y. f y = c) xs))"
    by (rule sum.cong) auto
  with Cons show ?case by (simp add: sum.distrib)
qed simp

lemma vec_of_ok:
  assumes "length vectors = n * 14" "\<forall>x \<in> set vectors. \<bar>sint x\<bar> \<le> 10000" "i < n"
  shows "quantized (vec_of vectors i)"
proof -
  have "i * 14 + 14 \<le> length vectors" using assms by simp
  moreover from this have "vec_of vectors i ! d = vectors ! (i * 14 + d) \<and> i * 14 + d < length vectors" if "d < 14" for d
    using that by (simp add: vec_of_def)
  ultimately show ?thesis using assms(2) by (simp add: quantized_def)
qed

lemma cluster_bboxes:
  assumes "\<forall>ids \<in> set bs. \<forall>i \<in> set ids. i * 14 + 14 \<le> length vectors"
  obtains bx where "those (map (cluster_bbox vectors) bs) = Some (map bx bs)"
    "length (concat (map fst (map bx bs))) = 16 * length bs" "length (concat (map snd (map bx bs))) = 16 * length bs"
    "\<And>c i. c < length bs \<Longrightarrow> i \<in> set (bs ! c) \<Longrightarrow>
       in_box (bbox_of (concat (map fst (map bx bs))) c) (bbox_of (concat (map snd (map bx bs))) c) (vec_of vectors i)"
proof -
  have "\<forall>ids \<in> set bs. \<exists>box. cluster_bbox vectors ids = Some box \<and> length (fst box) = 16 \<and> length (snd box) = 16 \<and>
      (\<forall>i \<in> set ids. in_box (fst box) (snd box) (vec_of vectors i))"
    using cluster_bbox_ok assms by fastforce
  then obtain bx where bx: "\<forall>ids \<in> set bs. cluster_bbox vectors ids = Some (bx ids) \<and> length (fst (bx ids)) = 16 \<and>
      length (snd (bx ids)) = 16 \<and> (\<forall>i \<in> set ids. in_box (fst (bx ids)) (snd (bx ids)) (vec_of vectors i))"
    by metis
  show thesis
  proof (rule that [of bx])
    show "those (map (cluster_bbox vectors) bs) = Some (map bx bs)" using bx by (intro those_map_Some) auto
    show "length (concat (map fst (map bx bs))) = 16 * length bs" "length (concat (map snd (map bx bs))) = 16 * length bs"
      using bx by (subst length_concat_const [where k = 16]; simp)+
    show "in_box (bbox_of (concat (map fst (map bx bs))) c) (bbox_of (concat (map snd (map bx bs))) c) (vec_of vectors i)"
      if "c < length bs" "i \<in> set (bs ! c)" for c i
      using that bx by (simp add: bbox_of_def concat_chunk)
  qed
qed

theorem Build_wf:
  assumes inp: "build_input K src vectors n centroids assign"
  shows "\<exists>idx. Build fused K src vectors n centroids assign = Some (Inr idx) \<and> wf_index idx \<and>
    unat (ixK idx) = K \<and> mset (members idx) = mset (labelled vectors src n)"
proof -
  define bs where "bs = map (\<lambda>c. filter (\<lambda>i. unat (assign ! i) = c) [0..<n]) [0..<K]"
  define B where "B = block_start bs K"
  define g where "g = sorted_ids fused vectors centroids bs"
  have K: "0 < K" "K < 65536" "unat (of_nat K :: u32) = K" and n: "n < 2 ^ 32" and as: "length assign = n" "\<forall>a \<in> set assign. unat a < K"
    and vs: "length vectors = n * 14" "\<forall>x \<in> set vectors. \<bar>sint x\<bar> \<le> 10000" and src: "length src = n" "\<forall>l \<in> set src. l \<le> 1"
    and cs: "\<forall>c<K. \<forall>d<14. centroid_ok (centroids ! c ! d)"
    using inp by (auto simp: build_input_def)
  have lbs: "length bs = K" by (simp add: bs_def)
  have bsn: "bs ! c = filter (\<lambda>i. unat (assign ! i) = c) [0..<n]" if "c < K" for c using that by (simp add: bs_def)
  have "B \<le> (\<Sum>c<K. length (filter (\<lambda>i. unat (assign ! i) = c) [0..<n]))"
    unfolding B_def block_start_def by (intro sum_mono) (simp add: bsn order_trans [OF nblocks_le])
  also have "\<dots> = n" using as by (subst sum_filter_length) auto
  finally have Bn: "B \<le> n" "B < 2 ^ 32" using n by auto
  have inr: "\<forall>i \<in> set (bs ! c). i < n" if "c < K" for c using that by (auto simp: bsn)
  have rng: "i * 14 + 14 \<le> length vectors \<and> i < length src" if "i < n" for i
    using that vs(1) src(1) by simp
  have ids: "\<forall>ids \<in> set bs. \<forall>i \<in> set ids. i * 14 + 14 \<le> length vectors \<and> i < length src"
    using inr rng lbs by (metis in_set_conv_nth)
  have offs: "cluster_offsets bs = (map (\<lambda>c. of_nat (block_start bs c)) [0..<K], of_nat B)"
    by (simp add: cluster_offsets_eq lbs B_def)
  obtain bx where boxes: "those (map (cluster_bbox vectors) bs) = Some (map bx bs)"
    and len_box: "length (concat (map fst (map bx bs))) = 16 * K" "length (concat (map snd (map bx bs))) = 16 * K"
    and bbox: "\<And>c i. c < K \<Longrightarrow> i \<in> set (bs ! c) \<Longrightarrow>
       in_box (bbox_of (concat (map fst (map bx bs))) c) (bbox_of (concat (map snd (map bx bs))) c) (vec_of vectors i)"
    using cluster_bboxes [of bs vectors] ids unfolding lbs by (metis (no_types, lifting))
  obtain data labels where fill: "ofold (fill_cluster fused vectors src centroids (map (\<lambda>c. of_nat (block_start bs c)) [0..<K]) bs) [0..<K]
      (replicate (B * 112) 0, replicate (B * 8) 0) = Some (data, labels)"
    and data: "length data = 112 * B" "slots B data = concat (map (\<lambda>c. padded (vec_of vectors) phantom (g c)) [0..<K])"
    and labels: "labels = concat (map (\<lambda>c. padded (\<lambda>i. src ! i) 0 (g c)) [0..<K])"
    and perm: "\<forall>c<K. mset (g c) = mset (bs ! c)"
    using fill_clusters [OF lbs B_def [symmetric] Bn(2) ids refl, of fused centroids] unfolding g_def by blast
  define idx0 where "idx0 = \<lparr>ixN = of_nat n, ixK = of_nat K, ixBlocks = of_nat B,
           Centroids = soa_centroids K centroids, Offsets = map (\<lambda>c. of_nat (block_start bs c)) [0..<K] @ [of_nat B],
           BboxMin = concat (map fst (map bx bs)), BboxMax = concat (map snd (map bx bs)),
           Radii = [], Labels = labels, BlockData = data\<rparr>"
  have unatB: "unat (of_nat B :: u32) = B" using Bn by simp
  have off: "off idx0 c = block_start bs c" if "c \<le> K" for c
  proof -
    have "block_start bs c \<le> B" using that block_start_mono unfolding B_def by blast
    then have "block_start bs c < 2 ^ 32" using Bn by simp
    then show ?thesis using that unatB by (cases "c = K") (auto simp: off_def idx0_def nth_append B_def)
  qed
  have lg: "length (g c) = length (bs ! c)" if "c < K" for c using perm that by (metis size_mset)
  have nbg: "nblocks (g c) = nblocks (bs ! c)" if "c < K" for c using lg [OF that] by (simp add: nblocks_def)
  have len_labels: "length labels = 8 * B"
    unfolding labels B_def by (rule length_concat_padded) (rule lg)
  have shape: "shape_ok idx0"
    using K soa_ok(1) [OF cs] off len_labels len_box data(1) unatB Bn
    by (auto simp: shape_ok_def idx0_def [THEN arg_cong] block_start_Suc simp del: map_map)
      (auto simp: idx0_def block_start_def B_def)
  have entries: "map (slot_entry idx0) (cslots idx0 c) =
    map (\<lambda>i. (vec_of vectors i, src ! i)) (g c) @ replicate (padn (length (g c))) (phantom, 0)" if c: "c < K" for c
  proof -
    have le: "8 * block_start bs (Suc c) \<le> 8 * B"
      using c block_start_mono [of "Suc c" K bs] by (simp add: B_def)
    have "map (slot_entry idx0) (cslots idx0 c) =
      map (\<lambda>p. (slots B data ! p, labels ! p)) [8 * block_start bs c..<8 * block_start bs (Suc c)]"
      using c off le by (auto simp: cslots_def slot_entry_def idx0_def slot_vec_slots)
    also have "\<dots> = zip (map (\<lambda>p. slots B data ! p) [8 * block_start bs c..<8 * block_start bs (Suc c)])
        (map (\<lambda>p. labels ! p) [8 * block_start bs c..<8 * block_start bs (Suc c)])"
      by (simp add: zip_map_map zip_same_conv_map)
    also have "\<dots> = zip (padded (vec_of vectors) phantom (g c)) (padded (\<lambda>i. src ! i) 0 (g c))"
      unfolding data(2) labels using c by (intro arg_cong2 [where f = zip] concat_slice) (auto simp: length_padded nbg)
    finally show ?thesis by (simp add: padded_def zip_padded)
  qed
  have vec: "quantized (vec_of vectors i) \<and> src ! i \<le> 1" if i: "i < n" for i
    using vec_of_ok [OF vs i] src i by simp
  have mem: "member_ok idx0 c p" if c: "c < K" and i: "i \<in> set (g c)" and p: "slot_entry idx0 p = (vec_of vectors i, src ! i)" for c p i
  proof -
    have ib: "i \<in> set (bs ! c)" using perm c i by (metis mset_eq_setD)
    then have "i < n" using inr c by auto
    with vec p bbox [OF c ib] show ?thesis by (simp add: member_ok_def idx0_def)
  qed
  have cluster: "cluster_ok idx0 c" if c: "c < K" for c
    using entries [OF c] by (rule cluster_ok_entries) (rule mem [OF c])
  have Kidx: "unat (ixK idx0) = K" using K by (simp add: idx0_def)
  define idx where "idx = idx0\<lparr>Radii := map (\<lambda>c. the (cluster_radius fused idx0 c)) [0..<unat (ixK idx0)]\<rparr>"
  have cok: "\<forall>x \<in> set (Centroids idx0). centroid_ok x" using soa_ok(2) [OF cs] by (simp add: idx0_def)
  have rad: "ComputeRadii fused idx0 = Some idx" by (simp add: idx_def ComputeRadii_eq [OF shape cok])
  have "ComputeRadii fused idx = Some idx"
    using ComputeRadii_eq [of idx fused] shape cok by (simp add: idx_def)
  then have wf: "wf_index idx"
    using shape cok cluster Kidx unfolding wf_index_def by (auto simp: idx_def)
  have built: "Build fused K src vectors n centroids assign = Some (Inr idx)"
    using as bucket_ids_eq [OF as n] rad fill
    by (simp add: Build_def bs_def [symmetric] offs boxes unatB idx0_def del: map_map)
  have "members idx = members idx0" by (simp add: idx_def)
  also have "\<dots> = concat (map (\<lambda>c. map (\<lambda>i. (vec_of vectors i, src ! i)) (g c)) [0..<K])"
    using Kidx entries
  proof (rule members_entries)
    fix c i assume c: "c < K" and i: "i \<in> set (g c)"
    then have "i \<in> set (bs ! c)" using perm by (metis mset_eq_setD)
    then show "quantized (fst (vec_of vectors i, src ! i))" using inr [OF c] vec by simp
  qed
  finally have mem_eq: "members idx = concat (map (\<lambda>c. map (\<lambda>i. (vec_of vectors i, src ! i)) (g c)) [0..<K])" .
  have "mset (members idx) = (\<Sum>c<K. image_mset (\<lambda>i. (vec_of vectors i, src ! i)) (mset (bs ! c)))"
    unfolding mem_eq mset_concat map_map comp_def
    using perm by (simp add: interv_sum_list_conv_sum_set_nat atLeast0LessThan)
  also have "\<dots> = image_mset (\<lambda>i. (vec_of vectors i, src ! i)) (\<Sum>c<K. mset (bs ! c))"
    by (induction K) simp_all
  also have "(\<Sum>c<K. mset (bs ! c)) = (\<Sum>c<K. mset (filter (\<lambda>i. unat (assign ! i) = c) [0..<n]))"
    by (rule sum.cong) (simp_all add: bsn)
  also have "\<dots> = mset [0..<n]" using as by (intro sum_buckets) auto
  finally have "mset (members idx) = mset (labelled vectors src n)" by (simp add: labelled_def)
  with built wf Kidx show ?thesis by (auto simp: idx_def)
qed

end
