(* ===== verification/Centroid.thy ===== *)
theory Centroid
  imports IvfIndex
begin

text \<open>
  Scoring and picking centroids: \<open>internal/search/centroid.go\<close>, the AVX2 routines
  \<open>centroid_amd64.s\<close> and \<open>argmin_amd64.s\<close> and their dispatchers.  The lemmas relate a
  score to the real distance, show that the two pickers return the nearest
  clusters in ascending order of the scores, and that no cluster is picked twice.
\<close>

subsection \<open>ScoreAllCentroids\<close>

definition scoreAllCentroidsGeneric :: "bool \<Rightarrow> fl list \<Rightarrow> fl list \<Rightarrow> nat \<Rightarrow> fl list \<Rightarrow> fl list option" where
  "scoreAllCentroidsGeneric fused q centroids K out =
     (if length out < K then None
      else ofold (\<lambda>d out. ofold (\<lambda>c out. do {
               x \<leftarrow> get centroids (d * K + c);
               let diff = fsub F32 (q ! d) x;
               put out c (fmac fused F32 (out ! c) diff diff)
             }) [0..<K] out) [0..<14] (replicate K (Fin 0) @ drop K out))"

definition scoreAllCentroidsAVX2 :: "fl list \<Rightarrow> fl list \<Rightarrow> nat \<Rightarrow> fl list \<Rightarrow> fl list option" where
  \<comment> \<open>sixteen clusters a step without a tail: another \<open>K\<close> reads and writes out of bounds\<close>
  "scoreAllCentroidsAVX2 q centroids K out =
     (if K mod 16 \<noteq> 0 \<or> length centroids < 14 * K then None
      else
        let out0 = map (\<lambda>c. let diff = fsub F32 (q ! 0) (centroids ! c) in fmul F32 diff diff) [0..<K]
        in Some (fold (\<lambda>d out. map (\<lambda>c. let diff = fsub F32 (q ! d) (centroids ! (d * K + c))
                                          in fma F32 diff diff (out ! c)) [0..<K]) [1..<14] out0 @ drop K out))"

definition ScoreAllCentroids :: "target \<Rightarrow> fl list \<Rightarrow> fl list \<Rightarrow> nat \<Rightarrow> fl list \<Rightarrow> fl list option" where
  "ScoreAllCentroids tgt q centroids K out =
     (if amd64 tgt then (if length out < K then None else scoreAllCentroidsAVX2 q centroids K out)
      else scoreAllCentroidsGeneric (fuses tgt) q centroids K out)"

subsection \<open>pickArgminScalar and argminAVX2\<close>

definition pickArgminScalar :: "fl list \<Rightarrow> u16 option" where
  "pickArgminScalar dists = do {
     d0 \<leftarrow> get dists 0;
     Some (fst (fold (\<lambda>i (bestI, bestD). if flt (dists ! i) bestD then (of_nat i, dists ! i) else (bestI, bestD))
                  [1..<length dists] (0, d0)))
   }"

definition blend_min :: "fl \<times> nat \<Rightarrow> fl \<times> nat \<Rightarrow> fl \<times> nat" where
  \<comment> \<open>\<open>VCMPPS $1\<close> and two \<open>VBLENDVPS\<close>: the second pair when its value is smaller\<close>
  "blend_min p q = (if flt (fst q) (fst p) then q else p)"

definition argmin_fold :: "(fl \<times> nat) list \<Rightarrow> (nat \<Rightarrow> nat) \<Rightarrow> (fl \<times> nat) list" where
  \<comment> \<open>one halving of the reduction\<close>
  "argmin_fold lanes partner = map (\<lambda>l. blend_min (lanes ! l) (lanes ! partner l)) [0..<4]"

definition argminAVX2 :: "fl list \<Rightarrow> u16" where
  "argminAVX2 dists =
     (let lanes = fold (\<lambda>k lanes. map (\<lambda>l. blend_min (lanes ! l) (dists ! (8 * k + l), 8 * k + l)) [0..<8])
                    [0..<length dists div 8] (map (\<lambda>l. (Inf False, l)) [0..<8]);
          s1 = argmin_fold lanes (\<lambda>l. l + 4);
          s2 = argmin_fold s1 (\<lambda>l. (l + 2) mod 4);
          s3 = argmin_fold s2 (\<lambda>l. if even l then l + 1 else l - 1)
      in of_nat (snd (s3 ! 0)))"

definition pickArgminFast :: "target \<Rightarrow> fl list \<Rightarrow> u16 option" where
  "pickArgminFast tgt dists =
     (if amd64 tgt \<and> length dists mod 8 = 0 \<and> dists \<noteq> [] then Some (argminAVX2 dists)
      else pickArgminScalar dists)"

subsection \<open>PickTopNCentroids\<close>

definition NOID :: u16 where
  \<comment> \<open>\<open>^uint16(0)\<close>\<close>
  "NOID = 65535"

definition f1e38 :: fl where
  \<comment> \<open>\<open>float32(1e38)\<close>\<close>
  "f1e38 = fround F32 (10 ^ 38)"

fun insert_pos :: "fl list \<Rightarrow> fl \<Rightarrow> u16 list \<Rightarrow> nat \<Rightarrow> nat \<Rightarrow> nat option" where
  \<comment> \<open>the first of positions \<open>pos, ..., pos + fuel - 1\<close> that is free or farther than \<open>d\<close>, else \<open>pos + fuel\<close>\<close>
  "insert_pos dists d picked 0 pos = Some pos"
| "insert_pos dists d picked (Suc fuel) pos = do {
     pid \<leftarrow> get picked pos;
     if pid = NOID then Some pos
     else do {
       x \<leftarrow> get dists (unat pid);
       if flt d x then Some pos else insert_pos dists d picked fuel (pos + 1)
     }
   }"

definition shift_from :: "nat \<Rightarrow> nat \<Rightarrow> u16 list \<Rightarrow> u16 list" where
  \<comment> \<open>\<open>for i := n - 1; i > pos; i-- { picked[i] = picked[i-1] }\<close>\<close>
  "shift_from n pos picked = fold (\<lambda>i p. p[i := p ! (i - 1)]) (rev [pos + 1..<n]) picked"

definition topn_step :: "fl list \<Rightarrow> nat \<Rightarrow> nat \<Rightarrow> u16 list \<times> fl \<Rightarrow> (u16 list \<times> fl) option" where
  "topn_step dists n c = (\<lambda>(picked, worst). do {
     d \<leftarrow> get dists c;
     if fle worst d then Some (picked, worst)
     else do {
       pos \<leftarrow> insert_pos dists d picked n 0;
       if pos = n then Some (picked, worst)
       else do {
         let picked' = (shift_from n pos picked)[pos := of_nat c];
         worstID \<leftarrow> get picked' (n - 1);
         if worstID = NOID then Some (picked', f1e38)
         else do { w \<leftarrow> get dists (unat worstID); Some (picked', w) }
       }
     }
   })"

definition PickTopNCentroids :: "target \<Rightarrow> fl list \<Rightarrow> nat \<Rightarrow> u16 list \<Rightarrow> u16 list option" where
  "PickTopNCentroids tgt dists n picked =
     (if n = 1 \<and> 1 \<le> length picked then do {
        c \<leftarrow> pickArgminFast tgt dists;
        Some (picked[0 := c])
      }
      else do {
        let n' = min n (length picked);
        (picked', w) \<leftarrow> ofold (topn_step dists n') [0..<length dists]
            (replicate n' NOID @ drop n' picked, f1e38);
        Some picked'
      })"

subsection \<open>PickNextNUnscanned\<close>

definition MaxNProbe :: nat where
  "MaxNProbe = 256"

text \<open>The arrays \<open>heapDist\<close> and \<open>heapIdx\<close>, always accessed together, as one list of pairs.\<close>

type_synonym heap = "(fl \<times> u16) list"

function heap_up :: "nat \<Rightarrow> heap \<Rightarrow> heap" where
  "heap_up i h =
     (if 0 < i then
        let parent = (i - 1) div 2 in
        if fle (fst (h ! i)) (fst (h ! parent)) then h else heap_up parent (swap parent i h)
      else h)"
  by pat_completeness auto
termination by (relation "measure fst") auto

definition heap_largest :: "nat \<Rightarrow> heap \<Rightarrow> nat \<Rightarrow> nat" where
  "heap_largest n h i =
     (let l = 2 * i + 1; r = 2 * i + 2;
          largest = (if l < n \<and> flt (fst (h ! i)) (fst (h ! l)) then l else i)
      in if r < n \<and> flt (fst (h ! largest)) (fst (h ! r)) then r else largest)"

lemma heap_largest_cases:
  "heap_largest n h i = i \<or> (heap_largest n h i = 2 * i + 1 \<and> 2 * i + 1 < n) \<or>
   (heap_largest n h i = 2 * i + 2 \<and> 2 * i + 2 < n)"
  by (simp add: heap_largest_def Let_def)

function heap_down :: "nat \<Rightarrow> nat \<Rightarrow> heap \<Rightarrow> heap" where
  "heap_down n i h =
     (let largest = heap_largest n h i in
      if largest = i then h else heap_down n largest (swap largest i h))"
  by pat_completeness auto
termination
proof (relation "measure (\<lambda>(n, i, h). n - i)", goal_cases)
  case (2 n i h x)
  then show ?case using heap_largest_cases [of n h i] by auto
qed simp

declare heap_up.simps [simp del] heap_down.simps [simp del]

definition heap_offer :: "nat \<Rightarrow> fl \<Rightarrow> nat \<Rightarrow> heap \<times> nat \<times> fl \<Rightarrow> (heap \<times> nat \<times> fl) option" where
  "heap_offer n d c = (\<lambda>(h, size, worst).
     if size = n \<and> fle worst d then Some (h, size, worst)
     else if size < n then do {
       h' \<leftarrow> put h size (d, of_nat c);
       let h'' = heap_up size h';
       Some (h'', size + 1, if size + 1 = n then fst (h'' ! 0) else worst)
     }
     else do {
       h' \<leftarrow> put h 0 (d, of_nat c);
       let h'' = heap_down n 0 h';
       Some (h'', size, fst (h'' ! 0))
     })"

definition next_scan :: "fl list \<Rightarrow> u64 list \<Rightarrow> nat \<Rightarrow> heap \<times> nat \<times> fl \<Rightarrow> (heap \<times> nat \<times> fl) option" where
  \<comment> \<open>the walk over the scanned words, 64 clusters a word\<close>
  "next_scan dists scanned n st =
     ofold (\<lambda>w st. do {
         mask \<leftarrow> get scanned w;
         ofold (\<lambda>c st. if bit mask (c - w * 64) then Some st
                         else do { d \<leftarrow> get dists c; heap_offer n d c st })
           [w * 64..<min (w * 64 + 64) (length dists)] st
       }) [0..<(length dists + 63) div 64] st"

fun heap_extract :: "nat \<Rightarrow> heap \<Rightarrow> u16 list \<Rightarrow> u16 list" where
  "heap_extract 0 h picked = picked"
| "heap_extract (Suc sz) h picked =
     heap_extract sz (heap_down sz 0 (h[0 := h ! sz])) (picked[sz := snd (h ! 0)])"

definition PickNextNUnscanned :: "fl list \<Rightarrow> u64 list \<Rightarrow> nat \<Rightarrow> u16 list \<Rightarrow> u16 list option" where
  "PickNextNUnscanned dists scanned n picked =
     (let n' = min n (length picked) in
      if n' = 0 then Some picked
      else do {
        (h, size, worst) \<leftarrow> next_scan dists scanned n' (replicate MaxNProbe (Fin 0, 0), 0, f1e38);
        Some (heap_extract size h (replicate n' NOID @ drop n' picked))
      })"

subsection \<open>The heap\<close>

text \<open>With finite scores the comparisons are those of the reals.\<close>

definition fin_heap :: "nat \<Rightarrow> heap \<Rightarrow> bool" where
  "fin_heap n h \<longleftrightarrow> n \<le> length h \<and> (\<forall>j<n. \<exists>r. fst (h ! j) = Fin r)"

definition key :: "heap \<Rightarrow> nat \<Rightarrow> real" where
  "key h j = fval (fst (h ! j))"

definition heap_ok :: "nat \<Rightarrow> heap \<Rightarrow> bool" where
  "heap_ok n h \<longleftrightarrow> (\<forall>j. 0 < j \<and> j < n \<longrightarrow> key h j \<le> key h ((j - 1) div 2))"

definition up_ok :: "nat \<Rightarrow> nat \<Rightarrow> heap \<Rightarrow> bool" where
  \<comment> \<open>only the relation of \<open>i\<close> to its parent may fail\<close>
  "up_ok n i h \<longleftrightarrow> (\<forall>j. 0 < j \<and> j < n \<and> j \<noteq> i \<longrightarrow> key h j \<le> key h ((j - 1) div 2)) \<and>
     (0 < i \<longrightarrow> (\<forall>j. 0 < j \<and> j < n \<and> (j - 1) div 2 = i \<longrightarrow> key h j \<le> key h ((i - 1) div 2)))"

definition down_ok :: "nat \<Rightarrow> nat \<Rightarrow> heap \<Rightarrow> bool" where
  \<comment> \<open>only the relations of \<open>i\<close> to its children may fail\<close>
  "down_ok n i h \<longleftrightarrow> (\<forall>j. 0 < j \<and> j < n \<and> (j - 1) div 2 \<noteq> i \<longrightarrow> key h j \<le> key h ((j - 1) div 2)) \<and>
     (0 < i \<longrightarrow> (\<forall>j. 0 < j \<and> j < n \<and> (j - 1) div 2 = i \<longrightarrow> key h j \<le> key h ((i - 1) div 2)))"

lemma fin_heap_cmp:
  assumes "fin_heap n h" "i < n" "j < n"
  shows "flt (fst (h ! i)) (fst (h ! j)) \<longleftrightarrow> key h i < key h j"
    "fle (fst (h ! i)) (fst (h ! j)) \<longleftrightarrow> key h i \<le> key h j"
proof -
  obtain x y where "fst (h ! i) = Fin x" "fst (h ! j) = Fin y"
    using assms unfolding fin_heap_def by blast
  then show "flt (fst (h ! i)) (fst (h ! j)) \<longleftrightarrow> key h i < key h j"
    "fle (fst (h ! i)) (fst (h ! j)) \<longleftrightarrow> key h i \<le> key h j"
    by (simp_all add: key_def)
qed

lemma swap_nth:
  "i < length h \<Longrightarrow> j < length h \<Longrightarrow> k < length h \<Longrightarrow>
   swap i j h ! k = (if k = i then h ! j else if k = j then h ! i else h ! k)"
  by (auto simp: swap_def nth_list_update)

lemma length_swap [simp]: "length (swap i j h) = length h"
  by (simp add: swap_def)

lemma key_swap:
  "i < length h \<Longrightarrow> j < length h \<Longrightarrow> k < length h \<Longrightarrow>
   key (swap i j h) k = (if k = i then key h j else if k = j then key h i else key h k)"
  by (simp add: key_def swap_nth)

lemma take_swap: "i < n \<Longrightarrow> j < n \<Longrightarrow> n \<le> length h \<Longrightarrow> take n (swap i j h) = swap i j (take n h)"
  by (simp add: swap_def take_update_swap)

lemma drop_swap: "i < n \<Longrightarrow> j < n \<Longrightarrow> drop n (swap i j h) = drop n h"
  by (simp add: swap_def)

lemma fin_heap_swap: "fin_heap n h \<Longrightarrow> i < n \<Longrightarrow> j < n \<Longrightarrow> fin_heap n (swap i j h)"
  by (auto simp: fin_heap_def swap_nth)

lemma parent_less: "0 < i \<Longrightarrow> (i - 1) div 2 < (i::nat)"
  by auto

lemma heap_up_correct:
  assumes "fin_heap n h" "i < n" "up_ok n i h"
  shows "heap_ok n (heap_up i h) \<and> fin_heap n (heap_up i h) \<and> mset (take n (heap_up i h)) = mset (take n h) \<and>
    drop n (heap_up i h) = drop n h \<and> length (heap_up i h) = length h"
  using assms
proof (induction i h rule: heap_up.induct)
  case (1 i h)
  define p where "p = (i - 1) div 2"
  have len: "n \<le> length h" using 1(2) by (simp add: fin_heap_def)
  show ?case
  proof (cases "0 < i \<and> key h p < key h i")
    case False
    have "0 < i \<Longrightarrow> fle (fst (h ! i)) (fst (h ! p))"
      using False fin_heap_cmp(2) [OF 1(2,3), of p] parent_less [of i] 1(3) by (auto simp: p_def)
    then have "heap_up i h = h"
      by (subst heap_up.simps) (simp add: Let_def p_def)
    moreover have "heap_ok n h"
      using False 1(4) unfolding heap_ok_def up_ok_def p_def by (metis linorder_not_le)
    ultimately show ?thesis using 1(2) by simp
  next
    case True
    have pi: "p < i" "p < n" using True parent_less [of i] 1(3) by (auto simp: p_def)
    have lt: "key h p < key h i" using True by simp
    have up: "up_ok n p (swap p i h)"
      unfolding up_ok_def
    proof (intro conjI allI impI; elim conjE)
      fix j assume j: "0 < j" "j < n" "j \<noteq> p"
      show "key (swap p i h) j \<le> key (swap p i h) ((j - 1) div 2)"
      proof (cases "j = i")
        case True
        then have "(j - 1) div 2 = p" by (simp add: p_def)
        then show ?thesis using True lt pi len 1(3) by (simp only: key_swap) simp
      next
        case False
        have "key h j \<le> key h ((j - 1) div 2)" "(j - 1) div 2 = i \<Longrightarrow> key h j \<le> key h p"
          using 1(4) False j True unfolding up_ok_def p_def by auto
        then show ?thesis
          using False j lt pi len 1(3) parent_less [of j] by (auto simp: key_swap)
      qed
    next
      fix j assume p0: "0 < p" and j: "0 < j" "j < n" "(j - 1) div 2 = p"
      have pp: "key h p \<le> key h ((p - 1) div 2)" using 1(4) p0 pi unfolding up_ok_def by auto
      have ppn: "(p - 1) div 2 < n" "(p - 1) div 2 \<noteq> p" "(p - 1) div 2 \<noteq> i" using p0 pi parent_less [OF p0] by auto
      show "key (swap p i h) j \<le> key (swap p i h) ((p - 1) div 2)"
      proof (cases "j = i")
        case True
        then show ?thesis using pp ppn pi len 1(3) by (simp add: key_swap)
      next
        case False
        then have "key h j \<le> key h p" using 1(4) j unfolding up_ok_def by auto
        then have "key h j \<le> key h ((p - 1) div 2)" using pp by simp
        then show ?thesis using False ppn pi len j parent_less [of j] 1(3) by (simp add: key_swap)
      qed
    qed
    have eq: "heap_up i h = heap_up p (swap p i h)"
      using True fin_heap_cmp(2) [OF 1(2,3) pi(2)]
      by (subst heap_up.simps) (simp add: Let_def p_def)
    have cond: "\<not> fle (fst (h ! i)) (fst (h ! ((i - 1) div 2)))"
      using lt fin_heap_cmp(2) [OF 1(2,3) pi(2)] by (simp add: p_def)
    have "heap_ok n (heap_up p (swap p i h)) \<and> fin_heap n (heap_up p (swap p i h)) \<and>
      mset (take n (heap_up p (swap p i h))) = mset (take n (swap p i h)) \<and>
      drop n (heap_up p (swap p i h)) = drop n (swap p i h) \<and> length (heap_up p (swap p i h)) = length (swap p i h)"
      using 1(1) [OF _ refl cond] True fin_heap_swap [OF 1(2) pi(2) 1(3)] pi(2) up by (simp add: p_def)
    then show ?thesis
      using pi 1(3) len by (simp add: eq take_swap drop_swap)
  qed
qed

lemma parent_iff: "0 < j \<Longrightarrow> (j - 1) div 2 = i \<longleftrightarrow> j = 2 * i + 1 \<or> j = 2 * i + (2::nat)"
  by linarith

lemma heap_largest_max:
  assumes "fin_heap n h" "i < n"
  shows "key h i \<le> key h (heap_largest n h i)"
    "0 < j \<Longrightarrow> j < n \<Longrightarrow> (j - 1) div 2 = i \<Longrightarrow> key h j \<le> key h (heap_largest n h i)"
    "heap_largest n h i \<noteq> i \<Longrightarrow> key h i < key h (heap_largest n h i)"
proof -
  define l where "l = (if 2 * i + 1 < n \<and> key h i < key h (2 * i + 1) then 2 * i + 1 else i)"
  have l: "l < n" using assms(2) by (simp add: l_def)
  have eq: "heap_largest n h i = (if 2 * i + 2 < n \<and> key h l < key h (2 * i + 2) then 2 * i + 2 else l)"
  proof -
    have a: "(if 2 * i + 1 < n \<and> flt (fst (h ! i)) (fst (h ! (2 * i + 1))) then 2 * i + 1 else i) = l"
      using fin_heap_cmp(1) [OF assms, of "2 * i + 1"] by (auto simp: l_def)
    have b: "2 * i + 2 < n \<Longrightarrow> flt (fst (h ! l)) (fst (h ! (2 * i + 2))) = (key h l < key h (2 * i + 2))"
      by (rule fin_heap_cmp(1) [OF assms(1) l])
    show ?thesis unfolding heap_largest_def Let_def by (simp only: a b cong: conj_cong)
  qed
  show "key h i \<le> key h (heap_largest n h i)" by (auto simp: eq l_def)
  show "heap_largest n h i \<noteq> i \<Longrightarrow> key h i < key h (heap_largest n h i)" by (auto simp: eq l_def split: if_splits)
  show "key h j \<le> key h (heap_largest n h i)" if "0 < j" "j < n" "(j - 1) div 2 = i"
    using that(2) parent_iff [OF that(1), of i] that(3) by (auto simp: eq l_def)
qed

lemma down_ok_swap:
  assumes fin: "fin_heap n h" and i: "i < n" and d: "down_ok n i h"
    and g: "g = heap_largest n h i" "g \<noteq> i"
  shows "down_ok n g (swap g i h)"
proof -
  have gc: "g = 2 * i + 1 \<or> g = 2 * i + 2" "g < n" using heap_largest_cases [of n h i] g by auto
  have len: "n \<le> length h" using fin by (simp add: fin_heap_def)
  have ks: "key (swap g i h) k = (if k = g then key h i else if k = i then key h g else key h k)" if "k < n" for k
    using that gc i len by (simp add: key_swap)
  note mx = heap_largest_max [OF fin i, folded g(1)]
  have pg: "0 < g" "(g - 1) div 2 = i" "i < g" using gc by auto
  show ?thesis
    unfolding down_ok_def
  proof (intro conjI allI impI; elim conjE)
    fix j assume j: "0 < j" "j < n" "(j - 1) div 2 \<noteq> g"
    have pj: "(j - 1) div 2 < n" "(j - 1) div 2 \<noteq> j" using j parent_less [of j] by auto
    consider "j = g" | "j = i" | "j \<noteq> g" "j \<noteq> i" by blast
    then show "key (swap g i h) j \<le> key (swap g i h) ((j - 1) div 2)"
    proof cases
      case 1
      then show ?thesis using pg mx(3) g(2) gc(2) i by (simp add: ks)
    next
      case 2
      have "key h g \<le> key h ((i - 1) div 2)" using d 2 j(1) pg gc(2) unfolding down_ok_def by auto
      then show ?thesis using 2 j pj g(2) by (simp add: ks)
    next
      case 3
      show ?thesis
      proof (cases "(j - 1) div 2 = i")
        case True
        then show ?thesis using mx(2) [OF j(1,2) True] 3 j(2) i g(2) by (simp only: ks) simp
      next
        case False
        then have "key h j \<le> key h ((j - 1) div 2)" using d j unfolding down_ok_def by auto
        then show ?thesis using 3 j pj False by (simp add: ks)
      qed
    qed
  next
    fix j assume j: "0 < j" "j < n" "(j - 1) div 2 = g"
    have "g < j" using j(1,3) parent_less [of j] by simp
    moreover have "key h j \<le> key h g" using d j pg(3) unfolding down_ok_def by auto
    ultimately show "key (swap g i h) j \<le> key (swap g i h) ((g - 1) div 2)"
      unfolding pg(2) using j(2) i pg(3) by (simp add: ks)
  qed
qed

lemma heap_down_correct:
  assumes "fin_heap n h" "i < n" "down_ok n i h"
  shows "heap_ok n (heap_down n i h) \<and> fin_heap n (heap_down n i h) \<and>
    mset (take n (heap_down n i h)) = mset (take n h) \<and>
    drop n (heap_down n i h) = drop n h \<and> length (heap_down n i h) = length h"
  using assms
proof (induction n i h rule: heap_down.induct)
  case (1 n i h)
  define g where "g = heap_largest n h i"
  show ?case
  proof (cases "g = i")
    case True
    then have "heap_down n i h = h" by (subst heap_down.simps) (simp add: g_def)
    moreover have "heap_ok n h"
      using 1(4) heap_largest_max(2) [OF 1(2,3)] True unfolding heap_ok_def down_ok_def g_def by metis
    ultimately show ?thesis using 1(2) by simp
  next
    case False
    have gn: "g < n" using heap_largest_cases [of n h i] False by (auto simp: g_def)
    have eq: "heap_down n i h = heap_down n g (swap g i h)"
      using False by (subst heap_down.simps) (simp add: Let_def g_def [symmetric])
    have len: "n \<le> length h" using 1(2) by (simp add: fin_heap_def)
    show ?thesis
      using 1(1) [OF g_def False fin_heap_swap [OF 1(2) gn 1(3)] gn down_ok_swap [OF 1(2-4) g_def False]]
        gn 1(3) len by (simp add: eq take_swap drop_swap)
  qed
qed

lemma heap_root_max: "heap_ok n h \<Longrightarrow> j < n \<Longrightarrow> key h j \<le> key h 0"
proof (induction j rule: less_induct)
  case (less j)
  show ?case
  proof (cases "j = 0")
    case False
    then have j: "0 < j" "(j - 1) div 2 < j" using parent_less [of j] by auto
    have "key h j \<le> key h ((j - 1) div 2)" using less.prems j(1) unfolding heap_ok_def by blast
    also have "\<dots> \<le> key h 0" using less.IH [OF j(2) less.prems(1)] less.prems(2) j(2) by simp
    finally show ?thesis .
  qed simp
qed

text \<open>Popping the maximum until the heap is empty sorts it.\<close>

lemma fin_heap_update0: "fin_heap n h \<Longrightarrow> fst x = Fin r \<Longrightarrow> fin_heap n (h[0 := x])"
  unfolding fin_heap_def
proof (intro conjI allI impI)
  fix j assume h: "n \<le> length h \<and> (\<forall>j<n. \<exists>r. fst (h ! j) = Fin r)" and x: "fst x = Fin r" and j: "j < n"
  show "\<exists>r. fst (h[0 := x] ! j) = Fin r"
  proof (cases "j = 0")
    case True
    then have "h \<noteq> []" using h j by auto
    then show ?thesis using x True by simp
  qed (use h j in simp)
qed simp

lemma mset_take_move_last:
  assumes "0 < sz" "Suc sz \<le> length h"
  shows "add_mset (h ! 0) (mset (take sz (h[0 := h ! sz]))) = mset (take (Suc sz) h)"
proof -
  obtain x xs where h: "h = x # xs" using assms by (cases h) auto
  obtain k where k: "sz = Suc k" using assms(1) by (cases sz) auto
  have "k < length xs" using assms(2) by (simp add: h k)
  then have "take (Suc k) xs = take k xs @ [xs ! k]" by (rule take_Suc_conv_app_nth)
  then show ?thesis by (simp add: h k)
qed

lemma heap_extract_sorts:
  assumes "fin_heap sz h" "heap_ok sz h" "sz \<le> length picked"
  shows "\<exists>es. mset es = mset (take sz h) \<and> sorted (map (fval \<circ> fst) es) \<and>
    heap_extract sz h picked = map snd es @ drop sz picked"
  using assms
proof (induction sz arbitrary: h picked)
  case (Suc sz)
  have len: "Suc sz \<le> length h" using Suc.prems(1) by (simp add: fin_heap_def)
  define h' where "h' = heap_down sz 0 (h[0 := h ! sz])"
  have h': "heap_ok sz h' \<and> fin_heap sz h' \<and> add_mset (h ! 0) (mset (take sz h')) = mset (take (Suc sz) h)"
  proof (cases "sz = 0")
    case True
    then show ?thesis using len by (cases h) (auto simp: heap_ok_def fin_heap_def)
  next
    case False
    have fin: "fin_heap sz (h[0 := h ! sz])"
    proof -
      obtain r where "fst (h ! sz) = Fin r" using Suc.prems(1) unfolding fin_heap_def by blast
      moreover have "fin_heap sz h" using Suc.prems(1) by (simp add: fin_heap_def)
      ultimately show ?thesis by (rule fin_heap_update0 [rotated])
    qed
    have "down_ok sz 0 (h[0 := h ! sz])"
      using Suc.prems(2) len unfolding down_ok_def heap_ok_def key_def by (auto simp: nth_list_update)
    from heap_down_correct [OF fin _ this] False mset_take_move_last [OF _ len]
    show ?thesis by (simp add: h'_def)
  qed
  have "fin_heap sz h'" "heap_ok sz h'" "sz \<le> length (picked[sz := snd (h ! 0)])"
    using h' Suc.prems(3) by simp_all
  from Suc.IH [OF this] obtain es where es: "mset es = mset (take sz h')" "sorted (map (fval \<circ> fst) es)"
    "heap_extract sz h' (picked[sz := snd (h ! 0)]) = map snd es @ drop sz (picked[sz := snd (h ! 0)])"
    by blast
  have ms: "mset (es @ [h ! 0]) = mset (take (Suc sz) h)" using h' es(1) by simp
  have "fval (fst e) \<le> fval (fst (h ! 0))" if "e \<in> set es" for e
  proof -
    have "e \<in> set (take (Suc sz) h)" using ms that by (metis in_set_conv_decomp mset_eq_setD Un_iff set_append)
    then obtain j where "j < Suc sz" "e = h ! j" by (auto simp: in_set_conv_nth)
    then show ?thesis using heap_root_max [OF Suc.prems(2)] by (simp add: key_def)
  qed
  then have "sorted (map (fval \<circ> fst) (es @ [h ! 0]))" using es(2) by (simp add: sorted_append)
  moreover have "heap_extract (Suc sz) h picked = map snd (es @ [h ! 0]) @ drop (Suc sz) picked"
    using es(3) Suc.prems(3) by (simp add: h'_def [symmetric] drop_update_swap Cons_nth_drop_Suc [symmetric])
  ultimately show ?case using ms by blast
qed simp

subsection \<open>The nearest clusters\<close>

definition nearest :: "fl list \<Rightarrow> nat list \<Rightarrow> nat \<Rightarrow> nat list \<Rightarrow> bool" where
  \<comment> \<open>\<open>ids\<close> are the \<open>n\<close> clusters of \<open>cs\<close> with the smallest scores, ascending\<close>
  "nearest dists cs n ids \<longleftrightarrow> distinct ids \<and> set ids \<subseteq> set cs \<and> length ids = min n (length cs) \<and>
     sorted (map (\<lambda>c. fval (dists ! c)) ids) \<and>
     (\<forall>c \<in> set cs - set ids. \<forall>i \<in> set ids. fval (dists ! i) \<le> fval (dists ! c))"

definition finite_scores :: "fl list \<Rightarrow> bool" where
  "finite_scores dists \<longleftrightarrow> (\<forall>x \<in> set dists. \<exists>r. x = Fin r)"

definition ent :: "fl list \<Rightarrow> nat \<Rightarrow> fl \<times> u16" where
  "ent dists c = (dists ! c, of_nat c)"

definition scan_inv :: "fl list \<Rightarrow> nat \<Rightarrow> nat list \<Rightarrow> heap \<times> nat \<times> fl \<Rightarrow> bool" where
  "scan_inv dists n cs = (\<lambda>(h, sz, worst).
     length h = MaxNProbe \<and> sz = min n (length cs) \<and> fin_heap sz h \<and> heap_ok sz h \<and>
     (sz = n \<longrightarrow> worst = fst (h ! 0)) \<and>
     (\<exists>ids. mset (take sz h) = mset (map (ent dists) ids) \<and> distinct ids \<and> set ids \<subseteq> set cs \<and>
       (\<forall>c \<in> set cs - set ids. \<forall>i \<in> set ids. fval (dists ! i) \<le> fval (dists ! c))))"

lemma scan_invI:
  assumes "length h = MaxNProbe" "sz = min n (length cs)" "fin_heap sz h" "heap_ok sz h"
    and "sz = n \<Longrightarrow> worst = fst (h ! 0)"
    and "mset (take sz h) = mset (map (ent dists) ids)" "distinct ids" "set ids \<subseteq> set cs"
    and "\<And>c i. c \<in> set cs \<Longrightarrow> c \<notin> set ids \<Longrightarrow> i \<in> set ids \<Longrightarrow> fval (dists ! i) \<le> fval (dists ! c)"
  shows "scan_inv dists n cs (h, sz, worst)"
  unfolding scan_inv_def prod.case using assms by blast

lemma heap_offer_inv:
  assumes inv: "scan_inv dists n cs st" and n: "0 < n" "n \<le> MaxNProbe" and c: "c \<notin> set cs" and dc: "distinct cs"
    and fin: "dists ! c = Fin d" "\<forall>i \<in> set cs. \<exists>r. dists ! i = Fin r"
  shows "\<exists>st'. heap_offer n (dists ! c) c st = Some st' \<and> scan_inv dists n (cs @ [c]) st'"
proof -
  obtain h sz worst where st: "st = (h, sz, worst)" by (cases st) auto
  from inv obtain ids where h: "length h = MaxNProbe" "sz = min n (length cs)" "fin_heap sz h" "heap_ok sz h"
    "sz = n \<longrightarrow> worst = fst (h ! 0)"
    and ids: "mset (take sz h) = mset (map (ent dists) ids)" "distinct ids" "set ids \<subseteq> set cs"
      "\<forall>c \<in> set cs - set ids. \<forall>i \<in> set ids. fval (dists ! i) \<le> fval (dists ! c)"
    unfolding scan_inv_def st by auto
  have szn: "sz \<le> n" "sz \<le> length h" using h n by auto
  have lids: "length ids = sz" using arg_cong [OF ids(1), of size] szn by simp
  have le_root: "fval (dists ! i) \<le> key h 0" if "i \<in> set ids" for i
  proof -
    have "ent dists i \<in> set (take sz h)" using ids(1) that by (metis image_eqI list.set_map mset_eq_setD)
    then obtain j where "j < sz" "h ! j = ent dists i" by (auto simp: in_set_conv_nth)
    then show ?thesis using heap_root_max [OF h(4), of j] by (simp add: key_def ent_def)
  qed
  consider "sz = n" "fle worst (dists ! c)" | "sz < n" | "sz = n" "\<not> fle worst (dists ! c)"
    using szn by linarith
  then show ?thesis
  proof cases
    case 1
    have "0 < sz" using 1 n by simp
    then have "\<exists>r. fst (h ! 0) = Fin r" using h(3) by (auto simp: fin_heap_def)
    then have "key h 0 \<le> d" using 1 h(5) fin by (auto simp: key_def)
    then have "\<forall>c' \<in> set (cs @ [c]) - set ids. \<forall>i \<in> set ids. fval (dists ! i) \<le> fval (dists ! c')"
      using ids(4) le_root fin(1) by fastforce
    moreover have "sz = min n (length (cs @ [c]))" using 1 h(2) by simp
    ultimately have "scan_inv dists n (cs @ [c]) st"
      unfolding st using h ids by (intro scan_invI [where ids = ids]) auto
    then show ?thesis using 1 by (simp add: heap_offer_def st)
  next
    case 2
    define h' where "h' = h[sz := ent dists c]"
    have sl: "sz < length h" using 2 n h(1) by simp
    have fin': "fin_heap (Suc sz) h'"
      using h(3) sl fin by (auto simp: fin_heap_def h'_def nth_list_update ent_def less_Suc_eq)
    have up: "up_ok (Suc sz) sz h'"
    proof -
      have "key h' j \<le> key h' ((j - 1) div 2)" if "0 < j" "j < Suc sz" "j \<noteq> sz" for j
        using that h(4) parent_less [of j] sl by (auto simp: heap_ok_def key_def h'_def)
      moreover have "(j - 1) div 2 \<noteq> sz" if "0 < j" "j < Suc sz" for j using that parent_less [of j] by simp
      ultimately show ?thesis unfolding up_ok_def by blast
    qed
    have tk: "mset (take (Suc sz) h') = mset (map (ent dists) (ids @ [c]))"
      using sl ids(1) by (simp add: h'_def take_Suc_conv_app_nth)
    define h2 where "h2 = heap_up sz h'"
    have h2: "heap_ok (Suc sz) h2" "fin_heap (Suc sz) h2" "mset (take (Suc sz) h2) = mset (take (Suc sz) h')"
      "length h2 = MaxNProbe"
      using heap_up_correct [OF fin' _ up] h(1) by (simp_all add: h2_def h'_def)
    have "length cs = sz" using 2 h(2) by simp
    then have "set ids = set cs"
      using lids ids(2,3) dc by (metis card_subset_eq distinct_card List.finite_set)
    have "scan_inv dists n (cs @ [c]) (h2, sz + 1, if sz + 1 = n then fst (h2 ! 0) else worst)"
    proof (intro scan_invI [where ids = "ids @ [c]"])
      show "sz + 1 = min n (length (cs @ [c]))" using 2 \<open>length cs = sz\<close> by simp
    qed (use h2 tk c ids(2) \<open>set ids = set cs\<close> in simp_all)
    then show ?thesis
      using 2 sl by (cases "Suc sz = n")
        (simp_all add: heap_offer_def st put_Some h'_def [symmetric] h2_def [symmetric] Let_def flip: ent_def)
  next
    case 3
    define h' where "h' = h[0 := ent dists c]"
    have s0: "0 < sz" "0 < length h" using 3 n h(1) by (auto simp: MaxNProbe_def)
    have hw: "\<exists>r. fst (h ! 0) = Fin r" using h(3) s0 by (auto simp: fin_heap_def)
    then have dlt: "d < key h 0" using 3 h(5) fin by (auto simp: key_def)
    have "h ! 0 \<in> set (take sz h)" using s0 szn by (force simp: in_set_conv_nth)
    then obtain r where r: "r \<in> set ids" "h ! 0 = ent dists r" using ids(1) by (metis image_iff list.set_map mset_eq_setD)
    have rk: "fval (dists ! r) = key h 0" using r by (simp add: key_def ent_def)
    have fin': "fin_heap n h'" using h(3) 3 fin by (simp add: h'_def ent_def fin_heap_update0)
    have down: "down_ok n 0 h'"
      using h(4) 3 s0 unfolding down_ok_def heap_ok_def key_def h'_def by (auto simp: nth_list_update)
    have "take sz h' = (take sz h)[0 := ent dists c]" by (simp add: h'_def take_update_swap)
    then have tk: "mset (take sz h') = add_mset (ent dists c) (mset (take sz h) - {#h ! 0#})"
      using s0 szn by (simp add: mset_update)
    define ids' where "ids' = remove1 r ids @ [c]"
    have tk': "mset (take sz h') = mset (map (ent dists) ids')"
      unfolding tk ids(1) r(2) ids'_def using r(1) by (simp add: image_mset_Diff)
    define h2 where "h2 = heap_down n 0 h'"
    have h2: "heap_ok n h2" "fin_heap n h2" "mset (take n h2) = mset (take n h')" "length h2 = MaxNProbe"
      using heap_down_correct [OF fin' n(1) down] h(1) by (simp_all add: h2_def h'_def)
    have s': "set ids' = insert c (set ids - {r})" using ids(2) by (auto simp: ids'_def)
    have dist': "distinct ids'" using ids(2,3) c by (auto simp: ids'_def)
    have far: "\<forall>c' \<in> set (cs @ [c]) - set ids'. \<forall>i \<in> set ids'. fval (dists ! i) \<le> fval (dists ! c')"
    proof (intro ballI)
      fix c' i assume c': "c' \<in> set (cs @ [c]) - set ids'" and i: "i \<in> set ids'"
      have "c' = r \<or> (c' \<in> set cs - set ids)" using c' s' by auto
      then have "fval (dists ! r) \<le> fval (dists ! c')" using ids(4) r(1) by blast
      then have "key h 0 \<le> fval (dists ! c')" using rk by simp
      moreover have "fval (dists ! i) \<le> key h 0" using i s' le_root dlt fin(1) by auto
      ultimately show "fval (dists ! i) \<le> fval (dists ! c')" by linarith
    qed
    have "scan_inv dists n (cs @ [c]) (h2, sz, fst (h2 ! 0))"
    proof (rule scan_invI)
      show "mset (take sz h2) = mset (map (ent dists) ids')" using h2(3) tk' 3 by simp
      show "set ids' \<subseteq> set (cs @ [c])" using s' ids(3) by auto
    qed (use h2 dist' far 3 h(2) in auto)
    then show ?thesis
      using 3 s0 by (simp add: heap_offer_def st put_Some h'_def [symmetric] h2_def [symmetric] Let_def flip: ent_def)
  qed
qed

definition unscanned :: "u64 list \<Rightarrow> nat \<Rightarrow> nat list" where
  "unscanned scanned K = filter (\<lambda>c. \<not> bit (scanned ! (c div 64)) (c mod 64)) [0..<K]"

lemma unscanned_Suc:
  "unscanned scanned (Suc c) = unscanned scanned c @ (if bit (scanned ! (c div 64)) (c mod 64) then [] else [c])"
  by (simp add: unscanned_def)

lemma next_scan_inv:
  assumes fin: "finite_scores dists" and K: "length dists \<le> 64 * length scanned"
    and n: "0 < n" "n \<le> MaxNProbe"
  shows "\<exists>st. next_scan dists scanned n (replicate MaxNProbe (Fin 0, 0), 0, f1e38) = Some st \<and>
    scan_inv dists n (unscanned scanned (length dists)) st"
proof -
  define K where "K = length dists"
  define W where "W = (K + 63) div 64"
  have W: "K \<le> 64 * W" "w < W \<Longrightarrow> 64 * w < K" for w unfolding W_def by linarith+
  have Wl: "W \<le> length scanned" using K unfolding W_def K_def by linarith
  define f where "f w c st = (if bit (scanned ! w) (c - w * 64) then Some st else do { d \<leftarrow> get dists c; heap_offer n d c st })"
    for w c and st :: "heap \<times> nat \<times> fl"
  have step: "\<exists>st'. f (c div 64) c st = Some st' \<and> scan_inv dists n (unscanned scanned (Suc c)) st'"
    if cK: "c < K" and sc: "scan_inv dists n (unscanned scanned c) st" for c st
  proof (cases "bit (scanned ! (c div 64)) (c mod 64)")
    case True
    then show ?thesis using cK sc by (simp add: f_def unscanned_Suc minus_div_mult_eq_mod)
  next
    case False
    obtain d where d: "dists ! c = Fin d" using fin cK unfolding finite_scores_def K_def by (meson nth_mem)
    have "\<forall>i \<in> set (unscanned scanned c). \<exists>r. dists ! i = Fin r"
      using fin cK by (auto simp: finite_scores_def K_def unscanned_def)
    from heap_offer_inv [OF sc n _ _ d this] cK False show ?thesis
      by (simp add: f_def unscanned_Suc get_Some K_def minus_div_mult_eq_mod unscanned_def)
  qed
  have inner: "\<exists>st'. ofold (f w) [w * 64..<min (w * 64 + 64) K] st = Some st' \<and>
      scan_inv dists n (unscanned scanned (w * 64 + (min (w * 64 + 64) K - w * 64))) st'"
    if w: "w < W" and st: "scan_inv dists n (unscanned scanned (w * 64)) st" for w st
  proof -
    have "\<exists>st'. ofold (f w) [w * 64..<min (w * 64 + 64) K] st = Some st' \<and>
      scan_inv dists n (unscanned scanned (w * 64 + length [w * 64..<min (w * 64 + 64) K])) st'"
    proof (rule ofold_prefix_rule [where P = "\<lambda>i. scan_inv dists n (unscanned scanned (w * 64 + i))"])
      show "scan_inv dists n (unscanned scanned (w * 64 + 0)) st" using st by simp
      fix i s assume i: "i < length [w * 64..<min (w * 64 + 64) K]" and s: "scan_inv dists n (unscanned scanned (w * 64 + i)) s"
      have "(w * 64 + i) div 64 = w" "w * 64 + i < K" using i by auto
      with step [of "w * 64 + i" s] s i
      show "\<exists>st'. f w ([w * 64..<min (w * 64 + 64) K] ! i) s = Some st' \<and> scan_inv dists n (unscanned scanned (w * 64 + Suc i)) st'"
        by simp
    qed
    then show ?thesis by simp
  qed
  have "\<exists>st. next_scan dists scanned n (replicate MaxNProbe (Fin 0, 0), 0, f1e38) = Some st \<and>
    scan_inv dists n (unscanned scanned (min (length [0..<W] * 64) K)) st"
    unfolding next_scan_def K_def [symmetric] W_def [symmetric]
  proof (rule ofold_prefix_rule [where P = "\<lambda>w. scan_inv dists n (unscanned scanned (min (w * 64) K))"])
    show "scan_inv dists n (unscanned scanned (min (0 * 64) K)) (replicate MaxNProbe (Fin 0, 0), 0, f1e38)"
      by (rule scan_invI [where ids = "[]"]) (use n in \<open>auto simp: unscanned_def fin_heap_def heap_ok_def\<close>)
    fix w st assume w: "w < length [0..<W]" and st: "scan_inv dists n (unscanned scanned (min (w * 64) K)) st"
    have wK: "w * 64 < K" using W(2) [of w] w by simp
    then have m: "min (w * 64) K = w * 64" "w * 64 + (min (w * 64 + 64) K - w * 64) = min (Suc w * 64) K" by auto
    have "w < W" using w by simp
    from inner [OF this] st obtain st' where "ofold (f w) [w * 64..<min (w * 64 + 64) K] st = Some st'"
      "scan_inv dists n (unscanned scanned (min (Suc w * 64) K)) st'" unfolding m by blast
    moreover have "f w = (\<lambda>c st. if bit (scanned ! w) (c - w * 64) then Some st else do { d \<leftarrow> get dists c; heap_offer n d c st })"
      by (simp add: f_def fun_eq_iff)
    ultimately show "\<exists>st'. do { mask \<leftarrow> get scanned ([0..<W] ! w);
        ofold (\<lambda>c st. if bit mask (c - [0..<W] ! w * 64) then Some st
                        else do { d \<leftarrow> get dists c; heap_offer n d c st })
          [[0..<W] ! w * 64..<min ([0..<W] ! w * 64 + 64) K] st } = Some st' \<and>
       scan_inv dists n (unscanned scanned (min (Suc w * 64) K)) st'"
      using w Wl by (simp add: get_Some)
  qed
  then show ?thesis using W(1) by (simp add: K_def min_absorb2 mult.commute)
qed

lemma mset_map_choice: "mset es = mset (map f xs) \<Longrightarrow> \<exists>ys. mset ys = mset xs \<and> es = map f ys"
proof (induction es arbitrary: xs)
  case (Cons e es)
  then have "e \<in> set (map f xs)" using mset_eq_setD [OF Cons.prems] by (metis list.set_intros(1))
  then obtain x where x: "x \<in> set xs" "f x = e" by auto
  then obtain us vs where xs: "xs = us @ x # vs" by (auto dest: split_list)
  have "mset (e # es) = mset (map f (x # us @ vs))" using Cons.prems unfolding xs by simp
  then have "mset es = mset (map f (us @ vs))" using x(2) by simp
  from Cons.IH [OF this] obtain ys where "mset ys = mset (us @ vs)" "es = map f ys" by blast
  then show ?case using x xs by (intro exI [of _ "x # ys"]) simp
qed simp

text \<open>The heap of \<open>PickNextNUnscanned\<close> finds the nearest unscanned clusters, in ascending order.\<close>

lemma PickNextNUnscanned_nearest:
  assumes fin: "finite_scores dists" and K: "length dists \<le> 64 * length scanned"
    and n: "n \<le> MaxNProbe" "n \<le> length picked"
  shows "\<exists>ids. PickNextNUnscanned dists scanned n picked =
      Some (map of_nat ids @ replicate (n - length ids) NOID @ drop n picked) \<and>
    nearest dists (unscanned scanned (length dists)) n ids"
proof (cases "n = 0")
  case True
  then show ?thesis by (intro exI [of _ "[]"]) (simp add: PickNextNUnscanned_def nearest_def)
next
  case False
  define cs where "cs = unscanned scanned (length dists)"
  obtain h sz worst where scan: "next_scan dists scanned n (replicate MaxNProbe (Fin 0, 0), 0, f1e38) = Some (h, sz, worst)"
    and inv: "scan_inv dists n cs (h, sz, worst)"
    using next_scan_inv [OF fin K _ n(1)] False unfolding cs_def by (metis neq0_conv prod_cases3)
  from inv obtain ids where h: "sz = min n (length cs)" "fin_heap sz h" "heap_ok sz h"
    and ids: "mset (take sz h) = mset (map (ent dists) ids)" "distinct ids" "set ids \<subseteq> set cs"
      "\<forall>c \<in> set cs - set ids. \<forall>i \<in> set ids. fval (dists ! i) \<le> fval (dists ! c)"
    unfolding scan_inv_def by auto
  have "sz \<le> length (replicate n NOID @ drop n picked)" using h(1) by simp
  from heap_extract_sorts [OF h(2,3) this] obtain es where es: "mset es = mset (take sz h)" "sorted (map (fval \<circ> fst) es)"
    "heap_extract sz h (replicate n NOID @ drop n picked) = map snd es @ drop sz (replicate n NOID @ drop n picked)" by blast
  obtain ys where ys: "mset ys = mset ids" "es = map (ent dists) ys"
    using mset_map_choice [of es "ent dists" ids] es(1) ids(1) by auto
  have len: "length ys = sz"
    using arg_cong [OF es(1), of size] h(2) by (simp add: ys(2) fin_heap_def)
  have "drop sz (replicate n NOID @ drop n picked) = replicate (n - length ys) NOID @ drop n picked"
    using h(1) len by simp
  moreover have "nearest dists cs n ys"
    using ids es(2) len h(1) ys mset_eq_setD [OF ys(1)] mset_eq_imp_distinct_iff [OF ys(1)]
    unfolding nearest_def by (simp add: ent_def comp_def)
  ultimately show ?thesis
    using False n(2) scan es(3) ys(2) unfolding cs_def [symmetric]
    by (intro exI [of _ ys]) (simp add: PickNextNUnscanned_def min_absorb1 ent_def comp_def)
qed

subsection \<open>The sorted insertion of PickTopNCentroids\<close>

definition scores_ok :: "fl list \<Rightarrow> bool" where
  "scores_ok dists \<longleftrightarrow> (\<forall>x \<in> set dists. \<exists>r. x = Fin r \<and> 0 \<le> r \<and> r \<le> 2 ^ 60)"

lemma scores_finite: "scores_ok dists \<Longrightarrow> finite_scores dists"
  by (auto simp: scores_ok_def finite_scores_def)

lemma scores_nth: "scores_ok dists \<Longrightarrow> i < length dists \<Longrightarrow> \<exists>r. dists ! i = Fin r \<and> 0 \<le> r \<and> r \<le> 2 ^ 60"
  unfolding scores_ok_def by (meson nth_mem)

lemma not_f1e38_le: "r \<le> 2 ^ 60 \<Longrightarrow> \<not> fle f1e38 (Fin r)"
proof -
  assume r: "r \<le> 2 ^ 60"
  have "(2::real) powi 100 = 2 ^ 100" by (simp add: power_int_def)
  then have "rnd F32 (2 ^ 100) = 2 ^ 100" using rnd_powi [of F32 100] by simp
  moreover have "rnd F32 (2 ^ 100) \<le> rnd F32 (10 ^ 38)" by (rule rnd_mono) simp
  moreover have "r < 2 ^ 100" using r by (rule order_le_less_trans) simp
  ultimately have "r < rnd F32 (10 ^ 38)" by linarith
  then have "\<not> fle (Fin (rnd F32 (10 ^ 38))) (Fin r)" by (simp only: fle.simps linorder_not_le not_False_eq_True)
  moreover have "f1e38 = Fin (rnd F32 (10 ^ 38))" unfolding f1e38_def by (rule fround_Fin_F32) simp
  ultimately show ?thesis by metis
qed

lemma of_nat_NOID: "i < 65535 \<Longrightarrow> (of_nat i :: u16) \<noteq> NOID"
proof
  assume i: "i < 65535" and eq: "(of_nat i :: u16) = NOID"
  have "unat (of_nat i :: u16) = i" using i by simp
  moreover have "unat NOID = 65535" by (simp add: NOID_def)
  ultimately show False using eq i by simp
qed

lemma insert_pos_eq:
  assumes len: "length ids \<le> n" and lt: "\<forall>i \<in> set ids. i < length dists \<and> i < 65535"
    and fin: "finite_scores dists" "d = Fin x" and k: "k \<le> length (takeWhile (\<lambda>i. fval (dists ! i) \<le> x) ids)"
  shows "insert_pos dists d (map of_nat ids @ replicate (n - length ids) NOID @ rest) (n - k) k =
    Some (length (takeWhile (\<lambda>i. fval (dists ! i) \<le> x) ids))"
  using k
proof (induction "n - k" arbitrary: k)
  case 0
  then have "k = length (takeWhile (\<lambda>i. fval (dists ! i) \<le> x) ids)"
    using len length_takeWhile_le [of "\<lambda>i. fval (dists ! i) \<le> x" ids] by linarith
  with 0 show ?case by simp
next
  case (Suc m)
  define t where "t = length (takeWhile (\<lambda>i. fval (dists ! i) \<le> x) ids)"
  define L where "L = map of_nat ids @ replicate (n - length ids) NOID @ rest"
  have kn: "k < n" "n - k = Suc m" "n - (k + 1) = m" using Suc.hyps(2) by auto
  have kL: "k < length L" using kn len by (simp add: L_def)
  show ?case
  proof (cases "k < length ids")
    case False
    have "t \<le> length ids" by (simp add: t_def length_takeWhile_le)
    with False Suc.prems have "k = t" "k = length ids" by (auto simp: t_def)
    then have "L ! k = NOID" using kn by (simp add: L_def nth_append)
    then show ?thesis using kn kL \<open>k = t\<close> by (simp add: L_def [symmetric] get_Some t_def)
  next
    case True
    have i: "ids ! k < length dists" "ids ! k < 65535" using lt True by auto
    have Lk: "L ! k = of_nat (ids ! k)" using True by (simp add: L_def nth_append)
    obtain y where y: "dists ! (ids ! k) = Fin y" using fin(1) i(1) unfolding finite_scores_def by (meson nth_mem)
    have un: "unat (of_nat (ids ! k) :: u16) = ids ! k" using i by simp
    show ?thesis
    proof (cases "k < t")
      case True
      then have "y \<le> x" using y set_takeWhileD [of "ids ! k" "\<lambda>i. fval (dists ! i) \<le> x" ids] takeWhile_nth [of k] unfolding t_def
        by (metis fl.sel nth_mem)
      moreover have "insert_pos dists d L m (k + 1) = Some t"
        using Suc.hyps(1) [of "k + 1"] kn True by (simp add: L_def t_def)
      ultimately show ?thesis
        using kn kL i y un of_nat_NOID [OF i(2)] fin(2) by (simp add: L_def [symmetric] get_Some Lk t_def)
    next
      case False
      then have kt: "k = t" using Suc.prems by (simp add: t_def)
      then have "\<not> fval (dists ! (ids ! k)) \<le> x"
        using True nth_length_takeWhile [of "\<lambda>i. fval (dists ! i) \<le> x" ids] by (simp add: t_def)
      then show ?thesis
        using kn kL i y un of_nat_NOID [OF i(2)] fin(2)
        unfolding L_def [symmetric] t_def [symmetric] kt [symmetric] by (simp add: get_Some Lk)
    qed
  qed
qed

lemma shift_from_eq:
  assumes "pos < n" "n \<le> length xs"
  shows "(shift_from n pos xs)[pos := x] = take pos xs @ x # take (n - 1 - pos) (drop pos xs) @ drop n xs"
proof -
  define P where "P m p \<longleftrightarrow> length p = length xs \<and>
    (\<forall>i < length xs. p ! i = (if n - m \<le> i \<and> i < n then xs ! (i - 1) else xs ! i))" for m and p :: "u16 list"
  have "P (length (rev [pos + 1..<n])) (fold (\<lambda>i p. p[i := p ! (i - 1)]) (rev [pos + 1..<n]) xs)"
  proof (rule fold_prefix_rule)
    show "P 0 xs" unfolding P_def by auto
    fix m p assume m: "m < length (rev [pos + 1..<n])" and p: "P m p"
    have "rev [pos + 1..<n] ! m = n - Suc m" using m by (simp add: rev_nth)
    moreover have "n - Suc m < length xs" "0 < n - Suc m" using m assms by auto
    ultimately show "P (Suc m) (p[rev [pos + 1..<n] ! m := p ! (rev [pos + 1..<n] ! m - 1)])"
      using p m assms unfolding P_def by (auto simp: nth_list_update)
  qed
  then have s: "length (shift_from n pos xs) = length xs"
    "\<And>i. i < length xs \<Longrightarrow> shift_from n pos xs ! i = (if pos + 1 \<le> i \<and> i < n then xs ! (i - 1) else xs ! i)"
    using assms unfolding shift_from_def P_def by auto
  show ?thesis
  proof (rule nth_equalityI)
    fix i assume "i < length ((shift_from n pos xs)[pos := x])"
    then have i: "i < length xs" using s by simp
    consider "i < pos" | "i = pos" | "pos < i" "i < n" | "n \<le> i" by linarith
    then show "(shift_from n pos xs)[pos := x] ! i = (take pos xs @ x # take (n - 1 - pos) (drop pos xs) @ drop n xs) ! i"
      using assms i s by cases (auto simp: nth_append nth_Cons')
  qed (use assms s in auto)
qed

lemma sorted_insert_takeWhile:
  fixes f :: "'a \<Rightarrow> real" and c :: 'a
  assumes "sorted (map f ids)"
  defines "t \<equiv> length (takeWhile (\<lambda>i. f i \<le> f c) ids)"
  shows "sorted (map f (take t ids @ c # drop t ids))"
proof -
  have tk: "take t ids = takeWhile (\<lambda>i. f i \<le> f c) ids" unfolding t_def by (metis takeWhile_eq_take)
  have dr: "drop t ids = dropWhile (\<lambda>i. f i \<le> f c) ids" unfolding t_def by (metis dropWhile_eq_drop)
  have s: "sorted (map f (take t ids @ drop t ids))" using assms by simp
  have "\<forall>i \<in> set (take t ids). f i \<le> f c" unfolding tk by (auto dest: set_takeWhileD)
  moreover have "\<forall>i \<in> set (drop t ids). f c \<le> f i"
  proof (cases "drop t ids")
    case (Cons y ys)
    then have "\<not> f y \<le> f c" unfolding dr by (metis dropWhile_eq_Cons_conv)
    with s Cons show ?thesis by (auto simp: sorted_append)
  qed simp
  ultimately have "\<forall>x \<in> set (take t ids). \<forall>y \<in> set (drop t ids). f x \<le> f y"
    "\<forall>x \<in> set (take t ids). f x \<le> f c" "\<forall>y \<in> set (drop t ids). f c \<le> f y"
    by (auto intro: order_trans)
  then show ?thesis using s unfolding map_append sorted_append by auto
qed

lemma nearest_insert:
  assumes near: "nearest dists cs n ids" and c: "c \<notin> set cs"
  defines "t \<equiv> length (takeWhile (\<lambda>i. fval (dists ! i) \<le> fval (dists ! c)) ids)"
  defines "ids' \<equiv> take n (take t ids @ c # drop t ids)"
  assumes tn: "t < n"
  shows "nearest dists (cs @ [c]) n ids'"
proof -
  define full where "full = take t ids @ c # drop t ids"
  note nd = near [unfolded nearest_def]
  have setf: "set full = insert c (set ids)" by (simp add: full_def) (metis append_take_drop_id set_append)
  have cids: "c \<notin> set ids" using nd c by auto
  then have distf: "distinct full"
    using nd unfolding full_def by (metis append_take_drop_id distinct.simps(2) distinct_append in_set_dropD in_set_takeD
        Un_iff disjoint_insert(1) list.simps(15) set_append)
  have sortf: "sorted (map (\<lambda>i. fval (dists ! i)) full)"
    unfolding full_def t_def using nd by (intro sorted_insert_takeWhile) simp
  have lenf: "length full = Suc (length ids)" by (simp add: full_def)
  have far: "fval (dists ! i) \<le> fval (dists ! c')" if c': "c' \<in> set (cs @ [c]) - set ids'" and i: "i \<in> set ids'" for c' i
  proof (cases "c' \<in> set full")
    case True
    then have "c' \<in> set (drop n full)"
      using c' append_take_drop_id [of n full] unfolding ids'_def full_def [symmetric] by (metis DiffD2 Un_iff set_append)
    moreover have "i \<in> set (take n full)" using i by (simp add: ids'_def full_def)
    moreover have "sorted (map (\<lambda>i. fval (dists ! i)) (take n full @ drop n full))" using sortf by simp
    ultimately show ?thesis unfolding map_append sorted_append by auto
  next
    case False
    then have c'f: "c' \<in> set cs - set ids" using c' setf by auto
    then have old: "\<forall>i \<in> set ids. fval (dists ! i) \<le> fval (dists ! c')" using nd by auto
    have "length ids = n"
    proof (rule ccontr)
      assume "length ids \<noteq> n"
      then have "length ids = length cs" using nd by (auto simp: min_def split: if_splits)
      have "length cs \<le> card (set ids)" using \<open>length ids = length cs\<close> nd by (simp add: distinct_card)
      then have "card (set cs) \<le> card (set ids)" using card_length [of cs] by linarith
      then have "set ids = set cs" using nd by (metis card_seteq List.finite_set)
      then show False using c'f by auto
    qed
    then have "\<not> fval (dists ! (ids ! t)) \<le> fval (dists ! c)" "ids ! t \<in> set ids"
      using tn nth_length_takeWhile [of "\<lambda>i. fval (dists ! i) \<le> fval (dists ! c)" ids] by (auto simp: t_def)
    then have "fval (dists ! c) \<le> fval (dists ! c')" using old by force
    then show ?thesis using i old setf unfolding ids'_def full_def [symmetric] by (auto dest: in_set_takeD)
  qed
  have "distinct ids'" "sorted (map (\<lambda>i. fval (dists ! i)) ids')"
    using distf sortf unfolding ids'_def full_def [symmetric] by (simp_all add: sorted_wrt_take flip: take_map)
  moreover have "set ids' \<subseteq> set (cs @ [c])"
    using setf nd unfolding ids'_def full_def [symmetric] by (auto dest: in_set_takeD)
  moreover have "length ids' = min n (length (cs @ [c]))"
    using lenf nd unfolding ids'_def full_def [symmetric] by (auto simp: min_def split: if_splits)
  ultimately show ?thesis using far unfolding nearest_def by blast
qed

lemma nearest_skip:
  assumes near: "nearest dists cs n ids" and full: "length ids = n"
    and le: "\<forall>i \<in> set ids. fval (dists ! i) \<le> fval (dists ! c)"
  shows "nearest dists (cs @ [c]) n ids"
  using assms unfolding nearest_def by (auto simp: min_def split: if_splits)

definition topn_inv :: "fl list \<Rightarrow> nat \<Rightarrow> nat list \<Rightarrow> u16 list \<Rightarrow> u16 list \<times> fl \<Rightarrow> bool" where
  "topn_inv dists n cs rest st \<longleftrightarrow> (\<exists>ids. nearest dists cs n ids \<and>
     st = (map of_nat ids @ replicate (n - length ids) NOID @ rest,
           if length ids = n then dists ! last ids else f1e38))"

lemma topn_step_inv:
  assumes ok: "scores_ok dists" and K: "length dists \<le> 65535" and n: "0 < n" and c: "c < length dists"
    and inv: "topn_inv dists n [0..<c] rest st"
  shows "\<exists>st'. topn_step dists n c st = Some st' \<and> topn_inv dists n [0..<Suc c] rest st'"
proof -
  obtain ids where near: "nearest dists [0..<c] n ids"
    and st: "st = (map of_nat ids @ replicate (n - length ids) NOID @ rest, if length ids = n then dists ! last ids else f1e38)"
    using inv unfolding topn_inv_def by blast
  define L where "L = map of_nat ids @ replicate (n - length ids) NOID @ rest"
  define w where "w = (if length ids = n then dists ! last ids else f1e38)"
  note nd = near [unfolded nearest_def]
  have idl: "\<forall>i \<in> set ids. i < length dists \<and> i < 65535" "length ids \<le> n" using nd c K by fastforce+
  obtain x where x: "dists ! c = Fin x" "x \<le> 2 ^ 60" using scores_nth [OF ok c] by auto
  define t where "t = length (takeWhile (\<lambda>i. fval (dists ! i) \<le> x) ids)"
  have pos: "insert_pos dists (dists ! c) L n 0 = Some t"
    using insert_pos_eq [OF idl(2,1) scores_finite [OF ok] x(1), of 0 rest] unfolding L_def t_def by simp
  have tl: "t \<le> length ids" by (simp add: t_def length_takeWhile_le)
  show ?thesis
  proof (cases "fle w (dists ! c)")
    case True
    then have full: "length ids = n" using not_f1e38_le [OF x(2)] x(1) by (auto simp: w_def split: if_splits)
    then have ne: "ids \<noteq> []" using n by auto
    then obtain y where y: "dists ! last ids = Fin y" using scores_nth [OF ok] idl(1) last_in_set by blast
    have "fval (dists ! i) \<le> fval (dists ! c)" if "i \<in> set ids" for i
    proof -
      have "fval (dists ! i) \<le> fval (dists ! last ids)"
      proof -
        obtain k where "k < length ids" "ids ! k = i" using \<open>i \<in> set ids\<close> by (auto simp: in_set_conv_nth)
        moreover have "sorted (map (\<lambda>c. fval (dists ! c)) ids)" using nd by simp
        ultimately show ?thesis
          using sorted_nth_mono [of "map (\<lambda>c. fval (dists ! c)) ids" k "length ids - 1"] ne by (simp add: last_conv_nth)
      qed
      then show ?thesis using True full y x by (simp add: w_def)
    qed
    then have "nearest dists ([0..<c] @ [c]) n ids" using near full by (intro nearest_skip) auto
    then have "topn_inv dists n [0..<Suc c] rest st" unfolding topn_inv_def st by auto
    then show ?thesis using True c by (simp add: topn_step_def st w_def get_Some)
  next
    case False
    have tn: "t < n"
    proof (rule ccontr)
      assume "\<not> t < n"
      then have full: "t = length ids" "length ids = n" "ids \<noteq> []" using tl idl(2) n by auto
      then have k: "length ids - 1 < length (takeWhile (\<lambda>i. fval (dists ! i) \<le> x) ids)"
        unfolding t_def [symmetric] by (cases ids) auto
      have "last ids = takeWhile (\<lambda>i. fval (dists ! i) \<le> x) ids ! (length ids - 1)"
        unfolding takeWhile_nth [OF k] using full(3) by (rule last_conv_nth)
      with nth_mem [OF k] have "last ids \<in> set (takeWhile (\<lambda>i. fval (dists ! i) \<le> x) ids)" by simp
      then have "last ids \<in> set ids" "fval (dists ! last ids) \<le> x" by (auto dest: set_takeWhileD)
      moreover obtain y where "dists ! last ids = Fin y" using scores_nth [OF ok] idl(1) \<open>last ids \<in> set ids\<close> by blast
      ultimately show False using False full x by (simp add: w_def)
    qed
    define ids' where "ids' = take n (take t ids @ c # drop t ids)"
    have near': "nearest dists ([0..<c] @ [c]) n ids'"
      using nearest_insert [OF near, of c] tn x(1) by (simp add: ids'_def t_def)
    have ids': "ids' = take t ids @ c # take (n - 1 - t) (drop t ids)"
    proof -
      have "n - t = Suc (n - 1 - t)" using tn by simp
      then show ?thesis using tl by (simp add: ids'_def)
    qed
    have L': "(shift_from n t L)[t := of_nat c] = map of_nat ids' @ replicate (n - length ids') NOID @ rest"
    proof -
      have "n \<le> length L" using idl(2) by (simp add: L_def)
      from shift_from_eq [OF tn this, of "of_nat c"] show ?thesis
        using tl tn idl(2) by (cases "length ids = n") (auto simp: L_def ids' take_map drop_map)
    qed
    define L2 where "L2 = map of_nat ids' @ replicate (n - length ids') NOID @ rest"
    have len': "length ids' \<le> n" "c \<in> set ids'" by (simp add: ids'_def) (simp add: ids')
    have lt': "\<forall>i \<in> set ids'. i < length dists \<and> i < 65535" using near' c K unfolding nearest_def by fastforce
    have step: "topn_step dists n c st = (do { worstID \<leftarrow> get L2 (n - 1);
         if worstID = NOID then Some (L2, f1e38) else do { w \<leftarrow> get dists (unat worstID); Some (L2, w) } })"
      using False c tn pos L' unfolding st L_def [symmetric] w_def [symmetric] L2_def [symmetric]
      by (simp add: topn_step_def get_Some)
    have inv': "topn_inv dists n [0..<Suc c] rest (L2, if length ids' = n then dists ! last ids' else f1e38)"
      unfolding topn_inv_def L2_def using near' by auto
    have get: "get L2 (n - 1) = Some (if length ids' = n then of_nat (last ids') else NOID)"
      using n len' by (auto simp: L2_def get_def nth_append last_conv_nth)
    show ?thesis
    proof (cases "length ids' = n")
      case True
      then have "last ids' \<in> set ids'" using n by auto
      then have "last ids' < length dists" "last ids' < 65535" using lt' by auto
      then show ?thesis using step get inv' True of_nat_NOID [of "last ids'"] by (simp add: get_Some)
    next
      case False
      then show ?thesis using step get inv' by simp
    qed
  qed
qed

text \<open>\<open>PickTopNCentroids\<close> returns the nearest clusters in ascending order.\<close>

lemma pickTopN_insertion:
  assumes ok: "scores_ok dists" and K: "length dists \<le> 65535" and n: "n \<noteq> 1" "n \<le> length picked"
  shows "\<exists>ids. PickTopNCentroids tgt dists n picked =
      Some (map of_nat ids @ replicate (n - length ids) NOID @ drop n picked) \<and>
    nearest dists [0..<length dists] n ids"
proof (cases "n = 0")
  case True
  have "ofold (topn_step dists 0) cs (p, f1e38) = Some (p, f1e38)" if "set cs \<subseteq> {..<length dists}" for cs p
    using that
  proof (induction cs)
    case (Cons c cs)
    then obtain x where "dists ! c = Fin x" using scores_nth [OF ok, of c] by auto
    with Cons show ?case by (simp add: topn_step_def get_Some)
  qed simp
  from this [of "[0..<length dists]" picked] show ?thesis
    using True by (intro exI [of _ "[]"]) (simp add: PickTopNCentroids_def nearest_def atLeast_upt)
next
  case False
  define st0 where "st0 = (replicate n NOID @ drop n picked, f1e38)"
  have init: "topn_inv dists n [0..<0] (drop n picked) st0"
    unfolding topn_inv_def st0_def using False by (intro exI [of _ "[]"]) (simp add: nearest_def)
  have "\<exists>st. ofold (topn_step dists n) [0..<length dists] st0 = Some st \<and>
      topn_inv dists n [0..<length [0..<length dists]] (drop n picked) st"
    using topn_step_inv [OF ok K] False
    by (intro ofold_prefix_rule [where P = "\<lambda>c. topn_inv dists n [0..<c] (drop n picked)"] init) auto
  then obtain ids w where "ofold (topn_step dists n) [0..<length dists] st0 =
      Some (map of_nat ids @ replicate (n - length ids) NOID @ drop n picked, w)" "nearest dists [0..<length dists] n ids"
    unfolding topn_inv_def by auto
  then show ?thesis using n unfolding st0_def by (intro exI [of _ ids]) (simp add: PickTopNCentroids_def min_absorb1)
qed

subsection \<open>The minimum searches\<close>

text \<open>Both return a cluster with the smallest score; the assembly may return another one than the
  first on ties.\<close>

definition argmin_ok :: "fl list \<Rightarrow> u16 \<Rightarrow> bool" where
  "argmin_ok dists r \<longleftrightarrow> (\<exists>i < length dists. r = of_nat i \<and> (\<forall>j < length dists. fval (dists ! i) \<le> fval (dists ! j)))"

lemma pickArgminScalar_ok:
  assumes "scores_ok dists" "dists \<noteq> []"
  shows "\<exists>r. pickArgminScalar dists = Some r \<and> argmin_ok dists r"
proof -
  define P where "P n st \<longleftrightarrow> (\<exists>i \<le> n. st = (of_nat i :: u16, dists ! i) \<and> (\<forall>j\<le>n. fval (dists ! i) \<le> fval (dists ! j)))" for n st
  define f where "f i st = (case st of (bestI, bestD) \<Rightarrow> if flt (dists ! i) bestD then (of_nat i :: u16, dists ! i) else (bestI, bestD))" for i st
  have "P (length [1..<length dists]) (fold f [1..<length dists] (0, dists ! 0))"
  proof (rule fold_prefix_rule)
    show "P 0 (0, dists ! 0)" by (simp add: P_def)
    fix n st assume n: "n < length [1..<length dists]" and st: "P n st"
    obtain i where i: "i \<le> n" "st = (of_nat i, dists ! i)" "\<forall>j\<le>n. fval (dists ! i) \<le> fval (dists ! j)"
      using st unfolding P_def by blast
    have lt: "Suc n < length dists" "i < length dists" using n i by auto
    obtain x y where xy: "dists ! Suc n = Fin x" "dists ! i = Fin y"
      using scores_nth [OF assms(1) lt(1)] scores_nth [OF assms(1) lt(2)] by auto
    show "P (Suc n) (f ([1..<length dists] ! n) st)"
    proof (cases "x < y")
      case True
      have "\<forall>j\<le>Suc n. fval (dists ! Suc n) \<le> fval (dists ! j)"
        using i(3) xy True by (auto simp: le_Suc_eq intro: order_trans)
      then show ?thesis using True xy i(2) n unfolding P_def by (intro exI [of _ "Suc n"]) (simp add: f_def)
    next
      case False
      have "\<forall>j\<le>Suc n. fval (dists ! i) \<le> fval (dists ! j)" using i(3) xy False by (auto simp: le_Suc_eq)
      then show ?thesis using False xy i n unfolding P_def by (intro exI [of _ i]) (simp add: f_def)
    qed
  qed
  moreover have "f = (\<lambda>i (bestI, bestD). if flt (dists ! i) bestD then (of_nat i, dists ! i) else (bestI, bestD))"
    by (simp add: fun_eq_iff f_def)
  ultimately have "P (length dists - 1) (fold (\<lambda>i (bestI, bestD). if flt (dists ! i) bestD then (of_nat i, dists ! i)
      else (bestI, bestD)) [1..<length dists] (0, dists ! 0))" by simp
  then obtain i where i: "i \<le> length dists - 1" "\<forall>j\<le>length dists - 1. fval (dists ! i) \<le> fval (dists ! j)"
    "fst (fold (\<lambda>i (bestI, bestD). if flt (dists ! i) bestD then (of_nat i, dists ! i)
      else (bestI, bestD)) [1..<length dists] (0, dists ! 0)) = (of_nat i :: u16)"
    unfolding P_def by (metis fst_conv)
  have "i < length dists" "\<forall>j<length dists. fval (dists ! i) \<le> fval (dists ! j)" using i(1,2) assms(2) by (cases dists; auto)+
  then show ?thesis
    using assms(2) i(3) unfolding argmin_ok_def pickArgminScalar_def by (auto simp: get_Some)
qed

definition lane_ok :: "fl list \<Rightarrow> fl \<times> nat \<Rightarrow> bool" where
  "lane_ok dists p \<longleftrightarrow> snd p < length dists \<and> fst p = dists ! snd p"

lemma blend_min_ok:
  assumes "scores_ok dists" "lane_ok dists p" "lane_ok dists q"
  shows "lane_ok dists (blend_min p q)" "fval (fst (blend_min p q)) \<le> fval (fst p)" "fval (fst (blend_min p q)) \<le> fval (fst q)"
proof -
  obtain x y where "fst p = Fin x" "fst q = Fin y"
    using assms scores_nth [OF assms(1)] unfolding lane_ok_def by metis
  then show "lane_ok dists (blend_min p q)" "fval (fst (blend_min p q)) \<le> fval (fst p)" "fval (fst (blend_min p q)) \<le> fval (fst q)"
    using assms by (auto simp: blend_min_def)
qed

lemma argmin_lanes:
  assumes ok: "scores_ok dists" and k: "0 < k" "8 * k \<le> length dists"
  defines "step \<equiv> \<lambda>k lanes. map (\<lambda>l. blend_min (lanes ! l) (dists ! (8 * k + l), 8 * k + l)) [0..<8]"
  shows "\<forall>l<8. lane_ok dists (fold step [0..<k] (map (\<lambda>l. (Inf False, l)) [0..<8]) ! l) \<and>
    (\<forall>j<k. fval (fst (fold step [0..<k] (map (\<lambda>l. (Inf False, l)) [0..<8]) ! l)) \<le> fval (dists ! (8 * j + l)))"
  using k
proof (induction k)
  case (Suc k)
  define lanes where "lanes = fold step [0..<k] (map (\<lambda>l. (Inf False, l)) [0..<8])"
  show ?case
  proof (intro allI impI)
    fix l :: nat assume l: "l < 8"
    have i: "8 * k + l < length dists" using l Suc.prems by simp
    obtain x where x: "dists ! (8 * k + l) = Fin x" using scores_nth [OF ok i] by auto
    have new: "fold step [0..<Suc k] (map (\<lambda>l. (Inf False, l)) [0..<8]) ! l =
      blend_min (lanes ! l) (dists ! (8 * k + l), 8 * k + l)"
    proof -
      have X: "fold step [0..<Suc k] (map (\<lambda>l. (Inf False, l)) [0..<8]) = step k lanes" by (simp add: lanes_def)
      show ?thesis unfolding X using l by (simp add: step_def)
    qed
    show "lane_ok dists (fold step [0..<Suc k] (map (\<lambda>l. (Inf False, l)) [0..<8]) ! l) \<and>
      (\<forall>j<Suc k. fval (fst (fold step [0..<Suc k] (map (\<lambda>l. (Inf False, l)) [0..<8]) ! l)) \<le> fval (dists ! (8 * j + l)))"
    proof (cases "k = 0")
      case True
      then have "lanes ! l = (Inf False, l)" using l by (simp add: lanes_def)
      then show ?thesis unfolding new using True x i by (simp add: blend_min_def lane_ok_def)
    next
      case False
      then have IH: "lane_ok dists (lanes ! l)" "\<forall>j<k. fval (fst (lanes ! l)) \<le> fval (dists ! (8 * j + l))"
        using Suc l by (auto simp: lanes_def)
      have "lane_ok dists (dists ! (8 * k + l), 8 * k + l)" using i by (simp add: lane_ok_def)
      note p = blend_min_ok [OF ok IH(1) this]
      show ?thesis unfolding new using p IH(2) by (auto simp: less_Suc_eq intro: order_trans)
    qed
  qed
qed simp

lemma argminAVX2_ok:
  assumes ok: "scores_ok dists" and len: "length dists mod 8 = 0" "dists \<noteq> []"
  shows "argmin_ok dists (argminAVX2 dists)"
proof -
  define k where "k = length dists div 8"
  define L where "L = fold (\<lambda>k lanes. map (\<lambda>l. blend_min (lanes ! l) (dists ! (8 * k + l), 8 * k + l)) [0..<8]) [0..<k] (map (\<lambda>l. (Inf False, l)) [0..<8])"
  have k: "length dists = 8 * k" using len by (auto simp: k_def)
  then have "0 < k" using len(2) by (cases k) auto
  note k = k this
  have L: "lane_ok dists (L ! l)" "j < k \<Longrightarrow> fval (fst (L ! l)) \<le> fval (dists ! (8 * j + l))" if "l < 8" for l j
    using argmin_lanes [OF ok k(2)] k(1) that unfolding L_def by auto
  define a where "a l = blend_min (L ! l) (L ! (l + 4))" for l
  define b where "b l = blend_min (a l) (a ((l + 2) mod 4))" for l
  define m where "m = blend_min (b 0) (b 1)"
  have a: "lane_ok dists (a l)" "fval (fst (a l)) \<le> fval (fst (L ! l))" "fval (fst (a l)) \<le> fval (fst (L ! (l + 4)))" if "l < 4" for l
    using blend_min_ok [OF ok L(1) L(1), of l "l + 4"] that by (auto simp: a_def)
  have b: "lane_ok dists (b l)" "fval (fst (b l)) \<le> fval (fst (a l))" "fval (fst (b l)) \<le> fval (fst (a (l + 2)))" if "l < 2" for l
    using blend_min_ok [OF ok a(1) a(1), of l "l + 2"] that by (auto simp: b_def)
  note m = blend_min_ok [OF ok b(1) b(1), of 0 1, folded m_def, simplified]
  have res: "argminAVX2 dists = of_nat (snd m)"
    unfolding argminAVX2_def k_def [symmetric] Let_def L_def [symmetric] argmin_fold_def
    by (simp add: m_def b_def a_def)
  have "fval (fst m) \<le> fval (fst (L ! l))" if l8: "l < 8" for l
  proof -
    consider "l = 0" | "l = 1" | "l = 2" | "l = 3" | "l = 4" | "l = 5" | "l = 6" | "l = 7" using l8 by linarith
    then show ?thesis
      using m(2,3) b(2,3) [of 0] b(2,3) [of 1] a(2,3) [of 0] a(2,3) [of 1] a(2,3) [of 2] a(2,3) [of 3]
      by cases (simp_all add: numeral_eq_Suc)
  qed
  then have "fval (fst m) \<le> fval (dists ! j)" if j: "j < length dists" for j
  proof -
    have "j mod 8 < 8" "j div 8 < k" "8 * (j div 8) + j mod 8 = j" using j k by auto
    with L(2) [of "j mod 8" "j div 8"] \<open>\<And>l. l < 8 \<Longrightarrow> fval (fst m) \<le> fval (fst (L ! l))\<close> [of "j mod 8"]
    show ?thesis by simp
  qed
  then have "\<forall>j<length dists. fval (fst m) \<le> fval (dists ! j)" by blast
  then show ?thesis using m(1) unfolding argmin_ok_def res lane_ok_def by auto
qed

lemma pickArgminFast_ok:
  assumes "scores_ok dists" "dists \<noteq> []"
  shows "\<exists>r. pickArgminFast tgt dists = Some r \<and> argmin_ok dists r"
  using argminAVX2_ok [OF assms(1)] pickArgminScalar_ok [OF assms] assms(2) by (auto simp: pickArgminFast_def)

text \<open>The nearest clusters, whichever way they are picked.\<close>

lemma PickTopNCentroids_nearest:
  assumes ok: "scores_ok dists" and K: "dists \<noteq> []" "length dists \<le> 65535" and n: "n \<le> length picked"
  shows "\<exists>ids. PickTopNCentroids tgt dists n picked =
      Some (map of_nat ids @ replicate (n - length ids) NOID @ drop n picked) \<and>
    nearest dists [0..<length dists] n ids"
proof (cases "n = 1")
  case True
  obtain r where r: "pickArgminFast tgt dists = Some r" "argmin_ok dists r"
    using pickArgminFast_ok [OF ok K(1)] by blast
  then obtain i where i: "i < length dists" "r = of_nat i" "\<forall>j < length dists. fval (dists ! i) \<le> fval (dists ! j)"
    unfolding argmin_ok_def by blast
  have "nearest dists [0..<length dists] 1 [i]" using i K(1) by (auto simp: nearest_def Suc_le_eq)
  then show ?thesis
    using True n r(1) i(2) by (intro exI [of _ "[i]"]) (cases picked; simp add: PickTopNCentroids_def)
next
  case False
  then show ?thesis using pickTopN_insertion [OF ok K(2) _ n] by simp
qed

subsection \<open>Scores\<close>

definition score :: "bool \<Rightarrow> fl list \<Rightarrow> fl list \<Rightarrow> nat \<Rightarrow> nat list \<Rightarrow> nat \<Rightarrow> fl" where
  \<comment> \<open>the score of cluster \<open>c\<close> over the dimensions \<open>ds\<close>\<close>
  "score fused q centroids K ds c = sqacc fused (map (\<lambda>d. fsub F32 (q ! d) (centroids ! (d * K + c))) ds) (Fin 0)"

lemma score_snoc:
  "score fused q centroids K (ds @ [d]) c =
    (let diff = fsub F32 (q ! d) (centroids ! (d * K + c)) in fmac fused F32 (score fused q centroids K ds c) diff diff)"
  by (simp add: score_def sqacc_def Let_def)

lemma put_loop:
  \<comment> \<open>a loop that updates \<open>out[c]\<close> for every \<open>c < K\<close>\<close>
  assumes "K \<le> length out"
    and "\<And>c out'. c < K \<Longrightarrow> length out' = length out \<Longrightarrow> f c out' = put out' c (g c (out' ! c))"
  shows "ofold f [0..<K] out = Some (map (\<lambda>c. g c (out ! c)) [0..<K] @ drop K out)"
proof -
  have "\<exists>s. ofold f [0..<K] out = Some s \<and> s = map (\<lambda>c. g c (out ! c)) [0..<length [0..<K]] @ drop (length [0..<K]) out"
  proof (rule ofold_prefix_rule)
    fix i s assume i: "i < length [0..<K]" and s: "s = map (\<lambda>c. g c (out ! c)) [0..<i] @ drop i out"
    have "length s = length out" "s ! i = out ! i" using i s assms(1) by (simp_all add: nth_append)
    moreover have "s[i := x] = map (\<lambda>c. g c (out ! c)) [0..<i] @ x # drop (Suc i) out" for x
      using i assms(1) by (simp add: s list_update_append Cons_nth_drop_Suc [symmetric])
    ultimately show "\<exists>s'. f ([0..<K] ! i) s = Some s' \<and> s' = map (\<lambda>c. g c (out ! c)) [0..<Suc i] @ drop (Suc i) out"
      using i assms by (simp add: put_Some)
  qed simp
  then show ?thesis by simp
qed

lemma soa_index: "d < 14 \<Longrightarrow> c < K \<Longrightarrow> d * K + c < 14 * (K::nat)"
proof -
  assume "d < 14" "c < K"
  then have "d * K + c < (d + 1) * K" "(d + 1) * K \<le> 14 * K" by (auto intro: mult_right_mono)
  then show ?thesis by linarith
qed

lemma scoreAllCentroidsGeneric_eq:
  assumes "K \<le> length out" "length centroids = 14 * K"
  shows "scoreAllCentroidsGeneric fused q centroids K out =
    Some (map (score fused q centroids K [0..<14]) [0..<K] @ drop K out)"
proof -
  define step where "step d c s = (let diff = fsub F32 (q ! d) (centroids ! (d * K + c)) in fmac fused F32 s diff diff)" for d c s
  have inner: "ofold (\<lambda>c out. do {
               x \<leftarrow> get centroids (d * K + c);
               let diff = fsub F32 (q ! d) x;
               put out c (fmac fused F32 (out ! c) diff diff)
             }) [0..<K] s = Some (map (\<lambda>c. step d c (s ! c)) [0..<K] @ drop K s)" if "d < 14" "K \<le> length s" for d s
    using that(2)
  proof (rule put_loop)
    fix c out' assume "c < K"
    then show "do { x \<leftarrow> get centroids (d * K + c); let diff = fsub F32 (q ! d) x;
        put out' c (fmac fused F32 (out' ! c) diff diff) } = put out' c (step d c (out' ! c))"
      using soa_index [OF that(1)] assms(2) by (simp add: get_Some step_def Let_def)
  qed
  have "\<exists>s. ofold (\<lambda>d out. ofold (\<lambda>c out. do {
               x \<leftarrow> get centroids (d * K + c);
               let diff = fsub F32 (q ! d) x;
               put out c (fmac fused F32 (out ! c) diff diff)
             }) [0..<K] out) [0..<14] (replicate K (Fin 0) @ drop K out) = Some s \<and>
     s = map (score fused q centroids K [0..<length [0..<14]]) [0..<K] @ drop K out"
  proof (rule ofold_prefix_rule [where P = "\<lambda>d s. s = map (score fused q centroids K [0..<d]) [0..<K] @ drop K out"])
    show "replicate K (Fin 0) @ drop K out = map (score fused q centroids K [0..<0]) [0..<K] @ drop K out"
      by (rule nth_equalityI) (auto simp: score_def sqacc_def nth_append)
    fix d s assume d: "d < length [0..<14]" and s: "s = map (score fused q centroids K [0..<d]) [0..<K] @ drop K out"
    have "drop K s = drop K out" "K \<le> length s" using s assms(1) by simp_all
    moreover have "map (\<lambda>c. step d c (s ! c)) [0..<K] = map (score fused q centroids K [0..<Suc d]) [0..<K]"
      by (simp add: s nth_append step_def score_snoc)
    ultimately show "\<exists>s'. ofold (\<lambda>c out. do {
               x \<leftarrow> get centroids ([0..<14] ! d * K + c);
               let diff = fsub F32 (q ! ([0..<14] ! d)) x;
               put out c (fmac fused F32 (out ! c) diff diff)
             }) [0..<K] s = Some s' \<and> s' = map (score fused q centroids K [0..<Suc d]) [0..<K] @ drop K out"
      using d inner [of d s] by simp
  qed
  then show ?thesis using assms(1) by (simp add: scoreAllCentroidsGeneric_def)
qed

lemma fma_zero: "fma F a b (Fin 0) = fmul F a b"
proof (cases "\<exists>x y. a = Fin x \<and> b = Fin y")
  case False
  then have "fma F a b (Fin 0) = fadd F (fmul F a b) (Fin 0)" by (cases a; cases b) auto
  moreover have "fmul F a b = NaN \<or> (\<exists>s. fmul F a b = Inf s)" using False by (cases a; cases b) auto
  ultimately show ?thesis by auto
qed auto

lemma scoreAllCentroidsAVX2_eq:
  assumes "K mod 16 = 0" "length centroids = 14 * K"
  shows "scoreAllCentroidsAVX2 q centroids K out =
    Some (map (score True q centroids K [0..<14]) [0..<K] @ drop K out)"
proof -
  define step where "step d out = map (\<lambda>c. let diff = fsub F32 (q ! d) (centroids ! (d * K + c))
      in fma F32 diff diff (out ! c)) [0..<K]" for d out
  have rest: "(fold step [1..<14] (map (score True q centroids K [0..<1]) [0..<K])) =
      map (score True q centroids K [0..<Suc (length [1..<14])]) [0..<K]"
  proof (rule fold_prefix_rule [where P = "\<lambda>d s. s = map (score True q centroids K [0..<Suc d]) [0..<K]"])
    fix i s assume i: "i < length [1..<14]" and s: "s = map (score True q centroids K [0..<Suc i]) [0..<K]"
    have "[0..<Suc (Suc i)] = [0..<Suc i] @ [Suc i]" by simp
    then have "score True q centroids K [0..<Suc (Suc i)] c =
        (let diff = fsub F32 (q ! Suc i) (centroids ! (Suc i * K + c))
         in fma F32 diff diff (score True q centroids K [0..<Suc i] c))" for c
      by (simp only: score_snoc fmac_def if_True)
    then show "step ([1..<14] ! i) s = map (score True q centroids K [0..<Suc (Suc i)]) [0..<K]"
      using i by (simp add: step_def s del: upt_Suc)
  qed simp
  have first: "map (\<lambda>c. let diff = fsub F32 (q ! 0) (centroids ! c) in fmul F32 diff diff) [0..<K] =
      map (score True q centroids K [0..<1]) [0..<K]"
    by (simp add: score_def sqacc_def fmac_def fma_zero Let_def)
  have "Suc (length [1..<14]) = 14" by simp
  then show ?thesis
    using assms rest unfolding scoreAllCentroidsAVX2_def first step_def [symmetric] by (simp only: Let_def) simp
qed

lemma ScoreAllCentroids_eq:
  assumes "K \<le> length out" "length centroids = 14 * K" "amd64 tgt \<longrightarrow> K mod 16 = 0"
  shows "ScoreAllCentroids tgt q centroids K out =
    Some (map (score (amd64 tgt \<or> fuses tgt) q centroids K [0..<14]) [0..<K] @ drop K out)"
  using assms scoreAllCentroidsGeneric_eq [OF assms(1,2), of "fuses tgt" q] scoreAllCentroidsAVX2_eq [of K centroids q out]
  by (auto simp: ScoreAllCentroids_def)

text \<open>A score is close to the squared distance it stands for.\<close>

lemma score_near:
  assumes "shape_ok idx" "\<forall>x \<in> set (Centroids idx). centroid_ok x" "c < unat (ixK idx)" "length qi = 14"
  shows "\<exists>s. score fused (to_f32 qi) (Centroids idx) (unat (ixK idx)) [0..<14] c = Fin s \<and> 0 \<le> s \<and> s \<le> 2 ^ 60 \<and>
    sqrt s \<le> sqrt (ssd (ivec qi) (cval idx c)) * (1 + 9 * eps) + 1 / 2 ^ 52 \<and>
    sqrt (ssd (ivec qi) (cval idx c)) * (1 - 9 * eps) - 1 / 2 ^ 52 \<le> sqrt s"
proof -
  have q: "to_f32 qi ! d = Fin (ivec qi d)" if "d < 14" for d
  proof -
    have "\<bar>sint (qi ! d)\<bar> \<le> 2 ^ nat (prec F32)" using i16_range [of "qi ! d"] by (auto simp: abs_le_iff)
    then show ?thesis using that assms(4) by (simp add: to_f32_def ivec_def)
  qed
  have "map (\<lambda>d. fsub F32 (to_f32 qi ! d) (Centroids idx ! (d * unat (ixK idx) + c))) [0..<14] =
      fdiffs (ivec qi) (cval idx c) [0..<14]"
    using q those_centroid(3) [OF assms(1-3)] by (simp add: fdiffs_def)
  moreover have "\<bar>ivec qi d - cval idx c d\<bar> \<le> 2 ^ 20" if "d < 14" for d
    using ivec_le [of qi d] those_centroid(2) [OF assms(1-3) that] by simp
  from sqacc_dist [of "ivec qi" "cval idx c", OF this]
  obtain s where "sqacc fused (fdiffs (ivec qi) (cval idx c) [0..<14]) (Fin 0) = Fin s" "0 \<le> s" "s \<le> 2 ^ 60"
    "sqrt s \<le> sqrt (ssd (ivec qi) (cval idx c)) * (1 + 9 * eps) + 1 / 2 ^ 52"
    "sqrt (ssd (ivec qi) (cval idx c)) * (1 - 9 * eps) - 1 / 2 ^ 52 \<le> sqrt s" by blast
  ultimately show ?thesis by (simp add: score_def)
qed

end
