(* ===== verification/IvfSearch.thy ===== *)
theory IvfSearch
  imports Centroid
begin

text \<open>
  The cluster search: \<open>internal/search/ivf.go\<close>, \<open>bbox.go\<close>, \<open>fast.go\<close> and
  \<open>thresholds.go\<close>.  \<open>scanCluster\<close> filters a cluster by the triangle inequality and
  by its bounding box, then scans its blocks; the lemma \<open>scanCluster_eq\<close> shows
  that on a well-formed index both filters, the kernel's early exits and the lane
  filter are no-ops: the top five becomes what inserting every slot gives.  The
  search functions are then determined by the list of clusters they scan.
\<close>

subsection \<open>AABBLowerBoundF32\<close>

definition aabb_gap :: "fl \<Rightarrow> fl \<Rightarrow> fl \<Rightarrow> fl" where
  "aabb_gap qd bnLo bnHi =
     (if flt bnHi qd then fsub F32 qd bnHi else if flt qd bnLo then fsub F32 bnLo qd else Fin 0)"

definition AABBLowerBoundF32 :: "bool \<Rightarrow> fl list \<Rightarrow> i16 list \<Rightarrow> i16 list \<Rightarrow> fl" where
  "AABBLowerBoundF32 fused q bmin bmax =
     fold (\<lambda>d s. let t = aabb_gap (q ! d) (fl_of_int F32 (sint (bmin ! d))) (fl_of_int F32 (sint (bmax ! d)))
                 in fmac fused F32 s t t) [0..<14] (Fin 0)"

subsection \<open>Scratch and thresholds\<close>

record IVFScratch =
  CentroidDists :: "fl list"
  Picked :: "u16 list"
  Scanned :: "u64 list"
  Top :: Top5
  BlockSum :: "fl list"

definition new_scratch :: "nat \<Rightarrow> IVFScratch" where
  \<comment> \<open>the zero value of the arrays, for \<open>K\<close> clusters\<close>
  "new_scratch K = \<lparr>CentroidDists = replicate K (Fin 0), Picked = replicate MaxNProbe 0,
     Scanned = replicate (K div 64) 0, Top = \<lparr>tdist = replicate 5 0, tlabel = replicate 5 0\<rparr>,
     BlockSum = replicate 8 (Fin 0)\<rparr>"

definition FastNProbe :: nat where
  "FastNProbe = 8"

definition EscalateNByClass :: "nat list" where
  "EscalateNByClass = [8, 8, 32, 192, 56, 16]"

definition ExtremeWorstThreshold :: "int list" where
  "ExtremeWorstThreshold = [0, 0, 0, 0, 0, 100905918]"

subsection \<open>scanCluster\<close>

definition scan_block :: "target \<Rightarrow> fl list \<Rightarrow> i16 list \<Rightarrow> IVFIndex \<Rightarrow> nat \<Rightarrow> IVFScratch \<Rightarrow> IVFScratch option" where
  "scan_block tgt qf qi idx b scr = do {
     let worst = WorstF32 (Top scr);
     block \<leftarrow> gslice (BlockData idx) (b * 112) (b * 112 + 112);
     let (alive, accs) = ScanBlock8AVX2 tgt qf block worst;
     if \<not> alive then Some (scr\<lparr>BlockSum := accs\<rparr>)
     else do {
       top \<leftarrow> rerank_lanes InsertI64 qi block (Labels idx) (b * 8) worst accs (Top scr);
       Some (scr\<lparr>BlockSum := accs, Top := top\<rparr>)
     }
   }"

definition triangle_skip :: "IVFIndex \<Rightarrow> nat \<Rightarrow> fl \<Rightarrow> fl \<Rightarrow> bool option" where
  "triangle_skip idx c cd worst =
     (if flt (Fin 0) cd then do {
        radius \<leftarrow> get (Radii idx) c;
        let gap = fsub F32 (sqrt32 cd) radius;
        Some (flt (Fin 0) gap \<and> fle worst (fmul F32 gap gap))
      }
      else Some False)"

definition scanCluster ::
  "target \<Rightarrow> nat \<Rightarrow> fl list \<Rightarrow> i16 list \<Rightarrow> IVFIndex \<Rightarrow> IVFScratch \<Rightarrow> IVFScratch option" where
  "scanCluster tgt c qf qi idx scr = do {
     let worst = WorstF32 (Top scr);
     cd \<leftarrow> get (CentroidDists scr) c;
     skip \<leftarrow> triangle_skip idx c cd worst;
     if skip then Some scr
     else do {
       bmin \<leftarrow> gslice (BboxMin idx) (c * 16) (c * 16 + 16);
       bmax \<leftarrow> gslice (BboxMax idx) (c * 16) (c * 16 + 16);
       if fle worst (AABBLowerBoundF32 (fuses tgt) qf bmin bmax) then Some scr
       else do {
         startBlock \<leftarrow> get (Offsets idx) c;
         endBlock \<leftarrow> get (Offsets idx) (c + 1);
         ofold (scan_block tgt qf qi idx) [unat startBlock..<unat endBlock] scr
       }
     }
   }"

subsection \<open>The search functions\<close>

definition mark_scanned :: "nat \<Rightarrow> u64 list \<Rightarrow> u64 list option" where
  "mark_scanned c scanned = do {
     w \<leftarrow> get scanned (c div 64);
     put scanned (c div 64) (set_bit (c mod 64) w)
   }"

fun scan_picked ::
  "target \<Rightarrow> fl list \<Rightarrow> i16 list \<Rightarrow> IVFIndex \<Rightarrow> u16 list \<Rightarrow> IVFScratch \<Rightarrow> IVFScratch option" where
  "scan_picked tgt qf qi idx [] scr = Some scr"
| "scan_picked tgt qf qi idx (c # cs) scr =
     (if c = NOID then Some scr
      else do {
        scr1 \<leftarrow> scanCluster tgt (unat c) qf qi idx scr;
        scanned \<leftarrow> mark_scanned (unat c) (Scanned scr1);
        scan_picked tgt qf qi idx cs (scr1\<lparr>Scanned := scanned\<rparr>)
      })"

definition fast_tier ::
  "target \<Rightarrow> fl list \<Rightarrow> i16 list \<Rightarrow> IVFIndex \<Rightarrow> nat \<Rightarrow> IVFScratch \<Rightarrow> IVFScratch option" where
  "fast_tier tgt qf qi idx nprobe scr = do {
     cds \<leftarrow> ScoreAllCentroids tgt qf (Centroids idx) (unat (ixK idx)) (CentroidDists scr);
     picked \<leftarrow> gslice (Picked scr) 0 nprobe;
     picked' \<leftarrow> PickTopNCentroids tgt cds nprobe picked;
     scan_picked tgt qf qi idx picked'
       (scr\<lparr>CentroidDists := cds, Picked := picked' @ drop nprobe (Picked scr),
            Top := Reset (Top scr), Scanned := replicate (length (Scanned scr)) 0\<rparr>)
   }"

definition needs_sweep :: "u8 \<Rightarrow> int \<Rightarrow> bool option" where
  "needs_sweep fc worst =
     (if fc = 2 \<or> fc = 3 \<or> fc = 4 then Some True
      else do {
        thr \<leftarrow> get ExtremeWorstThreshold (unat fc);
        Some (0 < thr \<and> thr < worst)
      })"

definition FraudCountIVF ::
  "target \<Rightarrow> fl list \<Rightarrow> i16 list \<Rightarrow> IVFIndex \<Rightarrow> IVFScratch \<Rightarrow> (u8 \<times> IVFScratch) option" where
  "FraudCountIVF tgt qf qi idx scr = do {
     scr1 \<leftarrow> fast_tier tgt qf qi idx FastNProbe scr;
     let fc = FraudCount (Top scr1);
     sweep \<leftarrow> needs_sweep fc (WorstI64 (Top scr1));
     if sweep then do {
       n \<leftarrow> get EscalateNByClass (unat fc);
       picked \<leftarrow> gslice (Picked scr1) 0 n;
       picked' \<leftarrow> PickNextNUnscanned (CentroidDists scr1) (Scanned scr1) n picked;
       scr2 \<leftarrow> scan_picked tgt qf qi idx picked' (scr1\<lparr>Picked := picked' @ drop n (Picked scr1)\<rparr>);
       Some (FraudCount (Top scr2), scr2)
     }
     else Some (fc, scr1)
   }"

definition FraudCountFastOnly ::
  "target \<Rightarrow> fl list \<Rightarrow> i16 list \<Rightarrow> IVFIndex \<Rightarrow> IVFScratch \<Rightarrow> nat \<Rightarrow> (u8 \<times> int \<times> IVFScratch) option" where
  "FraudCountFastOnly tgt qf qi idx scr nprobe = do {
     scr1 \<leftarrow> fast_tier tgt qf qi idx (min nprobe MaxNProbe) scr;
     Some (FraudCount (Top scr1), WorstI64 (Top scr1), scr1)
   }"

definition FraudCountFull ::
  "nat \<Rightarrow> target \<Rightarrow> fl list \<Rightarrow> i16 list \<Rightarrow> IVFIndex \<Rightarrow> IVFScratch \<Rightarrow> (u8 \<times> IVFScratch) option" where
  "FraudCountFull K tgt qf qi idx scr = do {
     (_, _, scr1) \<leftarrow> FraudCountFastOnly tgt qf qi idx scr FastNProbe;
     scr2 \<leftarrow> ofold (\<lambda>c scr. do {
         w \<leftarrow> get (Scanned scr) (c div 64);
         if bit w (c mod 64) then Some scr else scanCluster tgt c qf qi idx scr
       }) [0..<K] scr1;
     Some (FraudCount (Top scr2), scr2)
   }"

definition escalate_fresh ::
  \<comment> \<open>the escalation of the calibration entry points, with a local \<open>escPicked\<close>\<close>
  "target \<Rightarrow> fl list \<Rightarrow> i16 list \<Rightarrow> IVFIndex \<Rightarrow> nat \<Rightarrow> IVFScratch \<Rightarrow> (u8 \<times> IVFScratch) option" where
  "escalate_fresh tgt qf qi idx n scr = do {
     picked \<leftarrow> PickNextNUnscanned (CentroidDists scr) (Scanned scr) n (replicate n 0);
     scr' \<leftarrow> scan_picked tgt qf qi idx picked scr;
     Some (FraudCount (Top scr'), scr')
   }"

definition FraudCountTopN ::
  "target \<Rightarrow> fl list \<Rightarrow> i16 list \<Rightarrow> IVFIndex \<Rightarrow> IVFScratch \<Rightarrow> nat \<Rightarrow> (u8 \<times> IVFScratch) option" where
  "FraudCountTopN tgt qf qi idx scr escalateN = do {
     (_, _, scr1) \<leftarrow> FraudCountFastOnly tgt qf qi idx scr FastNProbe;
     let fc = FraudCount (Top scr1);
     sweep \<leftarrow> needs_sweep fc (WorstI64 (Top scr1));
     if \<not> sweep then Some (fc, scr1)
     else escalate_fresh tgt qf qi idx (min escalateN MaxNProbe) scr1
   }"

definition FraudCountTopNByClass ::
  "target \<Rightarrow> fl list \<Rightarrow> i16 list \<Rightarrow> IVFIndex \<Rightarrow> IVFScratch \<Rightarrow> int list \<Rightarrow> (u8 \<times> IVFScratch) option" where
  "FraudCountTopNByClass tgt qf qi idx scr escalateN = do {
     (_, _, scr1) \<leftarrow> FraudCountFastOnly tgt qf qi idx scr FastNProbe;
     let fc = FraudCount (Top scr1);
     sweep \<leftarrow> needs_sweep fc (WorstI64 (Top scr1));
     if \<not> sweep then Some (fc, scr1)
     else do {
       n \<leftarrow> get escalateN (unat fc);
       let n' = min n (int MaxNProbe);
       if n' \<le> 0 then Some (fc, scr1) else escalate_fresh tgt qf qi idx (nat n') scr1
     }
   }"

subsection \<open>The filters are sound\<close>

definition box_gap :: "int \<Rightarrow> int \<Rightarrow> int \<Rightarrow> int" where
  "box_gap q lo hi = (if hi < q then q - hi else if q < lo then lo - q else 0)"

lemma to_f32_nth:
  assumes "length qi = 14" "d < 14"
  shows "to_f32 qi ! d = Fin (of_int (sint (qi ! d)))"
proof -
  have "\<bar>sint (qi ! d)\<bar> \<le> 2 ^ nat (prec F32)" using i16_range [of "qi ! d"] by (auto simp: abs_le_iff)
  then show ?thesis using assms by (simp add: to_f32_def)
qed

lemma aabb_gap_eq:
  assumes "\<bar>q\<bar> \<le> 32768" "\<bar>lo\<bar> \<le> 32768" "\<bar>hi\<bar> \<le> 32768"
  shows "aabb_gap (Fin (of_int q)) (fl_of_int F32 lo) (fl_of_int F32 hi) = Fin (of_int (box_gap q lo hi))"
proof -
  have e: "fl_of_int F32 lo = Fin (of_int lo)" "fl_of_int F32 hi = Fin (of_int hi)"
    using assms by (intro fl_of_int_exact; simp)+
  have "\<bar>q - hi\<bar> \<le> 2 ^ nat (prec F32)" "\<bar>lo - q\<bar> \<le> 2 ^ nat (prec F32)" using assms by auto
  from fround_of_int [OF this(1)] fround_of_int [OF this(2)] show ?thesis
    by (simp add: aabb_gap_def e fsub_def box_gap_def)
qed

lemma box_gap_le: "lo \<le> x \<Longrightarrow> x \<le> hi \<Longrightarrow> \<bar>box_gap q lo hi\<bar> \<le> \<bar>q - x\<bar>"
  by (auto simp: box_gap_def)

lemma box_gap_range: "\<bar>q\<bar> \<le> 32768 \<Longrightarrow> \<bar>lo\<bar> \<le> 32768 \<Longrightarrow> \<bar>hi\<bar> \<le> 32768 \<Longrightarrow> \<bar>box_gap q lo hi\<bar> \<le> 65536"
  by (auto simp: box_gap_def)

text \<open>Both indexes sum the squared gaps to a box; a zero gap may be added or skipped.\<close>

lemma gap_acc:
  assumes gr: "\<And>d. \<bar>g d\<bar> \<le> (65536 :: int)"
    and f: "\<And>d r. d < 14 \<Longrightarrow> f d (Fin r) = fmac fused F32 (Fin r) (Fin (of_int (g d))) (Fin (of_int (g d))) \<or>
      (f d (Fin r) = Fin r \<and> g d = 0)"
  shows "\<exists>r. fold f [0..<14] (Fin 0) = Fin r \<and> acc_ok r (of_int (\<Sum>d<14. (g d)\<^sup>2)) 15"
proof -
  have g2: "(g d)\<^sup>2 \<le> 65536\<^sup>2" for d using gr by (rule square_le_of_abs_le)
  define P where "P n s \<longleftrightarrow> (\<exists>r. s = Fin r \<and> acc_ok r (of_int (\<Sum>d<n. (g d)\<^sup>2)) (Suc n))" for n s
  have "P (length [0..<14]) (fold f [0..<14] (Fin 0))"
  proof (rule fold_prefix_rule)
    show "P 0 (Fin 0)" by (simp add: P_def acc_ok_0)
    fix n s assume n: "n < length [0..<14]" and "P n s"
    then obtain r where r: "s = Fin r" "acc_ok r (of_int (\<Sum>d<n. (g d)\<^sup>2)) (Suc n)" by (auto simp: P_def)
    have "(\<Sum>d<n. (g d)\<^sup>2) \<le> (\<Sum>d<n. 65536\<^sup>2)" by (rule sum_mono) (rule g2)
    also have "\<dots> \<le> 14 * 65536\<^sup>2" using n by simp
    finally have "(\<Sum>d<n. (g d)\<^sup>2) \<le> 2 ^ 59" by simp
    then have S: "(0::real) \<le> of_int (\<Sum>d<n. (g d)\<^sup>2)" "real_of_int (\<Sum>d<n. (g d)\<^sup>2) \<le> 2 ^ 59"
      by (simp add: sum_nonneg, metis of_int_le_iff of_int_numeral of_int_power)
    have "\<bar>g n\<bar> \<le> 2 ^ 29" using gr [of n] by simp
    from fmac_square_acc [OF r(2) _ S this, of fused] n obtain r' where r':
      "fmac fused F32 (Fin r) (Fin (of_int (g n))) (Fin (of_int (g n))) = Fin r'"
      "acc_ok r' (of_int (\<Sum>d<n. (g d)\<^sup>2) + (of_int (g n))\<^sup>2) (Suc (Suc n))" by auto
    have n14: "n < 14" using n by simp
    from f [OF this, of r] show "P (Suc n) (f ([0..<14] ! n) s)"
    proof
      assume "f n (Fin r) = fmac fused F32 (Fin r) (Fin (of_int (g n))) (Fin (of_int (g n)))"
      then show ?thesis using n14 r(1) r' by (simp add: P_def)
    next
      assume "f n (Fin r) = Fin r \<and> g n = 0"
      then show ?thesis using n14 r(1) acc_ok_mono [OF r(2) _ S(1) order_refl, of "Suc (Suc n)"] by (simp add: P_def)
    qed
  qed
  then obtain r where r: "fold f [0..<14] (Fin 0) = Fin r" "acc_ok r (of_int (\<Sum>d<length [0..<14]. (g d)\<^sup>2)) (Suc (length [0..<14]))"
    unfolding P_def by blast
  have n: "length [0..<14] = 14" "Suc 14 = 15" by simp_all
  show ?thesis using r unfolding n by blast
qed

lemma i16_abs: "\<bar>sint (w :: i16)\<bar> \<le> 32768"
  using i16_range [of w] by auto

lemma AABB_acc:
  assumes "length qi = 14"
  shows "\<exists>r. AABBLowerBoundF32 fused (to_f32 qi) bmin bmax = Fin r \<and>
    acc_ok r (of_int (\<Sum>d<14. (box_gap (sint (qi ! d)) (sint (bmin ! d)) (sint (bmax ! d)))\<^sup>2)) 15"
  unfolding AABBLowerBoundF32_def
proof (rule gap_acc)
  show "\<bar>box_gap (sint (qi ! d)) (sint (bmin ! d)) (sint (bmax ! d))\<bar> \<le> 65536" for d by (intro box_gap_range i16_abs)
  fix d :: nat and r :: real assume "d < 14"
  then have "aabb_gap (to_f32 qi ! d) (fl_of_int F32 (sint (bmin ! d))) (fl_of_int F32 (sint (bmax ! d))) =
      Fin (of_int (box_gap (sint (qi ! d)) (sint (bmin ! d)) (sint (bmax ! d))))"
    unfolding to_f32_nth [OF assms \<open>d < 14\<close>] by (intro aabb_gap_eq i16_abs)
  then show "(let t = aabb_gap (to_f32 qi ! d) (fl_of_int F32 (sint (bmin ! d))) (fl_of_int F32 (sint (bmax ! d))) in fmac fused F32 (Fin r) t t) =
      fmac fused F32 (Fin r) (Fin (of_int (box_gap (sint (qi ! d)) (sint (bmin ! d)) (sint (bmax ! d)))))
        (Fin (of_int (box_gap (sint (qi ! d)) (sint (bmin ! d)) (sint (bmax ! d))))) \<or>
      (let t = aabb_gap (to_f32 qi ! d) (fl_of_int F32 (sint (bmin ! d))) (fl_of_int F32 (sint (bmax ! d))) in fmac fused F32 (Fin r) t t) = Fin r \<and>
      box_gap (sint (qi ! d)) (sint (bmin ! d)) (sint (bmax ! d)) = 0" by (simp only: Let_def simp_thms)
qed

lemma gap_prune:
  \<comment> \<open>a box a bound of this kind rejects holds no candidate below the worst distance\<close>
  assumes lb: "\<exists>r. lb = Fin r \<and> acc_ok r (of_int (\<Sum>d<14. (box_gap (sint (qi ! d)) (sint (bmin ! d)) (sint (bmax ! d)))\<^sup>2)) 15"
    and w: "w \<le> 2 ^ 62" and box: "in_box bmin bmax v" and fire: "fle (worst32 w) lb"
  shows "w \<le> sq_dist qi v"
proof (rule ccontr)
  assume "\<not> w \<le> sq_dist qi v"
  define S where "S = (\<Sum>d<14. (box_gap (sint (qi ! d)) (sint (bmin ! d)) (sint (bmax ! d)))\<^sup>2)"
  obtain r where r: "lb = Fin r" "acc_ok r (of_int S) 15" using lb unfolding S_def by blast
  have "S \<le> sq_dist qi v" unfolding S_def sq_dist_def
  proof (rule sum_mono)
    fix d :: nat assume "d \<in> {..<14}"
    then have "\<bar>box_gap (sint (qi ! d)) (sint (bmin ! d)) (sint (bmax ! d))\<bar> \<le> \<bar>sint (qi ! d) - sint (v ! d)\<bar>"
      using box by (intro box_gap_le) (auto simp: in_box_def)
    then show "(box_gap (sint (qi ! d)) (sint (bmin ! d)) (sint (bmax ! d)))\<^sup>2 \<le> (sint (qi ! d) - sint (v ! d))\<^sup>2"
      by (simp add: abs_le_square_iff)
  qed
  moreover have "0 \<le> S" by (simp add: S_def sum_nonneg)
  ultimately obtain x where "worst32 w = Fin x" "r < x"
    using margin [OF sq_dist_nonneg sq_dist_le r(2), of qi v w] \<open>\<not> w \<le> sq_dist qi v\<close> w by auto
  then show False using fire r(1) by simp
qed

lemmas AABB_prune = gap_prune [OF AABB_acc]

lemma ssd_ivec: "ssd (ivec a) (ivec b) = of_int (sq_dist a b)"
proof -
  have "(ivec a d - ivec b d)\<^sup>2 = real_of_int ((sint (a ! d) - sint (b ! d))\<^sup>2)" for d
    unfolding ivec_def by (simp only: of_int_diff of_int_power)
  then show ?thesis by (simp only: ssd_def sq_dist_def of_int_sum)
qed

lemma ivec_quantized: "quantized v \<Longrightarrow> d < 14 \<Longrightarrow> \<bar>ivec v d\<bar> \<le> 10000"
proof -
  assume "quantized v" "d < 14"
  then have "\<bar>sint (v ! d)\<bar> \<le> 10000" by (simp add: quantized_def)
  then show ?thesis unfolding ivec_def by (metis of_int_abs of_int_le_iff of_int_numeral)
qed

lemma sqrt32_score:
  assumes s: "0 \<le> s" "s \<le> 2 ^ 60" and q: "sqrt s \<le> Q * (1 + 9 * eps) + 1 / 2 ^ 52" and Q: "0 \<le> Q"
  shows "\<exists>t. sqrt32 (Fin s) = Fin t \<and> 0 \<le> t \<and> t \<le> 2 ^ 60 \<and> t \<le> Q * (1 + 13 * eps) + 1 / 2 ^ 50"
proof -
  obtain t where t: "sqrt32 (Fin s) = Fin t" "0 \<le> t" "t \<le> 2 ^ 60"
    "t \<le> sqrt s * (1 + 3 * eps + 4 * eps\<^sup>2) + 1 / 2 ^ 60"
    using sqrt32_near [OF s] by blast
  have "sqrt s * (1 + 3 * eps + 4 * eps\<^sup>2) \<le> (Q * (1 + 9 * eps) + 1 / 2 ^ 52) * (1 + 3 * eps + 4 * eps\<^sup>2)"
    using q eps_bounds by (intro mult_right_mono) auto
  also have "\<dots> = Q * ((1 + 9 * eps) * (1 + 3 * eps + 4 * eps\<^sup>2)) + 1 / 2 ^ 52 * (1 + 3 * eps + 4 * eps\<^sup>2)"
    by (simp add: distrib_right mult.assoc)
  also have "\<dots> \<le> Q * (1 + 13 * eps) + 1 / 2 ^ 51"
    using Q by (intro add_mono mult_left_mono) (simp_all add: ulp_F32 power_divide)
  finally show ?thesis using t by auto
qed

lemma triangle_sound:
  assumes wf: "wf_index idx" and c: "c < unat (ixK idx)" and q: "quantized qi" and w: "w \<le> 2 ^ 62"
    and skip: "triangle_skip idx c (score fused (to_f32 qi) (Centroids idx) (unat (ixK idx)) [0..<14] c) (worst32 w) = Some True"
    and p: "p \<in> set (cslots idx c)"
  shows "w \<le> sq_dist qi (slot_vec (BlockData idx) p)"
proof -
  define v where "v = slot_vec (BlockData idx) p"
  define Q where "Q = sqrt (ssd (ivec qi) (cval idx c))"
  define r where "r = sqrt (ssd (ivec v) (cval idx c))"
  have sh: "shape_ok idx" "\<forall>x \<in> set (Centroids idx). centroid_ok x" using wf by (auto simp: wf_index_def)
  obtain fz where "ComputeRadii fz idx = Some idx" using wf by (auto simp: wf_index_def)
  from radius_bound [OF sh this c] p obtain rad where rad: "c < length (Radii idx)" "Radii idx ! c = Fin rad"
    "0 \<le> rad" "rad \<le> 2 ^ 60" "r * (1 - 13 * eps) - 1 / 2 ^ 50 \<le> rad"
    unfolding r_def v_def by (metis empty_iff list.set(1))
  have len: "length qi = 14" using q by (simp add: quantized_def)
  have Q0: "0 \<le> Q" by (simp add: Q_def ssd_nonneg)
  obtain s where s: "score fused (to_f32 qi) (Centroids idx) (unat (ixK idx)) [0..<14] c = Fin s" "0 \<le> s" "s \<le> 2 ^ 60"
    "sqrt s \<le> Q * (1 + 9 * eps) + 1 / 2 ^ 52"
    using score_near [OF sh c len, of fused] unfolding Q_def by blast
  obtain t where t: "sqrt32 (Fin s) = Fin t" "0 \<le> t" "t \<le> 2 ^ 60" "t \<le> Q * (1 + 13 * eps) + 1 / 2 ^ 50"
    using sqrt32_score [OF s(2-4) Q0] by blast
  have "ssd (ivec qi) (cval idx c) \<le> (\<Sum>d<(14::nat). 20000\<^sup>2)"
    unfolding ssd_def
  proof (intro sum_mono square_le_of_abs_le)
    fix d :: nat assume "d \<in> {..<14}"
    then show "\<bar>ivec qi d - cval idx c d\<bar> \<le> 20000"
      using ivec_quantized [OF q, of d] those_centroid(2) [OF sh c, of d] by simp
  qed
  also have "\<dots> \<le> 74834\<^sup>2" by simp
  finally have Q: "Q \<le> 74834" unfolding Q_def by (intro real_le_lsqrt) auto
  have tri: "Q - r \<le> sqrt (of_int (sq_dist qi v))"
    using ssd_triangle [of "ivec qi" "cval idx c" "ivec v"] by (simp add: Q_def r_def flip: ssd_ivec)
  show ?thesis
    unfolding v_def [symmetric]
  proof (rule triangle_prune [OF t(2,3,4) rad(3-5) Q0 Q _ tri sq_dist_nonneg sq_dist_le w refl])
    show "0 \<le> r" by (simp add: r_def ssd_nonneg)
    show "flt (Fin 0) (fsub F32 (Fin t) (Fin rad))"
      "fle (worst32 w) (fmul F32 (fsub F32 (Fin t) (Fin rad)) (fsub F32 (Fin t) (Fin rad)))"
      using skip s(1) rad(1,2) t(1) by (auto simp: triangle_skip_def get_Some Let_def split: if_splits)
  qed
qed

subsection \<open>Scanning a cluster inserts all of its slots\<close>

definition cluster_cands :: "i16 list \<Rightarrow> IVFIndex \<Rightarrow> nat \<Rightarrow> (int \<times> u8) list" where
  "cluster_cands qi idx c = map (\<lambda>p. (sq_dist qi (slot_vec (BlockData idx) p), Labels idx ! p)) (cslots idx c)"

definition scr_ok :: "IVFScratch \<Rightarrow> bool" where
  "scr_ok scr \<longleftrightarrow> top_inv (Top scr) \<and> WorstI64 (Top scr) \<le> 2 ^ 62"

lemma scr_ok_insert: "scr_ok scr \<Longrightarrow> Top scr' = search_top.insert_all cs (Top scr) \<Longrightarrow> scr_ok scr'"
  using search_top.inv_insert_all [of "Top scr" cs] search_top.worst_insert_all_le [of "Top scr" cs]
  by (auto simp: scr_ok_def)

definition same_frame :: "IVFScratch \<Rightarrow> IVFScratch \<Rightarrow> bool" where
  \<comment> \<open>only the top five and the block sums may differ\<close>
  "same_frame scr scr' \<longleftrightarrow> CentroidDists scr' = CentroidDists scr \<and> Picked scr' = Picked scr \<and> Scanned scr' = Scanned scr"

lemma block_cands_slots:
  assumes "b * 112 + 112 \<le> length (BlockData idx)" "b * 8 + 8 \<le> length (Labels idx)"
  shows "block_cands qi (take 112 (drop (b * 112) (BlockData idx))) (take 8 (drop (b * 8) (Labels idx))) =
    map (\<lambda>p. (sq_dist qi (slot_vec (BlockData idx) p), Labels idx ! p)) (map (\<lambda>lane. b * 8 + lane) [0..<8])"
  using assms by (simp add: block_cands_def slot_vec_lane)

lemma scan_block_eq:
  assumes ok: "scr_ok scr" and len: "length qi = 14"
    and b: "b * 112 + 112 \<le> length (BlockData idx)" "b * 8 + 8 \<le> length (Labels idx)"
  shows "\<exists>scr'. scan_block tgt (to_f32 qi) qi idx b scr = Some scr' \<and> same_frame scr scr' \<and>
    Top scr' = search_top.insert_all
      (map (\<lambda>p. (sq_dist qi (slot_vec (BlockData idx) p), Labels idx ! p)) (map (\<lambda>lane. b * 8 + lane) [0..<8])) (Top scr)"
proof -
  define block labels where "block = take 112 (drop (b * 112) (BlockData idx))" and "labels = take 8 (drop (b * 8) (Labels idx))"
  have inv: "top_inv (Top scr)" "WorstI64 (Top scr) \<le> 2 ^ 62" using ok by (auto simp: scr_ok_def)
  obtain alive accs where k: "ScanBlock8AVX2 tgt (to_f32 qi) block (worst32 (WorstI64 (Top scr))) = (alive, accs)" by force
  from ivf_blocks.block_step_eq [where tgt = tgt and block = block and labels = labels, OF inv(1) len inv(2)] k
  have eq: "(if alive then rerank InsertI64 qi block labels (worst32 (WorstI64 (Top scr))) accs (Top scr) else Top scr) =
      search_top.insert_all (block_cands qi block labels) (Top scr)" by simp
  have g: "gslice (BlockData idx) (b * 112) (b * 112 + 112) = Some block"
    using b by (simp add: gslice_Some block_def)
  note g = g rerank_lanes_eq [OF b(2), folded labels_def]
  show ?thesis
    using eq unfolding block_cands_slots [OF b, folded block_def labels_def]
    by (cases alive) (simp_all add: scan_block_def g k WorstF32_eq same_frame_def)
qed

lemma scan_blocks_eq:
  assumes len: "length qi = 14" and e: "e * 112 \<le> length (BlockData idx)" "e * 8 \<le> length (Labels idx)" and ok: "scr_ok scr"
  shows "\<exists>scr'. ofold (scan_block tgt (to_f32 qi) qi idx) [s..<e] scr = Some scr' \<and> same_frame scr scr' \<and>
    Top scr' = search_top.insert_all
      (map (\<lambda>p. (sq_dist qi (slot_vec (BlockData idx) p), Labels idx ! p)) [8 * s..<8 * e]) (Top scr)"
proof -
  define cand where "cand p = (sq_dist qi (slot_vec (BlockData idx) p), Labels idx ! p)" for p
  have "\<forall>b \<in> set bs. b < e \<Longrightarrow> scr_ok scr \<Longrightarrow>
    \<exists>scr'. ofold (scan_block tgt (to_f32 qi) qi idx) bs scr = Some scr' \<and> same_frame scr scr' \<and>
      Top scr' = search_top.insert_all (map cand (concat (map (\<lambda>b. map (\<lambda>lane. b * 8 + lane) [0..<8]) bs))) (Top scr)"
    for bs scr
  proof (induction bs arbitrary: scr)
    case (Cons b bs)
    have "b * 112 + 112 \<le> length (BlockData idx)" "b * 8 + 8 \<le> length (Labels idx)" using Cons.prems(1) e by auto
    from scan_block_eq [OF Cons.prems(2) len this, of tgt] obtain scr1 where
      1: "scan_block tgt (to_f32 qi) qi idx b scr = Some scr1" "same_frame scr scr1"
      "Top scr1 = search_top.insert_all (map cand (map (\<lambda>lane. b * 8 + lane) [0..<8])) (Top scr)"
      unfolding cand_def by blast
    have "scr_ok scr1" using scr_ok_insert [OF Cons.prems(2) 1(3)] .
    from Cons.IH [OF _ this] Cons.prems(1) obtain scr2 where
      "ofold (scan_block tgt (to_f32 qi) qi idx) bs scr1 = Some scr2" "same_frame scr1 scr2"
      "Top scr2 = search_top.insert_all (map cand (concat (map (\<lambda>b. map (\<lambda>lane. b * 8 + lane) [0..<8]) bs))) (Top scr1)" by auto
    then show ?case using 1 by (auto simp: same_frame_def)
  qed (simp add: same_frame_def)
  from this [of "[s..<e]" scr] ok show ?thesis unfolding upt_mult_8 cand_def by auto
qed

lemma sq_dist_phantom:
  assumes "quantized qi"
  shows "14 * 22767\<^sup>2 \<le> sq_dist qi phantom"
proof -
  have "22767\<^sup>2 \<le> (sint (qi ! d) - sint (phantom ! d))\<^sup>2" if "d < 14" for d
  proof -
    have "sint (phantom ! d) = 32767" using that by (simp add: phantom_def)
    moreover have "\<bar>sint (qi ! d)\<bar> \<le> 10000" using assms that by (simp add: quantized_def)
    ultimately have "\<bar>22767\<bar> \<le> \<bar>sint (qi ! d) - sint (phantom ! d)\<bar>" by linarith
    then show ?thesis by (simp only: abs_le_square_iff)
  qed
  then have "(\<Sum>d<(14::nat). 22767\<^sup>2) \<le> sq_dist qi phantom"
    unfolding sq_dist_def by (intro sum_mono) auto
  then show ?thesis by simp
qed

lemma sq_dist_quantized:
  assumes "quantized a" "quantized b"
  shows "sq_dist a b \<le> 14 * 20000\<^sup>2"
proof -
  have "\<bar>sint (a ! d) - sint (b ! d)\<bar> \<le> 20000" if "d < 14" for d
  proof -
    have "\<bar>sint (a ! d)\<bar> \<le> 10000" "\<bar>sint (b ! d)\<bar> \<le> 10000" using assms that by (simp_all add: quantized_def)
    then show ?thesis by linarith
  qed
  then have "sq_dist a b \<le> (\<Sum>d<(14::nat). 20000\<^sup>2)"
    unfolding sq_dist_def by (intro sum_mono square_le_of_abs_le) auto
  then show ?thesis by simp
qed

lemma far_above_near: "quantized a \<Longrightarrow> quantized qi \<Longrightarrow> sq_dist qi a \<le> sq_dist qi phantom"
  using sq_dist_quantized [of qi a] sq_dist_phantom [of qi] by simp

lemma cluster_slot_cases:
  assumes "wf_index idx" "c < unat (ixK idx)" "p \<in> set (cslots idx c)"
  shows "member_ok idx c p \<or> (slot_vec (BlockData idx) p = phantom \<and> Labels idx ! p = 0)"
  using assms unfolding wf_index_def cluster_ok_def by (auto simp: slot_entry_def)

lemma box_sound:
  assumes wf: "wf_index idx" and c: "c < unat (ixK idx)" and q: "quantized qi" and w: "w \<le> 2 ^ 62"
    and fire: "fle (worst32 w) (AABBLowerBoundF32 fused (to_f32 qi) (bbox_of (BboxMin idx) c) (bbox_of (BboxMax idx) c))"
    and p: "p \<in> set (cslots idx c)"
  shows "w \<le> sq_dist qi (slot_vec (BlockData idx) p)"
proof -
  have len: "length qi = 14" using q by (simp add: quantized_def)
  have m: "w \<le> sq_dist qi (slot_vec (BlockData idx) p')" if "member_ok idx c p'" for p'
    using AABB_prune [OF len w _ fire] that by (simp add: member_ok_def slot_entry_def)
  show ?thesis
  proof (cases "member_ok idx c p")
    case False
    then have ph: "slot_vec (BlockData idx) p = phantom" using cluster_slot_cases [OF wf c p] by simp
    have h: "member_ok idx c (hd (cslots idx c))"
      using wf c p unfolding wf_index_def cluster_ok_def by (metis empty_iff list.set(1))
    then have "quantized (slot_vec (BlockData idx) (hd (cslots idx c)))" by (simp add: member_ok_def slot_entry_def)
    from far_above_near [OF this q] m [OF h] show ?thesis by (simp add: ph)
  qed (rule m)
qed

theorem scanCluster_eq:
  assumes wf: "wf_index idx" and c: "c < unat (ixK idx)" and q: "quantized qi" and ok: "scr_ok scr"
    and cd: "c < length (CentroidDists scr)"
      "CentroidDists scr ! c = score fused (to_f32 qi) (Centroids idx) (unat (ixK idx)) [0..<14] c"
  shows "\<exists>scr'. scanCluster tgt c (to_f32 qi) qi idx scr = Some scr' \<and> same_frame scr scr' \<and>
    Top scr' = search_top.insert_all (cluster_cands qi idx c) (Top scr)"
proof -
  define w where "w = WorstI64 (Top scr)"
  have inv: "top_inv (Top scr)" "w \<le> 2 ^ 62" using ok by (auto simp: scr_ok_def w_def)
  have sh: "shape_ok idx" using wf by (simp add: wf_index_def)
  have len: "length qi = 14" using q by (simp add: quantized_def)
  obtain fz where cr: "ComputeRadii fz idx = Some idx" using wf by (auto simp: wf_index_def)
  have lr: "length (Radii idx) = unat (ixK idx)"
  proof -
    have "\<forall>x \<in> set (Centroids idx). centroid_ok x" using wf by (simp add: wf_index_def)
    from ComputeRadii_eq [OF sh this, of fz] cr
    have "idx = idx\<lparr>Radii := map (\<lambda>c. the (cluster_radius fz idx c)) [0..<unat (ixK idx)]\<rparr>" by simp
    then have "Radii idx = map (\<lambda>c. the (cluster_radius fz idx c)) [0..<unat (ixK idx)]"
      by (metis IVFIndex.select_convs(8) IVFIndex.surjective IVFIndex.update_convs(8))
    then show ?thesis by simp
  qed
  have noop: "search_top.insert_all (cluster_cands qi idx c) (Top scr) = Top scr"
    if "\<And>p. p \<in> set (cslots idx c) \<Longrightarrow> w \<le> sq_dist qi (slot_vec (BlockData idx) p)"
    using that inv(1) by (intro search_top.insert_all_skip) (auto simp: cluster_cands_def w_def)
  obtain sk where sk: "triangle_skip idx c (CentroidDists scr ! c) (worst32 w) = Some sk"
    using c lr by (cases "flt (Fin 0) (CentroidDists scr ! c)") (auto simp: triangle_skip_def get_Some Let_def)
  have g: "gslice (BboxMin idx) (c * 16) (c * 16 + 16) = Some (bbox_of (BboxMin idx) c)"
    "gslice (BboxMax idx) (c * 16) (c * 16 + 16) = Some (bbox_of (BboxMax idx) c)"
    "get (Offsets idx) c = Some (Offsets idx ! c)" "get (Offsets idx) (Suc c) = Some (Offsets idx ! Suc c)"
    using sh c by (simp_all add: gslice_Some get_Some bbox_of_def shape_ok_def)
  define rest where "rest = (if fle (worst32 w) (AABBLowerBoundF32 (fuses tgt) (to_f32 qi) (bbox_of (BboxMin idx) c) (bbox_of (BboxMax idx) c))
      then Some scr else ofold (scan_block tgt (to_f32 qi) qi idx) [off idx c..<off idx (Suc c)] scr)"
  have sc: "scanCluster tgt c (to_f32 qi) qi idx scr = (if sk then Some scr else rest)"
    using cd(1) sk by (simp add: scanCluster_def get_Some WorstF32_eq w_def [symmetric] g rest_def off_def)
  show ?thesis
  proof (cases sk)
    case True
    then have "w \<le> sq_dist qi (slot_vec (BlockData idx) p)" if "p \<in> set (cslots idx c)" for p
      using triangle_sound [OF wf c q inv(2) _ that] sk cd(2) by simp
    then show ?thesis using True noop sc by (simp add: same_frame_def)
  next
    case False
    show ?thesis
    proof (cases "fle (worst32 w) (AABBLowerBoundF32 (fuses tgt) (to_f32 qi) (bbox_of (BboxMin idx) c) (bbox_of (BboxMax idx) c))")
      case True
      then have "w \<le> sq_dist qi (slot_vec (BlockData idx) p)" if "p \<in> set (cslots idx c)" for p
        using box_sound [OF wf c q inv(2) _ that] by simp
      then show ?thesis using True False noop sc by (simp add: same_frame_def rest_def)
    next
      case nf: False
      have "off idx (Suc c) \<le> unat (ixBlocks idx)" using off_le_blocks [OF sh] c by simp
      then have "off idx (Suc c) * 112 \<le> length (BlockData idx)" "off idx (Suc c) * 8 \<le> length (Labels idx)"
        using sh by (simp_all add: shape_ok_def)
      from scan_blocks_eq [OF len this ok, of tgt "off idx c"] False nf sc show ?thesis
        by (simp add: rest_def cluster_cands_def cslots_def)
    qed
  qed
qed

subsection \<open>The clusters a search scans\<close>

definition scanned_bit :: "u64 list \<Rightarrow> nat \<Rightarrow> bool" where
  "scanned_bit scanned c \<longleftrightarrow> bit (scanned ! (c div 64)) (c mod 64)"

definition scr_shape :: "IVFIndex \<Rightarrow> IVFScratch \<Rightarrow> bool" where
  \<comment> \<open>the scratch buffers fit the index\<close>
  "scr_shape idx scr \<longleftrightarrow> length (CentroidDists scr) = unat (ixK idx) \<and> length (Picked scr) = MaxNProbe \<and>
     unat (ixK idx) \<le> 64 * length (Scanned scr)"

definition scores :: "target \<Rightarrow> i16 list \<Rightarrow> IVFIndex \<Rightarrow> fl list" where
  "scores tgt qi idx = map (score (amd64 tgt \<or> fuses tgt) (to_f32 qi) (Centroids idx) (unat (ixK idx)) [0..<14])
     [0..<unat (ixK idx)]"

definition search_ok :: "target \<Rightarrow> i16 list \<Rightarrow> IVFIndex \<Rightarrow> bool" where
  \<comment> \<open>what the searches assume of the index and the query\<close>
  "search_ok tgt qi idx \<longleftrightarrow> wf_index idx \<and> unat (ixK idx) \<le> 65535 \<and> (amd64 tgt \<longrightarrow> unat (ixK idx) mod 16 = 0) \<and> quantized qi"

definition cands :: "i16 list \<Rightarrow> IVFIndex \<Rightarrow> nat list \<Rightarrow> (int \<times> u8) list" where
  "cands qi idx cs = concat (map (cluster_cands qi idx) cs)"

lemma scores_props:
  assumes "search_ok tgt qi idx"
  shows "scores_ok (scores tgt qi idx)" "length (scores tgt qi idx) = unat (ixK idx)" "scores tgt qi idx \<noteq> []"
proof -
  have sh: "shape_ok idx" "\<forall>x \<in> set (Centroids idx). centroid_ok x" "length qi = 14"
    using assms by (auto simp: search_ok_def wf_index_def quantized_def)
  show "scores_ok (scores tgt qi idx)"
    unfolding scores_ok_def scores_def using score_near [OF sh(1,2) _ sh(3)] by fastforce
  show "length (scores tgt qi idx) = unat (ixK idx)" by (simp add: scores_def)
  then show "scores tgt qi idx \<noteq> []" using sh(1) by (auto simp: shape_ok_def)
qed

lemma mark_scanned_eq:
  assumes "c < 64 * length scanned"
  shows "\<exists>s'. mark_scanned c scanned = Some s' \<and> length s' = length scanned \<and>
    (\<forall>x < 64 * length scanned. scanned_bit s' x \<longleftrightarrow> scanned_bit scanned x \<or> x = c)"
proof -
  have lt: "c div 64 < length scanned" using assms by simp
  define s' where "s' = scanned[c div 64 := set_bit (c mod 64) (scanned ! (c div 64))]"
  have "scanned_bit s' x \<longleftrightarrow> scanned_bit scanned x \<or> x = c" if "x < 64 * length scanned" for x
  proof (cases "x div 64 = c div 64")
    case True
    then have "x mod 64 = c mod 64 \<longleftrightarrow> x = c" by (metis div_mult_mod_eq)
    moreover have "c mod 64 < 64" by simp
    ultimately show ?thesis using True lt by (auto simp: scanned_bit_def s'_def bit_set_bit_iff)
  next
    case False
    then show ?thesis by (auto simp: scanned_bit_def s'_def)
  qed
  then show ?thesis using lt by (simp add: mark_scanned_def get_Some put_Some s'_def)
qed

lemma scan_picked_eq:
  assumes ok: "search_ok tgt qi idx" "scr_ok scr" "CentroidDists scr = scores tgt qi idx"
    "unat (ixK idx) \<le> 64 * length (Scanned scr)" and ids: "\<forall>c \<in> set ids. c < unat (ixK idx)"
  shows "\<exists>scr'. scan_picked tgt (to_f32 qi) qi idx (map of_nat ids @ replicate m NOID) scr = Some scr' \<and>
    Top scr' = search_top.insert_all (cands qi idx ids) (Top scr) \<and> CentroidDists scr' = CentroidDists scr \<and>
    Picked scr' = Picked scr \<and> length (Scanned scr') = length (Scanned scr) \<and>
    (\<forall>x < 64 * length (Scanned scr). scanned_bit (Scanned scr') x \<longleftrightarrow> scanned_bit (Scanned scr) x \<or> x \<in> set ids)"
  using ok(2-4) ids
proof (induction ids arbitrary: scr)
  case Nil
  then show ?case by (cases m) (simp_all add: cands_def)
next
  case (Cons c ids)
  have K: "wf_index idx" "quantized qi" "unat (ixK idx) \<le> 65535" using ok(1) by (auto simp: search_ok_def)
  have c: "c < unat (ixK idx)" "c < 65535" "unat (of_nat c :: u16) = c" using Cons.prems(4) K(3) by auto
  have "c < length (CentroidDists scr)" "CentroidDists scr ! c =
      score (amd64 tgt \<or> fuses tgt) (to_f32 qi) (Centroids idx) (unat (ixK idx)) [0..<14] c"
    using c(1) by (simp_all add: Cons.prems(2) scores_def)
  from scanCluster_eq [OF K(1) c(1) K(2) Cons.prems(1) this, of tgt] obtain scr1 where
    1: "scanCluster tgt c (to_f32 qi) qi idx scr = Some scr1" "same_frame scr scr1"
    "Top scr1 = search_top.insert_all (cluster_cands qi idx c) (Top scr)" by blast
  have "c < 64 * length (Scanned scr1)" using 1(2) c(1) Cons.prems(3) by (simp add: same_frame_def)
  from mark_scanned_eq [OF this] obtain s' where s': "mark_scanned c (Scanned scr1) = Some s'"
    "length s' = length (Scanned scr)"
    "\<forall>x < 64 * length (Scanned scr). scanned_bit s' x \<longleftrightarrow> scanned_bit (Scanned scr) x \<or> x = c"
    using 1(2) by (auto simp: same_frame_def)
  define scr2 where "scr2 = scr1\<lparr>Scanned := s'\<rparr>"
  have "scr_ok scr2" using scr_ok_insert [OF Cons.prems(1), of scr2] 1(3) by (simp add: scr2_def)
  moreover have "CentroidDists scr2 = scores tgt qi idx" "unat (ixK idx) \<le> 64 * length (Scanned scr2)"
    "\<forall>c \<in> set ids. c < unat (ixK idx)"
    using 1(2) Cons.prems s'(2) by (auto simp: scr2_def same_frame_def)
  ultimately obtain scr' where "scan_picked tgt (to_f32 qi) qi idx (map of_nat ids @ replicate m NOID) scr2 = Some scr'"
    "Top scr' = search_top.insert_all (cands qi idx ids) (Top scr2)" "CentroidDists scr' = CentroidDists scr2"
    "Picked scr' = Picked scr2" "length (Scanned scr') = length (Scanned scr2)"
    "\<forall>x < 64 * length (Scanned scr2). scanned_bit (Scanned scr') x \<longleftrightarrow> scanned_bit (Scanned scr2) x \<or> x \<in> set ids"
    using Cons.IH [of scr2] by blast
  then show ?case
    using 1 s' of_nat_NOID [OF c(2)] c(3) by (simp add: scr2_def same_frame_def cands_def)
qed

lemma scr_ok_Reset: "Top scr = Reset t \<Longrightarrow> scr_ok scr"
  using top_inv_Reset [of t] by (simp add: scr_ok_def) (simp add: WorstI64_def Reset_def)

text \<open>The fast tier scans the nearest clusters and nothing else.\<close>

lemma fast_tier_eq:
  assumes ok: "search_ok tgt qi idx" and sh: "scr_shape idx scr" and n: "n \<le> MaxNProbe"
  shows "\<exists>scr' ids. fast_tier tgt (to_f32 qi) qi idx n scr = Some scr' \<and>
    nearest (scores tgt qi idx) [0..<unat (ixK idx)] n ids \<and>
    Top scr' = search_top.insert_all (cands qi idx ids) (Reset (Top scr)) \<and> scr_ok scr' \<and> scr_shape idx scr' \<and>
    CentroidDists scr' = scores tgt qi idx \<and>
    (\<forall>c < unat (ixK idx). scanned_bit (Scanned scr') c \<longleftrightarrow> c \<in> set ids)"
proof -
  define K where "K = unat (ixK idx)"
  have wf: "wf_index idx" "K \<le> 65535" using ok by (auto simp: search_ok_def K_def)
  have shp: "shape_ok idx" using wf by (simp add: wf_index_def)
  have len: "length (CentroidDists scr) = K" "length (Picked scr) = MaxNProbe" "K \<le> 64 * length (Scanned scr)"
    using sh by (auto simp: scr_shape_def K_def)
  have cds: "ScoreAllCentroids tgt (to_f32 qi) (Centroids idx) K (CentroidDists scr) = Some (scores tgt qi idx)"
    using ScoreAllCentroids_eq [of K "CentroidDists scr" "Centroids idx" tgt "to_f32 qi"] ok shp len
    by (auto simp: search_ok_def K_def shape_ok_def scores_def)
  define picked where "picked = take n (Picked scr)"
  have pk: "gslice (Picked scr) 0 n = Some picked" "length picked = n"
    using n len by (simp_all add: gslice_Some picked_def)
  have sp: "scores_ok (scores tgt qi idx)" "length (scores tgt qi idx) = K" "scores tgt qi idx \<noteq> []"
    using scores_props [OF ok] by (auto simp: K_def)
  obtain ids where p: "PickTopNCentroids tgt (scores tgt qi idx) n picked = Some (map of_nat ids @ replicate (n - length ids) NOID)"
    and near: "nearest (scores tgt qi idx) [0..<K] n ids"
    using PickTopNCentroids_nearest [OF sp(1,3), of n picked tgt] sp(2) wf(2) pk(2) by auto
  define scr1 where "scr1 = scr\<lparr>CentroidDists := scores tgt qi idx,
      Picked := (map of_nat ids @ replicate (n - length ids) NOID) @ drop n (Picked scr),
      Top := Reset (Top scr), Scanned := replicate (length (Scanned scr)) 0\<rparr>"
  have "scr_ok scr1" by (rule scr_ok_Reset [of _ "Top scr"]) (simp add: scr1_def)
  moreover have "\<forall>c \<in> set ids. c < unat (ixK idx)" using near by (auto simp: nearest_def K_def)
  ultimately obtain scr' where s: "scan_picked tgt (to_f32 qi) qi idx (map of_nat ids @ replicate (n - length ids) NOID) scr1 = Some scr'"
    "Top scr' = search_top.insert_all (cands qi idx ids) (Top scr1)" "CentroidDists scr' = CentroidDists scr1"
    "Picked scr' = Picked scr1" "length (Scanned scr') = length (Scanned scr1)"
    "\<forall>x < 64 * length (Scanned scr1). scanned_bit (Scanned scr') x \<longleftrightarrow> scanned_bit (Scanned scr1) x \<or> x \<in> set ids"
    using scan_picked_eq [OF ok, of scr1 ids "n - length ids"] len(3) by (auto simp: scr1_def K_def)
  have lids: "length ids \<le> n" using near by (simp add: nearest_def)
  have "scr_ok scr'" using scr_ok_insert [OF \<open>scr_ok scr1\<close> s(2)] .
  moreover have "scr_shape idx scr'"
    using s lids n len sp(2) by (simp add: scr_shape_def scr1_def K_def)
  moreover have "\<forall>c<K. scanned_bit (Scanned scr') c \<longleftrightarrow> c \<in> set ids"
    using s(6) len(3) by (auto simp: scr1_def scanned_bit_def)
  moreover have "fast_tier tgt (to_f32 qi) qi idx n scr = Some scr'"
    using s(1) cds pk p by (simp add: fast_tier_def K_def [symmetric] scr1_def)
  ultimately show ?thesis using near s unfolding K_def [symmetric]
    by (intro exI [of _ scr'] exI [of _ ids]) (simp add: scr1_def)
qed

end
