(* ===== verification/DatasetScan.thy ===== *)
theory DatasetScan
  imports Vectorize
begin

text \<open>
  The reference data set and its loader: \<open>internal/dataset/dataset.go\<close>.  The
  file is read twice as a stream of decompressed bytes that ends with an error
  (end of file, or a failure of the reader below); opening and decompressing
  it is not modelled.  The scanner is a hand-written matcher for the two keys,
  the fourteen numbers and the label of every entry.
\<close>

record Dataset =
  Vectors :: "i16 list"
  DLabels :: "u8 list"
  Count :: nat

datatype ioerr = EOF | UnexpectedEOF | Broken

datatype label_error = LabelRead ioerr | LabelQuote char | LabelUnknown string

datatype scan_error = VectorKey ioerr | Dim nat ioerr | EarlyBracket nat | MissingBracket char
  | LabelKey ioerr | Label label_error

subsection \<open>The byte matchers\<close>

fun readUntil :: "string \<Rightarrow> nat \<Rightarrow> string \<Rightarrow> string option" where
  \<comment> \<open>the bytes after the needle; \<open>None\<close> when the stream ends first\<close>
  "readUntil needle matched [] = None"
| "readUntil needle matched (b # bs) =
     (if b = needle ! matched then
        if matched + 1 = length needle then Some bs else readUntil needle (matched + 1) bs
      else readUntil needle (if b = needle ! 0 then 1 else 0) bs)"

record fstate =
  fval64 :: fl
  fsign :: fl
  fmode :: nat   \<comment> \<open>0 start, 1 integer part, 2 fraction, 3 exponent sign, 4 exponent\<close>
  ffrac :: fl
  fexpsign :: int
  fexp :: int

definition fstate0 :: fstate where
  "fstate0 = \<lparr>fval64 = Fin 0, fsign = Fin 1, fmode = 0, ffrac = fround F64 (1 / 10), fexpsign = 1, fexp = 0\<rparr>"

definition float_digit :: "bool \<Rightarrow> char \<Rightarrow> fstate \<Rightarrow> fstate" where
  "float_digit fused b s =
     (if fmode s = 0 \<or> fmode s = 1 then
        s\<lparr>fmode := 1, fval64 := fmac fused F64 (fl_of_int F64 (dig b)) (fval64 s) (Fin 10)\<rparr>
      else if fmode s = 2 then
        s\<lparr>fval64 := fmac fused F64 (fval64 s) (fl_of_int F64 (dig b)) (ffrac s),
          ffrac := fmul F64 (ffrac s) (fround F64 (1 / 10))\<rparr>
      else if fmode s = 3 then s\<lparr>fexpsign := 1, fexp := dig b, fmode := 4\<rparr>
      else s\<lparr>fexp := wrap64 (fexp s * 10 + dig b)\<rparr>)"

definition float_result :: "fstate \<Rightarrow> fl" where
  "float_result s =
     (let v = (if fexp s \<noteq> 0 then
                 let pow = ((\<lambda>p. fmul F64 p (Fin 10)) ^^ nat (fexp s)) (Fin 1) in
                 if fexpsign s < 0 then fdiv F64 (fval64 s) pow else fmul F64 (fval64 s) pow
               else fval64 s)
      in fconv F32 (fmul F64 v (fsign s)))"

fun readFloat :: "bool \<Rightarrow> fstate \<Rightarrow> string \<Rightarrow> (fl \<times> char \<times> string) option" where
  "readFloat fused s [] = None"
| "readFloat fused s (b # bs) =
     (if b = CHR ''-'' \<and> fmode s = 0 then readFloat fused (s\<lparr>fsign := Fin (- 1)\<rparr>) bs
      else if is_digit b then readFloat fused (float_digit fused b s) bs
      else if b = CHR ''.'' then readFloat fused (s\<lparr>fmode := 2\<rparr>) bs
      else if b = CHR ''e'' \<or> b = CHR ''E'' then readFloat fused (s\<lparr>fmode := 3\<rparr>) bs
      else if b = CHR ''+'' \<and> fmode s = 3 then readFloat fused (s\<lparr>fexpsign := 1\<rparr>) bs
      else if b = CHR ''-'' \<and> fmode s = 3 then readFloat fused (s\<lparr>fexpsign := - 1\<rparr>) bs
      else Some (float_result s, b, bs))"

definition readLabel :: "ioerr \<Rightarrow> string \<Rightarrow> label_error + bool \<times> string" where
  "readLabel e bs =
     (if length bs < 5 then Inl (LabelRead (if e = EOF \<and> bs \<noteq> [] then UnexpectedEOF else e))
      else case drop 5 bs of
        [] \<Rightarrow> Inl (LabelRead e)
      | b # rest \<Rightarrow>
          if b \<noteq> CHR 0x22 then Inl (LabelQuote b)
          else if take 5 bs = ''fraud'' then Inr (True, rest)
          else if take 5 bs = ''legit'' then Inr (False, rest)
          else Inl (LabelUnknown (take 5 bs)))"

subsection \<open>The scanner\<close>

fun readVec :: "bool \<Rightarrow> ioerr \<Rightarrow> nat \<Rightarrow> nat \<Rightarrow> string \<Rightarrow> scan_error + fl list \<times> string" where
  \<comment> \<open>the dimensions from \<open>i\<close> on, \<open>n\<close> of them\<close>
  "readVec fused e i 0 bs = Inr ([], bs)"
| "readVec fused e i (Suc n) bs =
     (case readFloat fused fstate0 bs of
        None \<Rightarrow> Inl (Dim i e)
      | Some (v, stop, rest) \<Rightarrow>
          if i < 13 \<and> stop = CHR '']'' then Inl (EarlyBracket i)
          else if i = 13 \<and> stop \<noteq> CHR '']'' then Inl (MissingBracket stop)
          else case readVec fused e (i + 1) n rest of
                 Inl err \<Rightarrow> Inl err | Inr (vs, rest') \<Rightarrow> Inr (v # vs, rest'))"

definition vectorKey :: string where \<open>vectorKey = ''"vector":[''\<close>
definition labelKey :: string where \<open>labelKey = '',"label":"''\<close>

lemma readUntil_shorter: "readUntil needle matched bs = Some rest \<Longrightarrow> length rest < length bs"
  by (induction needle matched bs rule: readUntil.induct) (auto split: if_splits)

lemma readFloat_shorter: "readFloat fused s bs = Some (v, l, rest) \<Longrightarrow> length rest < length bs"
  by (induction fused s bs rule: readFloat.induct) (auto split: if_splits)

lemma readVec_shorter: "readVec fused e i n bs = Inr (vs, rest) \<Longrightarrow> length rest \<le> length bs"
  by (induction fused e i n bs arbitrary: vs rule: readVec.induct)
    (force split: option.splits prod.splits sum.splits if_splits dest: readFloat_shorter)+

lemma readLabel_shorter: "readLabel e bs = Inr (b, rest) \<Longrightarrow> length rest < length bs"
proof -
  assume "readLabel e bs = Inr (b, rest)"
  then have "drop 5 bs = CHR 0x22 # rest" by (auto simp: readLabel_def split: if_splits list.splits)
  from arg_cong [OF this, of length] show ?thesis by simp
qed

function scan :: "bool \<Rightarrow> ioerr \<Rightarrow> string \<Rightarrow> (fl list \<times> bool) list \<times> scan_error option" where
  \<comment> \<open>the entries passed to the callback, and the error\<close>
  "scan fused e bs =
     (case readUntil vectorKey 0 bs of
        None \<Rightarrow> ([], if e = EOF then None else Some (VectorKey e))
      | Some bs1 \<Rightarrow>
     (case readVec fused e 0 14 bs1 of
        Inl err \<Rightarrow> ([], Some err)
      | Inr (vec, bs2) \<Rightarrow>
     (case readUntil labelKey 0 bs2 of
        None \<Rightarrow> ([], Some (LabelKey e))
      | Some bs3 \<Rightarrow>
     (case readLabel e bs3 of
        Inl err \<Rightarrow> ([], Some (Label err))
      | Inr (isFraud, bs4) \<Rightarrow>
          let (es, r) = scan fused e bs4 in ((vec, isFraud) # es, r)))))"
  by pat_completeness auto
termination
  by (relation "measure (\<lambda>(_, _, bs). length bs)")
    (auto dest!: readUntil_shorter readVec_shorter readLabel_shorter)

declare scan.simps [simp del]

subsection \<open>The loader\<close>

definition store_entry :: "bool \<Rightarrow> fl list \<times> bool \<Rightarrow> nat \<times> Dataset \<Rightarrow> (nat \<times> Dataset) option" where
  \<comment> \<open>the callback of the second pass, with its counter \<open>idx\<close>\<close>
  "store_entry fused = (\<lambda>(vec, isFraud) (idx, ds). do {
     vs \<leftarrow> ofold (\<lambda>d vs. put vs (idx * 14 + d) (quantize fused (vec ! d))) [0..<14] (Vectors ds);
     ls \<leftarrow> (if isFraud then put (DLabels ds) idx 1 else Some (DLabels ds));
     Some (idx + 1, ds\<lparr>Vectors := vs, DLabels := ls\<rparr>)
   })"

datatype load_error = CountErr scan_error | FillErr scan_error | CountMismatch nat nat

definition LoadFromGzipJSON :: "bool \<Rightarrow> ioerr \<times> string \<Rightarrow> ioerr \<times> string \<Rightarrow> (load_error + Dataset) option" where
  \<comment> \<open>the streams the two passes read\<close>
  "LoadFromGzipJSON fused pass1 pass2 =
     (let (es1, r1) = scan fused (fst pass1) (snd pass1); n = length es1 in
      case r1 of
        Some err \<Rightarrow> Some (Inl (CountErr err))
      | None \<Rightarrow>
          let (es2, r2) = scan fused (fst pass2) (snd pass2) in
          do {
            (_, ds) \<leftarrow> ofold (store_entry fused) es2
              (0, \<lparr>Vectors = replicate (n * 14) 0, DLabels = replicate n 0, Count = n\<rparr>);
            Some (case r2 of
                Some err \<Rightarrow> Inl (FillErr err)
              | None \<Rightarrow> if length es2 \<noteq> n then Inl (CountMismatch n (length es2)) else Inr ds)
          })"

subsection \<open>Reading a number\<close>

definition frac_ok :: "nat \<Rightarrow> fl \<Rightarrow> bool" where
  \<comment> \<open>the weight of the digit after \<open>j\<close> fraction digits\<close>
  "frac_ok j f \<longleftrightarrow> (\<exists>r. f = Fin r \<and> \<bar>r * 10 ^ (j + 1) - 1\<bar> \<le> of_nat (j + 1) / 2 ^ 50)"

lemma rel_mult:
  \<comment> \<open>relative errors add up, with room for the cross terms\<close>
  fixes a b p q :: real
  assumes "\<bar>a - 1\<bar> \<le> p" "\<bar>b - 1\<bar> \<le> q" "p \<le> 1" "0 \<le> q"
  shows "\<bar>a * b - 1\<bar> \<le> p + 2 * q"
proof -
  define u where "u = (a - 1) * (b - 1)"
  have "\<bar>a - 1\<bar> * \<bar>b - 1\<bar> \<le> 1 * q" using assms by (intro mult_mono) auto
  then have u: "\<bar>u\<bar> \<le> q" by (simp add: u_def abs_mult)
  have "a * b - 1 = u + (a - 1) + (b - 1)" by (simp add: u_def algebra_simps)
  then show ?thesis using assms u by linarith
qed

lemma rnd64_ratio:
  assumes "1 / 10 ^ 16 \<le> x"
  shows "\<bar>rnd F64 x / x - 1\<bar> \<le> 1 / 2 ^ 53"
proof -
  have x: "0 < x" using assms by (smt (verit) zero_less_divide_iff zero_less_power)
  have "\<bar>rnd F64 x - x\<bar> \<le> x / 2 ^ 53" using rnd64_rel [of x] assms x by simp
  then have "\<bar>(rnd F64 x - x) / x\<bar> \<le> 1 / 2 ^ 53" using x by (simp add: divide_le_eq)
  then show ?thesis using x by (simp add: diff_divide_distrib)
qed

lemma tenth: "fround F64 (1 / 10) = Fin (rnd F64 (1 / 10))" "\<bar>rnd F64 (1 / 10) * 10 - 1\<bar> \<le> 1 / 2 ^ 53"
proof -
  show "fround F64 (1 / 10) = Fin (rnd F64 (1 / 10))" by (rule fround_Fin_F64) simp
  have "\<bar>rnd F64 (1 / 10) / (1 / 10) - 1\<bar> \<le> 1 / 2 ^ 53" by (rule rnd64_ratio) simp
  then show "\<bar>rnd F64 (1 / 10) * 10 - 1\<bar> \<le> 1 / 2 ^ 53" by simp
qed

lemma frac_step:
  assumes "frac_ok j f" "j \<le> 12"
  shows "frac_ok (j + 1) (fmul F64 f (fround F64 (1 / 10)))"
proof -
  obtain r where r: "f = Fin r" "\<bar>r * 10 ^ (j + 1) - 1\<bar> \<le> of_nat (j + 1) / 2 ^ 50" using assms(1) by (auto simp: frac_ok_def)
  define c where "c = rnd F64 (1 / 10)"
  have c: "fround F64 (1 / 10) = Fin c" "\<bar>c * 10 - 1\<bar> \<le> 1 / 2 ^ 53" using tenth by (simp_all add: c_def)
  define J :: real where "J = of_nat (j + 1) / 2 ^ 50"
  have p: "J \<le> 13 / 2 ^ 50" "0 \<le> J" using assms(2) by (auto simp: J_def intro!: divide_right_mono)
  define y where "y = (r * c) * 10 ^ (j + 2)"
  have y: "(r * 10 ^ (j + 1)) * (c * 10) = y" by (simp add: y_def mult_ac)
  have "\<bar>(r * 10 ^ (j + 1)) * (c * 10) - 1\<bar> \<le> J + 2 * (1 / 2 ^ 53)"
    by (rule rel_mult [OF r(2) [folded J_def] c(2)]) (use p in auto)
  then have rc: "\<bar>y - 1\<bar> \<le> J + 2 * (1 / 2 ^ 53)" by (simp only: y)
  have y1: "1 / 2 \<le> y" "y \<le> 2" using rc p by (simp_all add: abs_le_iff)
  then have "1 / 2 / 10 ^ (j + 2) \<le> r * c" by (simp add: y_def divide_le_eq)
  moreover have "1 / 10 ^ 16 \<le> (1 / 2 / 10 ^ (j + 2) :: real)"
  proof -
    have "2 * 10 ^ (j + 2) \<le> (2 * 10 ^ 14 :: real)" using assms(2) by (intro mult_left_mono power_increasing) auto
    then have "1 / 10 ^ 16 \<le> 1 / (2 * 10 ^ (j + 2) :: real)" by (intro divide_left_mono) auto
    then show ?thesis by simp
  qed
  ultimately have low: "1 / 10 ^ 16 \<le> r * c" by linarith
  then have pos: "0 < r * c" by (smt (verit) zero_less_divide_iff zero_less_power)
  have "\<bar>y * (rnd F64 (r * c) / (r * c)) - 1\<bar> \<le> (J + 2 * (1 / 2 ^ 53)) + 2 * (1 / 2 ^ 53)"
    by (rule rel_mult [OF rc rnd64_ratio [OF low]]) (use p in auto)
  moreover have "y * (rnd F64 (r * c) / (r * c)) = rnd F64 (r * c) * 10 ^ (j + 2)"
    using pos by (simp add: y_def)
  moreover have "(J + 2 * (1 / 2 ^ 53)) + 2 * (1 / 2 ^ 53) \<le> (of_nat (j + 2) / 2 ^ 50 :: real)"
    by (simp add: J_def field_simps)
  ultimately have "\<bar>rnd F64 (r * c) * 10 ^ (j + 2) - 1\<bar> \<le> of_nat (j + 2) / 2 ^ 50" by linarith
  moreover have "\<bar>r * c\<bar> \<le> 2 ^ 1023"
  proof -
    have "(1::real) \<le> 10 ^ (j + 2)" by (rule one_le_power) simp
    then have "r * c * 1 \<le> y" unfolding y_def using pos by (intro mult_left_mono) auto
    moreover have "(2::real) \<le> 2 ^ 1023" by simp
    ultimately show ?thesis using pos y1(2) by linarith
  qed
  ultimately show ?thesis by (simp add: frac_ok_def r(1) c(1) fround_Fin_F64)
qed

lemma readFloat_digits:
  "list_all is_digit ds \<Longrightarrow> readFloat fused s (ds @ bs) = readFloat fused (fold (float_digit fused) ds s) bs"
proof (induction ds arbitrary: s)
  case (Cons d ds)
  have "d \<noteq> CHR ''-''" using Cons.prems digit_not_special [of d] by simp
  then show ?case using Cons by simp
qed simp

lemma rnd64_abs: "\<bar>x\<bar> \<le> 16 \<Longrightarrow> \<bar>rnd F64 x - x\<bar> \<le> 1 / 2 ^ 48"
proof -
  assume x: "\<bar>x\<bar> \<le> 16"
  have "2 powi (emin F64 - 1) \<le> (2 :: real) powi (- 49)" unfolding powi_le_iff by simp
  then have "tiny F64 \<le> 1 / 2 ^ 49" by (simp add: tiny_def power_int_def power_one_over)
  moreover have "ulp F64 * \<bar>x\<bar> \<le> ulp F64 * 16" using x by (simp add: ulp_F64)
  ultimately show ?thesis using rnd_err [of F64 x] by (simp add: ulp_F64)
qed

definition reading :: "nat \<Rightarrow> real \<Rightarrow> fstate \<Rightarrow> bool" where
  \<comment> \<open>\<open>j\<close> fraction digits read, the text so far being worth \<open>w\<close>\<close>
  "reading j w s \<longleftrightarrow> fmode s = 2 \<and> fsign s = Fin 1 \<and> fexp s = 0 \<and> frac_ok j (ffrac s) \<and>
     (\<exists>v. fval64 s = Fin v \<and> 0 \<le> v \<and> \<bar>v - w\<bar> \<le> of_nat j / 2 ^ 45)"

lemma error_consts:
  "1 / 2 ^ 48 \<le> (1 :: real)" "12 / 2 ^ 50 \<le> (1 :: real)" "1 / 2 ^ 40 \<le> (1 :: real)" "10000 / 2 ^ 22 \<le> (1 / 256 :: real)"
  by simp_all

lemma fmac64_near:
  assumes "0 \<le> v" "v \<le> 3" "0 \<le> p * q" "p * q \<le> 2"
  shows "\<exists>r. fmac fused F64 (Fin v) (Fin p) (Fin q) = Fin r \<and> 0 \<le> r \<and> \<bar>r - (v + p * q)\<bar> \<le> 2 / 2 ^ 48"
proof (cases fused)
  case True
  have "\<bar>rnd F64 (p * q + v) - (p * q + v)\<bar> \<le> 1 / 2 ^ 48" using assms by (intro rnd64_abs) auto
  then have "\<bar>rnd F64 (p * q + v) - (v + p * q)\<bar> \<le> 2 / 2 ^ 48" by linarith
  moreover have "fround F64 (p * q + v) = Fin (rnd F64 (p * q + v))" using assms by (intro fround_Fin_F64) auto
  ultimately show ?thesis using True assms rnd_nonneg [of "p * q + v" F64] by (simp add: fmac_def)
next
  case False
  define u where "u = rnd F64 (p * q)"
  have pq: "\<bar>u - p * q\<bar> \<le> 1 / 2 ^ 48" unfolding u_def using assms by (intro rnd64_abs) auto
  have u: "0 \<le> u" using assms rnd_nonneg [of "p * q" F64] by (simp add: u_def)
  have u3: "u \<le> 3" using assms(4) pq error_consts by linarith
  have s: "\<bar>rnd F64 (v + u) - (v + u)\<bar> \<le> 1 / 2 ^ 48" using assms u u3 by (intro rnd64_abs) auto
  have "fround F64 (p * q) = Fin u" "fround F64 (v + u) = Fin (rnd F64 (v + u))"
    unfolding u_def [symmetric] using assms u u3 by (auto simp: u_def intro!: fround_Fin_F64)
  moreover have "0 \<le> rnd F64 (v + u)" using assms u by (intro rnd_nonneg) auto
  moreover have "\<bar>rnd F64 (v + u) - (v + p * q)\<bar> \<le> 2 / 2 ^ 48" using pq s by linarith
  ultimately show ?thesis using False by (simp add: fmac_def)
qed

lemma reading_step:
  assumes "reading j w s" "j < 12" "is_digit d" "w \<le> 2"
  shows "reading (j + 1) (w + of_int (dig d) / 10 ^ (j + 1)) (float_digit fused d s)"
proof -
  obtain r v where r: "ffrac s = Fin r" "\<bar>r * 10 ^ (j + 1) - 1\<bar> \<le> of_nat (j + 1) / 2 ^ 50"
    and v: "fval64 s = Fin v" "0 \<le> v" "\<bar>v - w\<bar> \<le> of_nat j / 2 ^ 45"
    using assms(1) by (auto simp: reading_def frac_ok_def)
  define D :: real where "D = of_int (dig d)"
  have D: "0 \<le> D" "D \<le> 9" using dig_range [OF assms(3)] by (auto simp: D_def)
  define T :: real where "T = 10 ^ (j + 1)"
  have T: "10 \<le> T" unfolding T_def using power_increasing [of 1 "j + 1" "10 :: real"] by simp
  have "of_nat (j + 1) / 2 ^ 50 \<le> (12 / 2 ^ 50 :: real)" using assms(2) by (intro divide_right_mono) auto
  then have e: "\<bar>r * T - 1\<bar> \<le> 12 / 2 ^ 50" using r(2) by (simp add: T_def)
  have "D * r - D / T = D * ((r * T - 1) / T)" using T by (simp add: field_simps)
  then have "\<bar>D * r - D / T\<bar> = D * (\<bar>r * T - 1\<bar> / T)" using D T by (simp add: abs_mult abs_divide)
  also have "\<dots> \<le> 9 * (12 / 2 ^ 50 / 10)"
    using e D T by (intro mult_mono frac_le) auto
  finally have dr: "\<bar>D * r - D / T\<bar> \<le> 12 / 2 ^ 50" by simp
  have r0: "0 \<le> r"
  proof -
    have "0 \<le> r * T" using e error_consts by linarith
    then show ?thesis using T by (simp add: zero_le_mult_iff)
  qed
  have DT: "0 \<le> D / T" "D / T \<le> 9 / 10" using D T frac_le [of 9 D 10 T] by auto
  have j: "of_nat j / 2 ^ 45 \<le> (12 / 2 ^ 45 :: real)" using assms(2) by (intro divide_right_mono) auto
  have "12 / 2 ^ 45 \<le> (1 :: real)" by simp
  then have vr: "v \<le> 3" using v(3) j assms(4) by linarith
  have "D * r \<le> 2" using dr DT error_consts by linarith
  moreover have "0 \<le> D * r" using D r0 by simp
  ultimately obtain x where x: "fmac fused F64 (Fin v) (Fin D) (Fin r) = Fin x" "0 \<le> x" "\<bar>x - (v + D * r)\<bar> \<le> 2 / 2 ^ 48"
    using fmac64_near [of v D r fused] v(2) vr by auto
  have "\<bar>x - (w + D / T)\<bar> \<le> of_nat j / 2 ^ 45 + (12 / 2 ^ 50 + 2 / 2 ^ 48)" using x(3) dr v(3) by linarith
  also have "\<dots> \<le> of_nat (j + 1) / 2 ^ 45" by (simp add: field_simps)
  finally have near: "\<bar>x - (w + D / T)\<bar> \<le> of_nat (j + 1) / 2 ^ 45" .
  have "frac_ok (j + 1) (fmul F64 (ffrac s) (fround F64 (1 / 10)))"
    using assms(1,2) by (intro frac_step) (auto simp: reading_def)
  moreover have "\<bar>dig d\<bar> \<le> 2 ^ 53" using dig_range [OF assms(3)] by auto
  moreover have "fmode s = 2" "fsign s = Fin 1" "fexp s = 0" using assms(1) by (auto simp: reading_def)
  ultimately show ?thesis
    using x(1,2) near by (simp add: reading_def float_digit_def v(1) r(1) D_def T_def)
qed

lemma reading_digits:
  assumes "reading 0 w s" "list_all is_digit fs" "length fs \<le> 12" "0 \<le> w" "w \<le> 1"
  shows "reading (length fs) (w + of_int (dec fs) / 10 ^ length fs) (fold (float_digit fused) fs s)"
  using assms(2,3)
proof (induction fs rule: rev_induct)
  case Nil
  then show ?case using assms(1) by (simp add: dec_def)
next
  case (snoc c fs)
  have "dec fs < 10 ^ length fs" using snoc.prems dec_range [of fs] by simp
  then have "(of_int (dec fs) :: real) < of_int (10 ^ length fs)" unfolding of_int_less_iff .
  then have "of_int (dec fs) / 10 ^ length fs \<le> (1 :: real)" by (simp add: divide_le_eq)
  then have le: "w + of_int (dec fs) / 10 ^ length fs \<le> 2" using assms(5) by linarith
  have "reading (length fs + 1) ((w + of_int (dec fs) / 10 ^ length fs) + of_int (dig c) / 10 ^ (length fs + 1))
      (float_digit fused c (fold (float_digit fused) fs s))"
    using snoc le by (intro reading_step) auto
  moreover have "(w + of_int (dec fs) / 10 ^ length fs) + of_int (dig c) / 10 ^ (length fs + 1) =
      w + of_int (dec (fs @ [c])) / 10 ^ length (fs @ [c])"
    by (simp add: dec_snoc add_divide_distrib)
  ultimately show ?case by (simp only: length_append list.size fold_append fold_simps comp_apply add_0 add_0_right One_nat_def)
qed

definition float_stop :: "char \<Rightarrow> bool" where
  "float_stop c \<longleftrightarrow> c \<in> {CHR '','', CHR '']''}"

lemma readFloat_stop: "float_stop c \<Longrightarrow> readFloat fused s (c # bs) = Some (float_result s, c, bs)"
proof -
  assume "float_stop c"
  then have "\<not> is_digit c" "c \<notin> set ''-.eE+''" by (auto simp: float_stop_def is_digit_def)
  then show ?thesis by simp
qed

text \<open>The weights of the file: a digit before the point that is 0 or 1, at most twelve after it.\<close>

fun weight_ok :: "num \<Rightarrow> nat \<Rightarrow> bool" where
  "weight_ok (Num neg ds fs) k \<longleftrightarrow> \<not> neg \<and> length ds = 1 \<and> list_all is_digit ds \<and> dec ds \<le> 1 \<and>
     list_all is_digit fs \<and> length fs \<le> 12 \<and> k \<le> 10000 \<and> num_val (Num neg ds fs) = of_nat k / 10000"

lemma float_result_near:
  assumes "fsign s = Fin 1" "fexp s = 0" "fval64 s = Fin v" "0 \<le> v" "\<bar>v - w\<bar> \<le> 1 / 2 ^ 40" "0 \<le> w" "w \<le> 1"
  shows "\<exists>r. float_result s = Fin r \<and> 0 \<le> r \<and> \<bar>r - w\<bar> \<le> 1 / 2 ^ 22"
proof -
  have v2: "v \<le> 3" using assms(5,7) error_consts by linarith
  define u where "u = rnd F64 v"
  have u: "0 \<le> u" "\<bar>u - v\<bar> \<le> 1 / 2 ^ 48" using rnd_nonneg [of v F64] rnd64_abs [of v] assms(4) v2 by (auto simp: u_def)
  have u2: "u \<le> 3" using u(2) assms(5,7) error_consts by linarith
  have f: "fround F64 v = Fin u" "fround F32 u = Fin (rnd F32 u)"
    using assms(4) v2 u(1) u2 by (auto simp: u_def intro!: fround_Fin_F64 fround_Fin_F32)
  have "2 powi (emin F32 - 1) \<le> (2 :: real) powi (- 40)" unfolding powi_le_iff by simp
  then have "tiny F32 \<le> 1 / 2 ^ 40" by (simp add: tiny_def power_int_def power_one_over)
  moreover have "ulp F32 * \<bar>u\<bar> \<le> ulp F32 * 3" using u(1) u2 by (simp add: ulp_F32)
  ultimately have "\<bar>rnd F32 u - u\<bar> \<le> 3 / 2 ^ 24 + 1 / 2 ^ 40" using rnd_err [of F32 u] by (simp add: ulp_F32)
  then have "\<bar>rnd F32 u - w\<bar> \<le> (3 / 2 ^ 24 + 1 / 2 ^ 40) + 1 / 2 ^ 48 + 1 / 2 ^ 40" using u(2) assms(5) by linarith
  also have "\<dots> \<le> 1 / 2 ^ 22" by simp
  finally show ?thesis using assms(1-3) f rnd_nonneg [OF u(1), of F32] by (simp add: float_result_def Let_def)
qed

lemma readFloat_weight:
  assumes ok: "weight_ok n k" and c: "float_stop c"
  shows "\<exists>r. readFloat fused fstate0 (render_num n @ c # rest) = Some (Fin r, c, rest) \<and> 0 \<le> r \<and> \<bar>r - of_nat k / 10000\<bar> \<le> 1 / 2 ^ 22"
proof -
  obtain d fs where n: "n = Num False [d] fs"
    using ok by (cases n) (auto simp: length_Suc_conv)
  have d: "is_digit d" "dig d = 0 \<or> dig d = 1" and fs: "list_all is_digit fs" "length fs \<le> 12"
    and val: "of_int (dig d) + of_int (dec fs) / 10 ^ length fs = (of_nat k / 10000 :: real)" and k: "k \<le> 10000"
    using ok dig_range [of d] by (auto simp: n dec_def)
  define s1 where "s1 = float_digit fused d fstate0"
  have s1: "fval64 s1 = Fin (of_int (dig d))" "fsign s1 = Fin 1" "fmode s1 = 1" "fexp s1 = 0" "ffrac s1 = fround F64 (1 / 10)"
    using d(2) by (auto simp: s1_def float_digit_def fstate0_def fmac_def fround_of_int fl_small)
  have w: "0 \<le> of_nat k / (10000 :: real)" "of_nat k / (10000 :: real) \<le> 1" using k by auto
  define s where "s = (if fs = [] then s1 else fold (float_digit fused) fs (s1\<lparr>fmode := 2\<rparr>))"
  have "readFloat fused fstate0 (render_num n @ c # rest) = Some (float_result s, c, rest)"
  proof (cases "fs = []")
    case True
    then show ?thesis
      using readFloat_digits [of "[d]" fused fstate0 "c # rest"] d(1) readFloat_stop [OF c]
      by (simp add: n s_def s1_def)
  next
    case False
    have "\<not> is_digit CHR ''.''" by (simp add: is_digit_def)
    then show ?thesis
      using False readFloat_digits [of "[d]" fused fstate0 "CHR ''.'' # fs @ c # rest"] d(1)
        readFloat_digits [OF fs(1), of fused "s1\<lparr>fmode := 2\<rparr>" "c # rest"] readFloat_stop [OF c]
      by (simp add: n s_def s1_def)
  qed
  moreover have "\<exists>r. float_result s = Fin r \<and> 0 \<le> r \<and> \<bar>r - of_nat k / 10000\<bar> \<le> 1 / 2 ^ 22"
  proof (cases "fs = []")
    case True
    then have "of_int (dig d) = (of_nat k / 10000 :: real)" using val by (simp add: dec_def)
    moreover have "0 \<le> (of_int (dig d) :: real)" using d(2) by auto
    ultimately show ?thesis using s1 True w by (intro float_result_near [of _ "of_int (dig d)"]) (auto simp: s_def)
  next
    case False
    have "reading 0 (of_int (dig d)) (s1\<lparr>fmode := 2\<rparr>)"
      using s1 tenth d(2) by (auto simp: reading_def frac_ok_def)
    then have "reading (length fs) (of_int (dig d) + of_int (dec fs) / 10 ^ length fs) s"
      using reading_digits [of "of_int (dig d)" "s1\<lparr>fmode := 2\<rparr>" fs fused] fs d(2) False by (auto simp: s_def)
    then have "reading (length fs) (of_nat k / 10000) s" unfolding val .
    then obtain v where v: "fval64 s = Fin v" "0 \<le> v" "\<bar>v - of_nat k / 10000\<bar> \<le> of_nat (length fs) / 2 ^ 45"
      and s: "fsign s = Fin 1" "fexp s = 0" by (auto simp: reading_def)
    have "of_nat (length fs) / 2 ^ 45 \<le> (12 / 2 ^ 45 :: real)" using fs(2) by (intro divide_right_mono) auto
    also have "\<dots> \<le> 1 / 2 ^ 40" by simp
    finally show ?thesis using v s w by (intro float_result_near) auto
  qed
  ultimately show ?thesis by auto
qed

lemma quantize_weight:
  assumes "k \<le> 10000" "0 \<le> r" "\<bar>r - of_nat k / 10000\<bar> \<le> 1 / 2 ^ 22"
  shows "quantize fused (Fin r) = word_of_int (int k)"
proof -
  have "sint (quantize fused (Fin r)) = int k"
  proof (cases "r \<le> 1")
    case True
    have "\<bar>of_int (sint (quantize fused (Fin r))) - r * 10000\<bar> \<le> 1 / 2 + 1 / 512" by (rule quantize_near [OF assms(2) True])
    moreover have "\<bar>r * 10000 - of_nat k\<bar> \<le> 10000 / 2 ^ 22" using assms(3) by (simp add: abs_le_iff field_simps)
    ultimately have "\<bar>of_int (sint (quantize fused (Fin r))) - of_nat k\<bar> < (1 :: real)" using error_consts(4) by linarith
    then show ?thesis by linarith
  next
    case False
    then have "10000 - 10000 / 2 ^ 22 < (of_nat k :: real)" using assms(3) by linarith
    then have "10000 - 1 < (of_nat k :: real)" using error_consts(4) by linarith
    then have "10000 \<le> k" by linarith
    then have k: "k = 10000" using assms(1) by simp
    have "\<not> fle (Fin r) (fround F32 (- 1 + 1 / 1000000))" using assms(2) by (intro above_sentinel) simp
    then show ?thesis using False by (simp add: quantize_def QuantScale_def k)
  qed
  moreover have "sint (word_of_int (int k) :: i16) = int k" by (rule sint_word_of_int_i16) (use assms in auto)
  ultimately show ?thesis by (metis signed_word_eqI)
qed

subsection \<open>A rendered file\<close>

datatype cell = Absent | Weight num nat
  \<comment> \<open>a missing component, written \<open>-1\<close>, or a number worth so many ten-thousandths\<close>

fun cell_ok :: "cell \<Rightarrow> bool" where
  "cell_ok Absent \<longleftrightarrow> True"
| "cell_ok (Weight n k) \<longleftrightarrow> weight_ok n k"

fun render_cell :: "cell \<Rightarrow> string" where
  "render_cell Absent = ''-1''"
| "render_cell (Weight n k) = render_num n"

fun cell_val :: "cell \<Rightarrow> i16" where
  "cell_val Absent = SentinelInt"
| "cell_val (Weight n k) = word_of_int (int k)"

fun render_cells :: "cell list \<Rightarrow> string" where
  \<comment> \<open>the list with its closing bracket\<close>
  "render_cells [] = '']''"
| "render_cells [c] = render_cell c @ '']''"
| "render_cells (c # cs) = render_cell c @ CHR '','' # render_cells cs"

type_synonym entry = "cell list \<times> bool"

definition entry_ok :: "entry \<Rightarrow> bool" where
  "entry_ok e \<longleftrightarrow> length (fst e) = 14 \<and> list_all cell_ok (fst e)"

definition render_entry :: "entry \<Rightarrow> string" where
  "render_entry e = CHR ''{'' # vectorKey @ render_cells (fst e) @ labelKey @ (if snd e then ''fraud'' else ''legit'') @ [CHR 0x22, CHR ''}'']"

fun render_file :: "entry list \<Rightarrow> string" where
  \<comment> \<open>the entries, each followed by a comma or by the closing bracket of the file\<close>
  "render_file [] = '']''"
| "render_file [e] = render_entry e @ '']''"
| "render_file (e # es) = render_entry e @ CHR '','' # render_file es"

lemma quantize_sentinel: "quantize fused (Fin (- 1)) = SentinelInt"
proof -
  have f: "fround F32 (- 1 + 1 / 1000000) = Fin (rnd F32 (- 1 + 1 / 1000000))"
      "fround F32 (- 1 - 1 / 1000000) = Fin (rnd F32 (- 1 - 1 / 1000000))"
    by (intro fround_Fin_F32; simp)+
  have "rnd F32 (- 1) = - 1" using rnd_of_int [of "- 1" F32] by simp
  then have "- 1 \<le> rnd F32 (- 1 + 1 / 1000000)" "rnd F32 (- 1 - 1 / 1000000) \<le> - 1"
    using rnd_mono [of "- 1" "- 1 + 1 / 1000000" F32] rnd_mono [of "- 1 - 1 / 1000000" "- 1" F32] by simp_all
  then show ?thesis unfolding quantize_def f by simp
qed

lemma readFloat_cell:
  assumes "cell_ok x" "float_stop c"
  shows "\<exists>v. readFloat fused fstate0 (render_cell x @ c # rest) = Some (v, c, rest) \<and> quantize fused v = cell_val x"
proof (cases x)
  case Absent
  define s where "s = float_digit fused CHR ''1'' (fstate0\<lparr>fsign := Fin (- 1)\<rparr>)"
  have "is_digit CHR ''1''" "dig CHR ''1'' = 1" by code_simp+
  then have "readFloat fused fstate0 (render_cell x @ c # rest) = Some (float_result s, c, rest)"
    using Absent readFloat_digits [of "''1''" fused "fstate0\<lparr>fsign := Fin (- 1)\<rparr>" "c # rest"] readFloat_stop [OF assms(2)]
    by (simp add: s_def fstate0_def)
  moreover have "float_result s = Fin (- 1)"
    using \<open>dig CHR ''1'' = 1\<close> fround_of_int [of "- 1" F64] fround_of_int [of "- 1" F32]
    by (simp add: s_def float_digit_def fstate0_def float_result_def fmac_def fl_small)
  moreover have "quantize fused (Fin (- 1)) = SentinelInt" by (rule quantize_sentinel)
  ultimately show ?thesis using Absent by simp
next
  case (Weight n k)
  then have ok: "weight_ok n k" using assms by simp
  then have "k \<le> 10000" by (cases n) simp
  then show ?thesis using readFloat_weight [OF ok assms(2), of fused rest] quantize_weight [of k] Weight by auto
qed

lemma readVec_cells:
  "list_all cell_ok cs \<Longrightarrow> cs \<noteq> [] \<Longrightarrow> i + length cs = 14 \<Longrightarrow>
   \<exists>vs. readVec fused e i (length cs) (render_cells cs @ rest) = Inr (vs, rest) \<and> map (quantize fused) vs = map cell_val cs"
proof (induction cs arbitrary: i rule: render_cells.induct)
  case (2 c)
  have "float_stop CHR '']''" by (simp add: float_stop_def)
  then obtain v where v: "readFloat fused fstate0 (render_cell c @ CHR '']'' # rest) = Some (v, CHR '']'', rest)"
      "quantize fused v = cell_val c"
    using readFloat_cell [of c "CHR '']''" fused rest] 2 by auto
  then show ?case using 2 by simp
next
  case (3 c c' cs)
  have "float_stop CHR '',''" by (simp add: float_stop_def)
  then obtain v where v: "readFloat fused fstate0 (render_cell c @ CHR '','' # render_cells (c' # cs) @ rest) =
        Some (v, CHR '','', render_cells (c' # cs) @ rest)" "quantize fused v = cell_val c"
    using readFloat_cell [of c "CHR '',''" fused "render_cells (c' # cs) @ rest"] 3 by auto
  obtain vs where vs: "readVec fused e (i + 1) (length (c' # cs)) (render_cells (c' # cs) @ rest) = Inr (vs, rest)"
      "map (quantize fused) vs = map cell_val (c' # cs)"
    using "3.IH" [of "i + 1"] "3.prems" by (auto simp del: readVec.simps render_cells.simps)
  have "i < 13" using "3.prems" by simp
  then show ?case using v vs by simp
qed simp

lemma readUntil_vectorKey: "readUntil vectorKey 0 (CHR ''{'' # vectorKey @ rest) = Some rest"
  by (simp add: vectorKey_def eval_nat_numeral)

lemma readUntil_labelKey: "readUntil labelKey 0 (labelKey @ rest) = Some rest"
  by (simp add: labelKey_def eval_nat_numeral)

lemma readUntil_skip: "b \<noteq> needle ! 0 \<Longrightarrow> readUntil needle 0 (b # bs) = readUntil needle 0 bs"
  by simp

lemma readUntil_junk: "needle ! 0 \<notin> set junk \<Longrightarrow> readUntil needle 0 (junk @ bs) = readUntil needle 0 bs"
  by (induction junk) auto

lemma readLabel_entry:
  "readLabel e ((if f then ''fraud'' else ''legit'') @ CHR 0x22 # rest) = Inr (f, rest)"
  by (simp add: readLabel_def)

definition entry_read :: "bool \<Rightarrow> fl list \<times> bool \<Rightarrow> entry \<Rightarrow> bool" where
  "entry_read fused r x \<longleftrightarrow> length (fst r) = 14 \<and> map (quantize fused) (fst r) = map cell_val (fst x) \<and> snd r = snd x"

lemma scan_entry:
  assumes x: "entry_ok x" and junk: "CHR 0x22 \<notin> set junk"
  shows "\<exists>r. entry_read fused r x \<and> scan fused e (junk @ render_entry x @ rest) =
      (let (es, err) = scan fused e (CHR ''}'' # rest) in (r # es, err))"
proof -
  obtain vs where vs: "readVec fused e 0 (length (fst x)) (render_cells (fst x) @ labelKey @
        (if snd x then ''fraud'' else ''legit'') @ CHR 0x22 # CHR ''}'' # rest) =
      Inr (vs, labelKey @ (if snd x then ''fraud'' else ''legit'') @ CHR 0x22 # CHR ''}'' # rest)"
      "map (quantize fused) vs = map cell_val (fst x)"
    using x readVec_cells [of "fst x" 0 fused e] by (force simp: entry_ok_def)
  have l: "length (fst x) = 14" using x by (simp add: entry_ok_def)
  then have "length vs = 14" using arg_cong [OF vs(2), of length] by simp
  then have r: "entry_read fused (vs, snd x) x" using vs(2) by (simp add: entry_read_def)
  have "vectorKey ! 0 = CHR 0x22" by (simp add: vectorKey_def)
  then have key: "readUntil vectorKey 0 (junk @ render_entry x @ rest) =
      Some (render_cells (fst x) @ labelKey @ (if snd x then ''fraud'' else ''legit'') @ CHR 0x22 # CHR ''}'' # rest)"
    using readUntil_junk [of vectorKey junk] junk readUntil_vectorKey by (simp add: render_entry_def)
  have "scan fused e (junk @ render_entry x @ rest) =
      (let (es, err) = scan fused e (CHR ''}'' # rest) in ((vs, snd x) # es, err))"
    by (subst scan.simps) (simp only: key option.case vs(1) [unfolded l] sum.case prod.case readUntil_labelKey readLabel_entry)
  then show ?thesis using r by blast
qed

lemma scan_none: "CHR 0x22 \<notin> set bs \<Longrightarrow> scan fused EOF bs = ([], None)"
proof -
  assume "CHR 0x22 \<notin> set bs"
  moreover have "vectorKey ! 0 = CHR 0x22" by (simp add: vectorKey_def)
  ultimately have "readUntil vectorKey 0 bs = None" using readUntil_junk [of vectorKey bs "[]"] by simp
  then show ?thesis by (subst scan.simps) simp
qed

lemma scan_render:
  "list_all entry_ok es \<Longrightarrow> CHR 0x22 \<notin> set junk \<Longrightarrow>
   \<exists>rs. scan fused EOF (junk @ render_file es) = (rs, None) \<and> list_all2 (entry_read fused) rs es"
proof (induction es arbitrary: junk rule: render_file.induct)
  case 1
  then show ?case using scan_none [of "junk @ '']''"] by simp
next
  case (2 x)
  obtain r where r: "entry_read fused r x" "scan fused EOF (junk @ render_entry x @ '']'') =
      (let (es, err) = scan fused EOF (CHR ''}'' # '']'') in (r # es, err))"
    using scan_entry [of x junk fused EOF "'']''"] 2 by auto
  then show ?case using scan_none [of "''}]''"] by simp
next
  case (3 x x' es)
  obtain r where r: "entry_read fused r x" "scan fused EOF (junk @ render_entry x @ CHR '','' # render_file (x' # es)) =
      (let (rs, err) = scan fused EOF (''},'' @ render_file (x' # es)) in (r # rs, err))"
    using scan_entry [of x junk fused EOF "CHR '','' # render_file (x' # es)"] 3 by auto
  obtain rs where "scan fused EOF (''},'' @ render_file (x' # es)) = (rs, None)" "list_all2 (entry_read fused) rs (x' # es)"
    using "3.IH" [of "''},''"] 3 by auto
  then show ?case using r by auto
qed

subsection \<open>Filling the arrays\<close>

lemma put_block:
  assumes "b + n \<le> length vs"
  shows "ofold (\<lambda>d vs. put vs (b + d) (f d)) [0..<n] vs = Some (take b vs @ map f [0..<n] @ drop (b + n) vs)"
proof -
  have "\<exists>s. ofold (\<lambda>d vs. put vs (b + d) (f d)) [0..<n] vs = Some s \<and>
      s = take b vs @ map f [0..<length [0..<n]] @ drop (b + length [0..<n]) vs"
  proof (rule ofold_prefix_rule)
    fix i s assume i: "i < length [0..<n]" and s: "s = take b vs @ map f [0..<i] @ drop (b + i) vs"
    have "drop (b + i) vs = vs ! (b + i) # drop (b + Suc i) vs" using i assms by (simp add: Cons_nth_drop_Suc)
    then show "\<exists>s'. put s (b + [0..<n] ! i) (f ([0..<n] ! i)) = Some s' \<and> s' = take b vs @ map f [0..<Suc i] @ drop (b + Suc i) vs"
      using i s assms by (simp add: put_Some list_update_append)
  qed simp
  then show ?thesis by simp
qed

lemma map_nth_length: "length v = n \<Longrightarrow> map (\<lambda>d. f (v ! d)) [0..<n] = map f v"
  by (rule nth_equalityI) auto

lemma store_entry_at:
  assumes "length v = 14" "length V = 14 * length L"
  shows "store_entry fused (v, isF) (length L, \<lparr>Vectors = V @ replicate (Suc m * 14) 0, DLabels = L @ replicate (Suc m) 0, Count = n\<rparr>) =
    Some (Suc (length L), \<lparr>Vectors = (V @ map (quantize fused) v) @ replicate (m * 14) 0,
      DLabels = (L @ [if isF then 1 else 0]) @ replicate m 0, Count = n\<rparr>)"
proof -
  have "ofold (\<lambda>d vs. put vs (length L * 14 + d) (quantize fused (v ! d))) [0..<14] (V @ replicate (Suc m * 14) 0) =
      Some ((V @ map (quantize fused) v) @ replicate (m * 14) 0)"
    using assms by (subst put_block) (auto simp: map_nth_length [OF assms(1)] mult.commute drop_replicate)
  then show ?thesis by (simp add: store_entry_def put_Some mult.commute)
qed

lemma store_entries:
  assumes "\<And>r. r \<in> set rs \<Longrightarrow> length (fst r) = 14" "length V = 14 * length L"
  shows "ofold (store_entry fused) rs
      (length L, \<lparr>Vectors = V @ replicate (length rs * 14) 0, DLabels = L @ replicate (length rs) 0, Count = n\<rparr>) =
    Some (length L + length rs, \<lparr>Vectors = V @ concat (map (map (quantize fused) \<circ> fst) rs),
      DLabels = L @ map (\<lambda>r. if snd r then 1 else 0) rs, Count = n\<rparr>)"
  using assms
proof (induction rs arbitrary: V L)
  case (Cons r rs)
  define L' :: "u8 list" where "L' = L @ [if snd r then 1 else 0]"
  define V' where "V' = V @ map (quantize fused) (fst r)"
  have l: "length (fst r) = 14" using Cons.prems by simp
  have L': "Suc (length L) = length L'" "length V' = 14 * length L'" using l Cons.prems by (auto simp: L'_def V'_def)
  have "store_entry fused r (length L, \<lparr>Vectors = V @ replicate (length (r # rs) * 14) 0, DLabels = L @ replicate (length (r # rs)) 0, Count = n\<rparr>) =
      Some (length L', \<lparr>Vectors = V' @ replicate (length rs * 14) 0, DLabels = L' @ replicate (length rs) 0, Count = n\<rparr>)"
    using store_entry_at [OF l Cons.prems(2), of fused "snd r" "length rs" n] by (simp add: L'(1) [symmetric]) (simp add: V'_def L'_def)
  moreover have "ofold (store_entry fused) rs (length L', \<lparr>Vectors = V' @ replicate (length rs * 14) 0, DLabels = L' @ replicate (length rs) 0, Count = n\<rparr>) =
      Some (length L' + length rs, \<lparr>Vectors = V' @ concat (map (map (quantize fused) \<circ> fst) rs),
        DLabels = L' @ map (\<lambda>r. if snd r then 1 else 0) rs, Count = n\<rparr>)"
    using Cons.prems L' by (intro Cons.IH) auto
  ultimately show ?case by (simp only: ofold.simps Option.bind.simps) (simp add: L'_def V'_def comp_def)
qed simp

section \<open>Properties\<close>

definition sample_cells :: "cell list" where
  "sample_cells = replicate 5 (Weight (Num False ''0'' ''0417'') 417) @ [Absent, Absent] @
     replicate 7 (Weight (Num False ''1'' ''0'') 10000)"

lemma file_loads:
  assumes "list_all entry_ok es"
  shows "LoadFromGzipJSON fused (EOF, CHR ''['' # render_file es) (EOF, CHR ''['' # render_file es) =
    Some (Inr \<lparr>Vectors = concat (map (map cell_val \<circ> fst) es), DLabels = map (\<lambda>x. if snd x then 1 else 0) es, Count = length es\<rparr>)"
proof -
  obtain rs where rs: "scan fused EOF (CHR ''['' # render_file es) = (rs, None)" "list_all2 (entry_read fused) rs es"
    using scan_render [OF assms, of "''[''" fused] by auto
  have len: "length rs = length es" using rs(2) by (rule list_all2_lengthD)
  have each: "\<And>r. r \<in> set rs \<Longrightarrow> length (fst r) = 14"
    using rs(2) by (auto simp: list_all2_conv_all_nth in_set_conv_nth entry_read_def)
  have "map (map (quantize fused) \<circ> fst) rs = map (map cell_val \<circ> fst) es"
      "map (\<lambda>r. if snd r then 1 else 0 :: u8) rs = map (\<lambda>x. if snd x then 1 else 0) es"
    using rs(2) by (auto simp: list_all2_conv_all_nth entry_read_def intro: nth_equalityI)
  then show ?thesis
    using store_entries [where rs = rs and V = "[]" and L = "[]" and n = "length rs" and fused = fused, OF each] by (simp add: LoadFromGzipJSON_def rs(1) len Let_def)
qed

lemma sample_file_ok: "list_all entry_ok [(sample_cells, True)]"
proof -
  have "is_digit CHR ''0''" "is_digit CHR ''4''" "is_digit CHR ''1''" "is_digit CHR ''7''"
    "dec ''0417'' = 417" "dec ''0'' = 0" "dec ''1'' = 1" by code_simp+
  then have "weight_ok (Num False ''0'' ''0417'') 417" "weight_ok (Num False ''1'' ''0'') 10000" by simp_all
  then have "list_all cell_ok sample_cells" by (simp add: sample_cells_def list_all_iff del: weight_ok.simps)
  then show ?thesis by (simp add: entry_ok_def) (simp add: sample_cells_def)
qed

text \<open>C29. The loader is lossless: for a file whose entries have fourteen components, each either \<open>-1\<close> or a number of
  at most twelve fraction digits worth \<open>k\<close> ten-thousandths, and the label \<open>fraud\<close> or \<open>legit\<close>, both passes
  succeed and the data set holds exactly these \<open>k\<close> (and the sentinel), the labels and their count, in the
  order of the file, on both kinds of target.\<close>

theorem loader_lossless:
  assumes "list_all entry_ok es"
  shows "LoadFromGzipJSON fused (EOF, CHR ''['' # render_file es) (EOF, CHR ''['' # render_file es) =
    Some (Inr \<lparr>Vectors = concat (map (map cell_val \<circ> fst) es), DLabels = map (\<lambda>x. if snd x then 1 else 0) es, Count = length es\<rparr>)"
  using assms by (rule file_loads)

theorem loader_lossless_witness:
  "LoadFromGzipJSON False (EOF, CHR ''['' # render_file [(sample_cells, True)]) (EOF, CHR ''['' # render_file [(sample_cells, True)]) =
    Some (Inr \<lparr>Vectors = replicate 5 417 @ [SentinelInt, SentinelInt] @ replicate 7 10000, DLabels = [1], Count = 1\<rparr>)"
  by (subst loader_lossless [OF sample_file_ok]) (simp add: sample_cells_def)

text \<open>The sign of a negative exponent is lost: the first digit after \<open>e-\<close> sets it back to plus, so the text reads as
  the same number with a positive exponent.\<close>

theorem negative_exponent_lost:
  assumes "is_digit d"
  shows "readFloat fused s (CHR ''e'' # CHR ''-'' # d # bs) = readFloat fused s (CHR ''e'' # d # bs)"
proof -
  have "d \<noteq> CHR ''-''" "\<not> is_digit CHR ''e''" "\<not> is_digit CHR ''-''" using digit_not_special [OF assms] by (auto simp: is_digit_def)
  then show ?thesis using assms by (simp add: float_digit_def)
qed

theorem negative_exponent_lost_witness: "readFloat False fstate0 ''e-5,'' = readFloat False fstate0 ''e5,''"
  by (rule negative_exponent_lost) code_simp

lemma readUntil_restart:
  \<comment> \<open>a failed match falls back to the start of the needle\<close>
  assumes "needle ! 0 \<notin> set (tl needle)" "0 < m" "m < length needle"
  shows "readUntil needle m bs =
    (if take (length needle - m) bs = drop m needle then Some (drop (length needle - m) bs) else readUntil needle 0 bs)"
  using assms(2,3)
proof (induction bs arbitrary: m)
  case (Cons b bs)
  have d: "drop m needle = needle ! m # drop (Suc m) needle" using Cons.prems by (simp add: Cons_nth_drop_Suc)
  have l: "length needle - m = Suc (length needle - Suc m)" using Cons.prems by simp
  have "needle ! m \<in> set (tl needle)" using Cons.prems by (cases needle) (auto simp: nth_Cons')
  then have ne: "needle ! m \<noteq> needle ! 0" using assms(1) by auto
  show ?case
  proof (cases "b = needle ! m")
    case True
    then have r0: "readUntil needle 0 (b # bs) = readUntil needle 0 bs" using ne by simp
    show ?thesis
    proof (cases "Suc m = length needle")
      case True
      then show ?thesis using \<open>b = needle ! m\<close> d l by simp
    next
      case False
      then have "readUntil needle (Suc m) bs =
          (if take (length needle - Suc m) bs = drop (Suc m) needle then Some (drop (length needle - Suc m) bs) else readUntil needle 0 bs)"
        using Cons by simp
      then show ?thesis unfolding r0 using \<open>b = needle ! m\<close> d l False by simp
    qed
  next
    case False
    have n: "needle \<noteq> []" using Cons.prems by auto
    have "length needle = Suc 0 \<Longrightarrow> m = 0" using Cons.prems by simp
    then show ?thesis using False n d l Cons.prems by auto
  qed
qed (cases needle; auto)

text \<open>The matcher finds the first occurrence of a key whose first byte does not come back in it, such as
  \<open>labelKey\<close>, and returns the text after it.\<close>

theorem key_search_exact:
  assumes "needle \<noteq> []" "needle ! 0 \<notin> set (tl needle)"
  shows "readUntil needle 0 bs = map_option (\<lambda>i. drop (i + length needle) bs) (index_of needle bs)"
proof (induction bs)
  case Nil
  then show ?case using assms(1) by simp
next
  case (Cons b bs)
  obtain c cs where n: "needle = c # cs" using assms(1) by (cases needle) auto
  show ?case
  proof (cases "b = c \<and> cs \<noteq> []")
    case True
    then show ?thesis using readUntil_restart [OF assms(2), of 1 bs] Cons n by (auto simp: option.map_comp comp_def)
  next
    case False
    then show ?thesis using Cons n by (auto simp: option.map_comp comp_def)
  qed
qed

theorem key_search_exact_witness: \<open>readUntil labelKey 0 ''x,,"label":"fraud"'' = Some ''fraud"''\<close>
proof -
  have \<open>index_of labelKey ''x,,"label":"fraud"'' = Some 2\<close> by (simp add: labelKey_def)
  moreover have "labelKey \<noteq> []" "labelKey ! 0 \<notin> set (tl labelKey)" by (simp_all add: labelKey_def)
  ultimately show ?thesis using key_search_exact [of labelKey \<open>''x,,"label":"fraud"''\<close>] by (simp add: labelKey_def)
qed

lemma vectorKey_missed:
  \<comment> \<open>a key that starts at the closing quote of a failed match is not seen\<close>
  \<open>readUntil vectorKey 0 ''"vector"vector":['' = None\<close>
  by (simp add: vectorKey_def eval_nat_numeral)

end
