(* ===== verification/BruteForce.thy ===== *)
theory BruteForce
  imports IvfSearch DatasetScan
begin

text \<open>
  The exact search of \<open>internal/search/bruteforce.go\<close> and its agreement with the
  cluster search.  \<open>FraudCountBrute_eq\<close> shows that the early exits of the brute
  force change nothing; \<open>frauds_exact\<close> that the slots of all clusters are the data
  set plus padding that cannot reach the labels.
\<close>

fun brute_sum :: "i16 list \<Rightarrow> i16 list \<Rightarrow> nat \<Rightarrow> int \<Rightarrow> nat list \<Rightarrow> int \<Rightarrow> int option" where
  "brute_sum query vectors base d4 [] s = Some s"
| "brute_sum query vectors base d4 (d # ds) s = do {
     x \<leftarrow> get vectors (base + d);
     let t = wrap64 (sint (query ! d) - sint x);
     let s' = wrap64 (s + wrap64 (t * t));
     if d4 \<le> s' then Some s' else brute_sum query vectors base d4 ds s'
   }"

definition brute_step :: "i16 list \<Rightarrow> Dataset \<Rightarrow> nat \<Rightarrow> five \<Rightarrow> five option" where
  "brute_step query ds i five = do {
     s \<leftarrow> brute_sum query (Vectors ds) (i * 14) (five_worst five) [0..<14] 0;
     if five_worst five \<le> s then Some five
     else do {
       lab \<leftarrow> get (DLabels ds) i;
       Some (bruteInsert s lab five)
     }
   }"

definition FraudCountBrute :: "i16 list \<Rightarrow> Dataset \<Rightarrow> int option" where
  "FraudCountBrute query ds = do {
     five \<leftarrow> ofold (brute_step query ds) [0..<Count ds] five_init;
     Some (int (length (filter (\<lambda>e. snd e = 1) (five_ents five))))
   }"

subsection \<open>The early exits change nothing\<close>

lemma wrap64_nonneg: "0 \<le> x \<Longrightarrow> x < 2 ^ 63 \<Longrightarrow> wrap64 x = x"
  by (rule wrap64_id) linarith+

lemma brute_sum_eq:
  assumes "\<And>d. d \<in> set ds \<Longrightarrow> base + d < length vectors" "0 \<le> s" "s + int (length ds) * 65535\<^sup>2 \<le> 2 ^ 62"
  shows "\<exists>s'. brute_sum query vectors base d4 ds s = Some s' \<and>
    (let total = s + (\<Sum>d\<leftarrow>ds. (sint (query ! d) - sint (vectors ! (base + d)))\<^sup>2)
     in s' = total \<or> (d4 \<le> s' \<and> s' \<le> total))"
  using assms
proof (induction ds arbitrary: s)
  case (Cons d ds)
  define t where "t = sint (query ! d) - sint (vectors ! (base + d))"
  have t: "\<bar>t\<bar> \<le> 65535" unfolding t_def by (rule i16_diff_range)
  have t2: "0 \<le> t\<^sup>2" "t\<^sup>2 \<le> 65535\<^sup>2" using square_le_of_abs_le [OF t] by auto
  have w: "wrap64 t = t" using t by (intro wrap64_id) auto
  have w2: "wrap64 (t * t) = t\<^sup>2"
    unfolding power2_eq_square [symmetric] using t2 by (intro wrap64_nonneg) auto
  have le: "s + t\<^sup>2 + int (length ds) * 65535\<^sup>2 \<le> 2 ^ 62" using Cons.prems(3) t2 by (simp add: algebra_simps)
  then have "s + t\<^sup>2 \<le> 2 ^ 62" by (smt (verit) of_nat_0_le_iff mult_nonneg_nonneg zero_le_power2)
  then have w3: "wrap64 (s + t\<^sup>2) = s + t\<^sup>2" using Cons.prems(2) t2 by (intro wrap64_nonneg) auto
  have step: "brute_sum query vectors base d4 (d # ds) s =
      (if d4 \<le> s + t\<^sup>2 then Some (s + t\<^sup>2) else brute_sum query vectors base d4 ds (s + t\<^sup>2))"
    using Cons.prems(1) [of d] by (simp add: get_Some t_def [symmetric] w w2 w3 Let_def)
  have rest: "0 \<le> (\<Sum>d\<leftarrow>ds. (sint (query ! d) - sint (vectors ! (base + d)))\<^sup>2)"
    by (rule sum_list_nonneg) auto
  show ?case
  proof (cases "d4 \<le> s + t\<^sup>2")
    case True
    then show ?thesis using step rest by (simp add: t_def Let_def)
  next
    case False
    have "0 \<le> s + t\<^sup>2" using Cons.prems(2) t2 by simp
    from Cons.IH [OF _ this le] Cons.prems(1) False step show ?thesis by (simp add: t_def Let_def add.assoc)
  qed
qed simp

definition dataset_cands :: "i16 list \<Rightarrow> (i16 list \<times> u8) list \<Rightarrow> (int \<times> u8) list" where
  "dataset_cands q ds = map (\<lambda>(v, l). (sq_dist q v, l)) ds"

definition dataset_ok :: "Dataset \<Rightarrow> bool" where
  "dataset_ok ds \<longleftrightarrow> length (Vectors ds) = Count ds * 14 \<and> length (DLabels ds) = Count ds \<and>
     (\<forall>l \<in> set (DLabels ds). l \<le> 1) \<and> (\<forall>x \<in> set (Vectors ds). \<bar>sint x\<bar> \<le> 10000)"

lemma brute_step_eq:
  assumes ok: "dataset_ok ds" and i: "i < Count ds" and inv: "five_inv five"
  shows "brute_step q ds i five = Some (bruteInsert (sq_dist q (vec_of (Vectors ds) i)) (DLabels ds ! i) five)"
proof -
  define D where "D = sq_dist q (vec_of (Vectors ds) i)"
  have r: "i * 14 + d < length (Vectors ds)" if "d \<in> set [0..<14]" for d
    using ok i that by (auto simp: dataset_ok_def)
  have D: "D = (\<Sum>d\<leftarrow>[0..<14]. (sint (q ! d) - sint (Vectors ds ! (i * 14 + d)))\<^sup>2)"
    using r r [of 0] by (auto simp: D_def sq_dist_def vec_of_def interv_sum_list_conv_sum_set_nat atLeast0LessThan intro!: sum.cong)
  from brute_sum_eq [of "[0..<14]" "i * 14" "Vectors ds" 0 q "five_worst five", OF r] D obtain s' where
    s': "brute_sum q (Vectors ds) (i * 14) (five_worst five) [0..<14] 0 = Some s'"
    "s' = D \<or> (five_worst five \<le> s' \<and> s' \<le> D)" by (auto simp: Let_def)
  have l: "get (DLabels ds) i = Some (DLabels ds ! i)" using ok i by (simp add: get_Some dataset_ok_def)
  show ?thesis
  proof (cases "five_worst five \<le> s'")
    case True
    then have "five_worst five \<le> D" using s'(2) by auto
    then show ?thesis using True s'(1) brute_top.ins_worse [OF inv] by (simp add: brute_step_def D_def)
  next
    case False
    then show ?thesis using s' l by (simp add: brute_step_def D_def)
  qed
qed

lemma FraudCountBrute_ents:
  assumes ok: "dataset_ok ds"
  shows "\<exists>five. ofold (brute_step q ds) [0..<Count ds] five_init = Some five \<and> five_inv five \<and>
    five_ents five = knn5 (unset @ dataset_cands q (labelled (Vectors ds) (DLabels ds) (Count ds)))"
proof -
  define g where "g i = (sq_dist q (vec_of (Vectors ds) i), DLabels ds ! i)" for i
  define f where "f i five = bruteInsert (fst (g i)) (snd (g i)) five" for i five
  have eq: "ofold (brute_step q ds) [0..<Count ds] five_init = Some (fold f [0..<Count ds] five_init) \<and>
      five_inv (fold f [0..<Count ds] five_init)"
    by (rule ofold_eq_fold [where P = five_inv])
      (use brute_step_eq [OF ok] brute_top.inv_ins five_inv_init in \<open>auto simp: f_def g_def\<close>)
  have "fold f xs five = brute_top.insert_all (map g xs) five" for xs five
    by (induction xs arbitrary: five) (simp_all add: f_def)
  then have "five_ents (fold f [0..<Count ds] five_init) = knn5 (unset @ map g [0..<Count ds])"
    using brute_top.contents_insert_all [OF five_inv_init five_ents_init] by simp
  moreover have "map g [0..<Count ds] = dataset_cands q (labelled (Vectors ds) (DLabels ds) (Count ds))"
    by (simp add: dataset_cands_def labelled_def g_def)
  ultimately show ?thesis using eq by auto
qed

subsection \<open>Counting labels\<close>

lemma label_le_1: "(l :: u8) \<le> 1 \<longleftrightarrow> l = 0 \<or> l = 1"
  by (auto simp: word_le_nat_alt word_unat_eq_iff le_Suc_eq)

lemma sum_labels:
  fixes es :: "(int \<times> u8) list"
  assumes "\<forall>e \<in> set es. snd e \<le> 1" "length es \<le> 5"
  shows "unat (sum_list (map snd es)) = length (filter (\<lambda>e. snd e = 1) es)"
proof -
  have "sum_list (map snd es) = of_nat (length (filter (\<lambda>e. snd e = 1) es))"
    using assms(1)
  proof (induction es)
    case (Cons e es)
    then have "snd e = 0 \<or> snd e = 1" using label_le_1 by simp
    with Cons show ?case by auto
  qed simp
  moreover have "length (filter (\<lambda>e. snd e = 1) es) \<le> 5"
    using assms(2) length_filter_le [of "\<lambda>e. snd e = 1" es] by linarith
  ultimately show ?thesis by simp
qed

lemma set_knn5: "set (knn5 cs) \<subseteq> set cs"
  by (auto simp: knn5_def dest: in_set_takeD)

lemma frauds_le_5:
  assumes "\<forall>e \<in> set cs. snd e \<le> 1"
  shows "unat (frauds cs) \<le> 5"
proof -
  have "\<forall>e \<in> set (knn5 cs). snd e \<le> 1" using assms set_knn5 by blast
  moreover have l: "length (knn5 cs) \<le> 5" by (simp add: knn5_def)
  ultimately have "unat (frauds cs) = length (filter (\<lambda>e. snd e = 1) (knn5 cs))"
    unfolding frauds_def by (rule sum_labels)
  then show ?thesis using l length_filter_le [of "\<lambda>e. snd e = 1" "knn5 cs"] by linarith
qed

lemma FraudCountBrute_eq:
  assumes ok: "dataset_ok ds"
  shows "FraudCountBrute q ds =
    Some (int (unat (frauds (dataset_cands q (labelled (Vectors ds) (DLabels ds) (Count ds))))))"
proof -
  define cs where "cs = dataset_cands q (labelled (Vectors ds) (DLabels ds) (Count ds))"
  obtain five where five: "ofold (brute_step q ds) [0..<Count ds] five_init = Some five" "five_ents five = knn5 (unset @ cs)"
    using FraudCountBrute_ents [OF ok] unfolding cs_def by blast
  have lab: "\<forall>e \<in> set cs. snd e \<le> 1 \<and> fst e < 2 ^ 62"
  proof
    fix e assume "e \<in> set cs"
    then obtain i where i: "i < Count ds" "e = (sq_dist q (vec_of (Vectors ds) i), DLabels ds ! i)"
      by (auto simp: cs_def dataset_cands_def labelled_def)
    have "sq_dist q (vec_of (Vectors ds) i) < 2 ^ 62" using sq_dist_le [of q "vec_of (Vectors ds) i"] by simp
    with i ok show "snd e \<le> 1 \<and> fst e < 2 ^ 62" by (simp add: dataset_ok_def)
  qed
  then have labu: "\<forall>e \<in> set (unset @ cs). snd e \<le> 1" by (auto simp: unset_def)
  have "\<forall>e \<in> set (knn5 (unset @ cs)). snd e \<le> 1" using labu set_knn5 by blast
  moreover have "length (knn5 (unset @ cs)) \<le> 5" by (simp add: knn5_def)
  ultimately have "length (filter (\<lambda>e. snd e = 1) (knn5 (unset @ cs))) = unat (frauds (unset @ cs))"
    unfolding frauds_def by (rule sum_labels [symmetric])
  moreover have "frauds (unset @ cs) = frauds cs"
  proof -
    have "frauds (unset @ cs) = frauds (filter (\<lambda>x. fst x < 2 ^ 62) (unset @ cs))"
      by (rule frauds_far) (use lab in \<open>auto simp: unset_def\<close>)
    also have "filter (\<lambda>x. fst x < 2 ^ 62) (unset @ cs) = cs" using lab by (auto simp: unset_def intro: filter_True)
    finally show ?thesis .
  qed
  ultimately show ?thesis using five by (simp add: FraudCountBrute_def cs_def)
qed

subsection \<open>What an index holds\<close>

text \<open>Both indexes store the data set as labelled vectors, with lanes of padding in between
  that lie too far away to matter.\<close>

definition far_bound :: int where
  \<comment> \<open>below the distance of every padding slot, above that of every member\<close>
  "far_bound = 14 * 22767\<^sup>2"

definition slot_ok :: "i16 list \<times> u8 \<Rightarrow> bool" where
  "slot_ok e \<longleftrightarrow> (quantized (fst e) \<and> snd e \<le> 1) \<or> e = (phantom, 0)"

definition stored :: "(i16 list \<times> u8) list \<Rightarrow> (i16 list \<times> u8) list" where
  "stored E = filter (\<lambda>e. fst e \<noteq> phantom) E"

lemma slot_cases:
  assumes "slot_ok e" "quantized qi"
  shows "(fst e \<noteq> phantom \<and> sq_dist qi (fst e) < far_bound \<and> snd e \<le> 1) \<or>
    (e = (phantom, 0) \<and> far_bound \<le> sq_dist qi (fst e))"
proof (cases "quantized (fst e) \<and> snd e \<le> 1")
  case True
  then have "sq_dist qi (fst e) < far_bound" using sq_dist_quantized [OF assms(2), of "fst e"] by (simp add: far_bound_def)
  moreover have "fst e \<noteq> phantom" using True phantom_not_quantized by metis
  ultimately show ?thesis using True by simp
next
  case False
  then show ?thesis using assms sq_dist_phantom [OF assms(2)] by (auto simp: slot_ok_def far_bound_def)
qed

lemma cands_stored:
  assumes E: "\<forall>e \<in> set E. slot_ok e" and q: "quantized qi"
  shows "filter (\<lambda>e. fst e < far_bound) (dataset_cands qi E) = dataset_cands qi (stored E)"
    and "\<forall>e \<in> set (dataset_cands qi E). snd e \<le> 1 \<and> (far_bound \<le> fst e \<longrightarrow> snd e = 0)"
proof -
  have E: "(fst e \<noteq> phantom \<and> sq_dist qi (fst e) < far_bound \<and> snd e \<le> 1) \<or>
    (e = (phantom, 0) \<and> far_bound \<le> sq_dist qi (fst e))" if "e \<in> set E" for e
    using slot_cases [OF _ q] E that by blast
  have "filter (\<lambda>e. sq_dist qi (fst e) < far_bound) E = filter (\<lambda>e. fst e \<noteq> phantom) E"
    using E by (intro filter_cong) force+
  then show "filter (\<lambda>e. fst e < far_bound) (dataset_cands qi E) = dataset_cands qi (stored E)"
    by (simp add: dataset_cands_def stored_def filter_map comp_def split_beta)
  show "\<forall>e \<in> set (dataset_cands qi E). snd e \<le> 1 \<and> (far_bound \<le> fst e \<longrightarrow> snd e = 0)"
    using E by (fastforce simp: dataset_cands_def)
qed

lemma frauds_stored:
  assumes E: "\<forall>e \<in> set E. slot_ok e" and q: "quantized qi" and cs: "mset cs = mset (dataset_cands qi E)"
    and ds: "mset (stored E) = mset ds" and nt: "no_tie (dataset_cands qi ds)"
  shows "frauds (unset @ cs) = frauds (dataset_cands qi ds)"
proof -
  have lab: "\<forall>e \<in> set cs. far_bound \<le> fst e \<longrightarrow> snd e = 0"
    using cands_stored(2) [OF E q] mset_eq_setD [OF cs] by simp
  have "frauds (unset @ cs) = frauds (filter (\<lambda>e. fst e < far_bound) (unset @ cs))"
    by (rule frauds_far) (use lab in \<open>auto simp: unset_def\<close>)
  also have "filter (\<lambda>e. fst e < far_bound) (unset @ cs) = filter (\<lambda>e. fst e < far_bound) cs"
    by (simp add: unset_def far_bound_def)
  also have "frauds \<dots> = frauds (dataset_cands qi ds)"
  proof (rule frauds_no_tie [OF _ nt, symmetric])
    have "mset (dataset_cands qi ds) = mset (dataset_cands qi (stored E))"
      using ds by (simp add: dataset_cands_def)
    also have "\<dots> = filter_mset (\<lambda>e. fst e < far_bound) (mset cs)"
      by (simp add: cs flip: cands_stored(1) [OF E q])
    finally show "mset (dataset_cands qi ds) = mset (filter (\<lambda>e. fst e < far_bound) cs)" by simp
  qed
  finally show ?thesis .
qed

lemma sort_take_filter:
  \<comment> \<open>the smallest elements are found below a bound that enough elements respect\<close>
  "k \<le> length (filter (\<lambda>x. x < B) xs) \<Longrightarrow> take k (sort xs) = take k (sort (filter (\<lambda>x. x < B) xs))" for xs :: "int list"
proof -
  assume k: "k \<le> length (filter (\<lambda>x. x < B) xs)"
  have "sort xs = sort (filter (\<lambda>x. x < B) xs) @ sort (filter (\<lambda>x. B \<le> x) xs)"
  proof (rule properties_for_sort)
    show "mset (sort (filter (\<lambda>x. x < B) xs) @ sort (filter (\<lambda>x. B \<le> x) xs)) = mset xs" by (simp flip: not_less)
    show "sorted (sort (filter (\<lambda>x. x < B) xs) @ sort (filter (\<lambda>x. B \<le> x) xs))" by (auto simp: sorted_append)
  qed
  then show ?thesis using k by simp
qed

lemma dists_stored:
  assumes E: "\<forall>e \<in> set E. slot_ok e" and q: "quantized qi" and cs: "mset cs = mset (dataset_cands qi E)"
    and ds: "mset (stored E) = mset ds" and n: "5 \<le> length ds"
  shows "map fst (knn5 (unset @ cs)) = take 5 (sort (map fst (dataset_cands qi ds)))"
proof -
  have m: "mset (filter (\<lambda>x. x < far_bound) (map fst (unset @ cs))) = mset (map fst (dataset_cands qi ds))"
  proof -
    have "filter (\<lambda>x. x < far_bound) (map fst (unset @ cs)) = map fst (filter (\<lambda>e. fst e < far_bound) cs)"
      by (simp add: filter_map comp_def unset_def far_bound_def)
    also have "mset \<dots> = image_mset fst (filter_mset (\<lambda>e. fst e < far_bound) (mset cs))" by simp
    also have "\<dots> = image_mset fst (mset (dataset_cands qi (stored E)))"
      by (simp add: cs flip: cands_stored(1) [OF E q])
    also have "\<dots> = mset (map fst (dataset_cands qi ds))" using ds by (simp add: dataset_cands_def multiset.map_comp)
    finally show ?thesis .
  qed
  have "5 \<le> length (filter (\<lambda>x. x < far_bound) (map fst (unset @ cs)))"
    using mset_eq_length [OF m] n by (simp add: dataset_cands_def)
  from sort_take_filter [OF this] show ?thesis unfolding knn5_dists by (simp only: sort_cong_mset [OF m])
qed

subsection \<open>All clusters together hold the data set\<close>

definition entries :: "IVFIndex \<Rightarrow> (i16 list \<times> u8) list" where
  "entries idx = concat (map (\<lambda>c. map (slot_entry idx) (cslots idx c)) [0..<unat (ixK idx)])"

lemma cands_entries: "cands qi idx [0..<unat (ixK idx)] = dataset_cands qi (entries idx)"
  by (simp add: entries_def dataset_cands_def cands_def cluster_cands_def [abs_def] slot_entry_def map_concat comp_def)

lemma members_stored: "members idx = stored (entries idx)"
  by (simp add: members_def stored_def entries_def)

lemma entries_ok:
  assumes wf: "wf_index idx"
  shows "\<forall>e \<in> set (entries idx). slot_ok e"
proof
  fix e assume "e \<in> set (entries idx)"
  then obtain c p where c: "c < unat (ixK idx)" "p \<in> set (cslots idx c)" "e = slot_entry idx p" by (auto simp: entries_def)
  from cluster_slot_cases [OF wf c(1,2)] c(3) show "slot_ok e"
    by (auto simp: slot_ok_def member_ok_def slot_entry_def)
qed

lemmas frauds_exact = frauds_stored [OF entries_ok, folded cands_entries members_stored]
  and dists_exact = dists_stored [OF entries_ok, folded cands_entries members_stored]
  and cands_members = cands_stored [OF entries_ok, folded cands_entries members_stored]

subsection \<open>What the searches return\<close>

lemma ents_insert_all_Reset:
  "ents (search_top.insert_all cs (Reset t)) = knn5 (unset @ cs)" "top_inv (search_top.insert_all cs (Reset t))"
  using search_top.contents_insert_all [OF top_inv_Reset ents_Reset] search_top.inv_insert_all [OF top_inv_Reset]
  by auto

lemma cands_append [simp]: "cands qi idx (xs @ ys) = cands qi idx xs @ cands qi idx ys"
  by (simp add: cands_def)

lemma sweep_eq:
  \<comment> \<open>the unconditional sweep of \<open>FraudCountFull\<close>: every cluster whose bit is clear\<close>
  assumes ok: "search_ok tgt qi idx" and s: "scr_ok scr" "CentroidDists scr = scores tgt qi idx"
    "unat (ixK idx) \<le> 64 * length (Scanned scr)" and cs: "\<forall>c \<in> set cs. c < unat (ixK idx)"
  shows "\<exists>scr'. ofold (\<lambda>c scr. do {
         w \<leftarrow> get (Scanned scr) (c div 64);
         if bit w (c mod 64) then Some scr else scanCluster tgt c (to_f32 qi) qi idx scr
       }) cs scr = Some scr' \<and> same_frame scr scr' \<and>
     Top scr' = search_top.insert_all (cands qi idx (filter (\<lambda>c. \<not> scanned_bit (Scanned scr) c) cs)) (Top scr)"
  using s cs
proof (induction cs arbitrary: scr)
  case (Cons c cs)
  have K: "wf_index idx" "quantized qi" using ok by (auto simp: search_ok_def)
  have c: "c < unat (ixK idx)" using Cons.prems by simp
  have w: "get (Scanned scr) (c div 64) = Some (Scanned scr ! (c div 64))"
    using c Cons.prems(3) by (simp add: get_Some)
  show ?case
  proof (cases "scanned_bit (Scanned scr) c")
    case True
    with Cons w show ?thesis by (simp add: scanned_bit_def)
  next
    case False
    have "c < length (CentroidDists scr)" "CentroidDists scr ! c =
        score (amd64 tgt \<or> fuses tgt) (to_f32 qi) (Centroids idx) (unat (ixK idx)) [0..<14] c"
      using c by (simp_all add: Cons.prems(2) scores_def)
    from scanCluster_eq [OF K(1) c K(2) Cons.prems(1) this, of tgt] obtain scr1 where
      1: "scanCluster tgt c (to_f32 qi) qi idx scr = Some scr1" "same_frame scr scr1"
      "Top scr1 = search_top.insert_all (cluster_cands qi idx c) (Top scr)" by blast
    have "scr_ok scr1" using scr_ok_insert [OF Cons.prems(1) 1(3)] .
    with Cons.IH [of scr1] 1 Cons.prems w False show ?thesis
      by (auto simp: same_frame_def scanned_bit_def cands_def)
  qed
qed (simp add: cands_def same_frame_def)

lemma mset_cands_split:
  \<comment> \<open>a set of clusters and the rest make up the index\<close>
  assumes "distinct ids" "set ids \<subseteq> {..<K}"
  shows "mset (cands qi idx (ids @ filter (\<lambda>c. c \<notin> set ids) [0..<K])) = mset (cands qi idx [0..<K])"
proof -
  have "mset ids = mset (filter (\<lambda>c. c \<in> set ids) [0..<K])"
    using assms by (subst set_eq_iff_mset_eq_distinct [symmetric]) auto
  moreover have "mset [0..<K] = mset (filter (\<lambda>c. c \<in> set ids) [0..<K]) + mset (filter (\<lambda>c. c \<notin> set ids) [0..<K])"
    unfolding mset_filter by (rule multiset_partition)
  ultimately have "mset (ids @ filter (\<lambda>c. c \<notin> set ids) [0..<K]) = mset [0..<K]" by (simp only: mset_append)
  moreover have "mset (cands qi idx xs) = \<Sum>\<^sub># (image_mset (\<lambda>c. mset (cluster_cands qi idx c)) (mset xs))" for xs
    by (induction xs) (simp_all add: cands_def)
  ultimately show ?thesis by (simp only:)
qed

lemma FraudCountFull_eq:
  assumes ok: "search_ok tgt qi idx" and sh: "scr_shape idx scr"
  shows "\<exists>scr' cs. FraudCountFull (unat (ixK idx)) tgt (to_f32 qi) qi idx scr = Some (frauds (unset @ cs), scr') \<and>
    ents (Top scr') = knn5 (unset @ cs) \<and> mset cs = mset (cands qi idx [0..<unat (ixK idx)]) \<and> scr_shape idx scr'"
proof -
  define K where "K = unat (ixK idx)"
  have "min FastNProbe MaxNProbe = 8" "8 \<le> MaxNProbe" by (simp_all add: FastNProbe_def MaxNProbe_def)
  with fast_tier_eq [OF ok sh, of 8] obtain scr1 ids where
    1: "fast_tier tgt (to_f32 qi) qi idx (min FastNProbe MaxNProbe) scr = Some scr1"
    and near: "nearest (scores tgt qi idx) [0..<K] 8 ids"
    and top: "Top scr1 = search_top.insert_all (cands qi idx ids) (Reset (Top scr))"
    and s1: "scr_ok scr1" "scr_shape idx scr1" "CentroidDists scr1 = scores tgt qi idx"
    and bits: "\<forall>c<K. scanned_bit (Scanned scr1) c \<longleftrightarrow> c \<in> set ids"
    unfolding K_def by auto
  define rest where "rest = filter (\<lambda>c. c \<notin> set ids) [0..<K]"
  have rest: "filter (\<lambda>c. \<not> scanned_bit (Scanned scr1) c) [0..<K] = rest"
    unfolding rest_def by (rule filter_cong) (use bits in auto)
  have "K \<le> 64 * length (Scanned scr1)" using s1(2) by (simp add: scr_shape_def K_def)
  from sweep_eq [OF ok s1(1,3) this [unfolded K_def], of "[0..<K]"] obtain scr2 where
    2: "ofold (\<lambda>c scr. do {
         w \<leftarrow> get (Scanned scr) (c div 64);
         if bit w (c mod 64) then Some scr else scanCluster tgt c (to_f32 qi) qi idx scr
       }) [0..<K] scr1 = Some scr2"
      "Top scr2 = search_top.insert_all (cands qi idx rest) (Top scr1)" "same_frame scr1 scr2"
    by (auto simp: K_def rest [unfolded K_def])
  have "scr_shape idx scr2" using s1(2) 2(3) by (simp add: scr_shape_def same_frame_def)
  define cs where "cs = cands qi idx (ids @ rest)"
  have t2: "Top scr2 = search_top.insert_all cs (Reset (Top scr))" by (simp add: 2(2) top cs_def)
  have e: "ents (Top scr2) = knn5 (unset @ cs)" "top_inv (Top scr2)"
    unfolding t2 by (rule ents_insert_all_Reset)+
  have "mset cs = mset (cands qi idx [0..<K])"
    unfolding cs_def rest_def by (rule mset_cands_split) (use near in \<open>auto simp: nearest_def\<close>)
  moreover have "FraudCountFull K tgt (to_f32 qi) qi idx scr = Some (FraudCount (Top scr2), scr2)"
    using 1 2(1) by (simp add: FraudCountFull_def FraudCountFastOnly_def)
  moreover have "FraudCount (Top scr2) = frauds (unset @ cs)" using FraudCount_frauds [OF e(2,1)] .
  ultimately show ?thesis unfolding K_def using e(1) \<open>scr_shape idx scr2\<close> by auto
qed

lemma cands_labels:
  assumes "wf_index idx" "quantized qi" "set cs \<subseteq> {..<unat (ixK idx)}"
  shows "\<forall>e \<in> set (unset @ cands qi idx cs). snd e \<le> 1"
proof -
  have "set (cands qi idx cs) \<subseteq> set (cands qi idx [0..<unat (ixK idx)])" using assms(3) by (fastforce simp: cands_def)
  then show ?thesis using cands_members(2) [OF assms(1,2)] by (auto simp: unset_def)
qed

lemma needs_sweep_Some: "unat fc \<le> 5 \<Longrightarrow> \<exists>b. needs_sweep fc w = Some b"
  by (auto simp: needs_sweep_def get_Some ExtremeWorstThreshold_def)

lemma EscalateN_Some: "unat fc \<le> 5 \<Longrightarrow> \<exists>n \<le> 192. get EscalateNByClass (unat fc) = Some n"
proof -
  assume "unat fc \<le> 5"
  then consider "unat fc = 0" | "unat fc = 1" | "unat fc = 2" | "unat fc = 3" | "unat fc = 4" | "unat fc = 5"
    by linarith
  then show ?thesis by cases (simp_all add: EscalateNByClass_def get_def)
qed

lemma unscanned_nearest:
  assumes "\<forall>c<K. scanned_bit sc c \<longleftrightarrow> c \<in> set ids"
  shows "unscanned sc K = filter (\<lambda>c. c \<notin> set ids) [0..<K]"
  unfolding unscanned_def by (rule filter_cong) (use assms in \<open>auto simp: scanned_bit_def\<close>)

text \<open>The production search returns the five nearest of the clusters it scans: the eight nearest
  and, when the fast tier is not conclusive, the next nearest up to a number that depends on
  the class.\<close>

definition search_state :: "i16 list \<Rightarrow> IVFIndex \<Rightarrow> nat list \<Rightarrow> IVFScratch \<Rightarrow> bool" where
  \<comment> \<open>the scratch after the clusters \<open>ids\<close> have been scanned\<close>
  "search_state qi idx ids scr \<longleftrightarrow> scr_shape idx scr \<and> ents (Top scr) = knn5 (unset @ cands qi idx ids) \<and> top_inv (Top scr) \<and>
     set ids \<subseteq> {..<unat (ixK idx)} \<and> (\<forall>c < unat (ixK idx). scanned_bit (Scanned scr) c \<longleftrightarrow> c \<in> set ids)"

definition fast_state :: "target \<Rightarrow> i16 list \<Rightarrow> IVFIndex \<Rightarrow> nat list \<Rightarrow> IVFScratch \<Rightarrow> bool" where
  \<comment> \<open>the scratch after the fast tier has scanned \<open>ids\<close>\<close>
  "fast_state tgt qi idx ids scr \<longleftrightarrow> search_state qi idx ids scr \<and> scr_ok scr \<and> CentroidDists scr = scores tgt qi idx \<and>
     (\<exists>t. Top scr = search_top.insert_all (cands qi idx ids) (Reset t)) \<and>
     nearest (scores tgt qi idx) [0..<unat (ixK idx)] 8 ids"

lemma fast_tier_state:
  assumes ok: "search_ok tgt qi idx" and sh: "scr_shape idx scr"
  obtains scr1 ids where "fast_tier tgt (to_f32 qi) qi idx 8 scr = Some scr1" "fast_state tgt qi idx ids scr1"
proof -
  have "8 \<le> MaxNProbe" by (simp add: MaxNProbe_def)
  from fast_tier_eq [OF ok sh this] obtain scr1 ids where
    1: "fast_tier tgt (to_f32 qi) qi idx 8 scr = Some scr1" "nearest (scores tgt qi idx) [0..<unat (ixK idx)] 8 ids"
      "Top scr1 = search_top.insert_all (cands qi idx ids) (Reset (Top scr))" "scr_ok scr1" "scr_shape idx scr1"
      "CentroidDists scr1 = scores tgt qi idx" "\<forall>c < unat (ixK idx). scanned_bit (Scanned scr1) c \<longleftrightarrow> c \<in> set ids"
    by auto
  have "ents (Top scr1) = knn5 (unset @ cands qi idx ids)" "top_inv (Top scr1)"
    unfolding 1(3) by (rule ents_insert_all_Reset)+
  then have "fast_state tgt qi idx ids scr1" using 1(2-7) by (auto simp: fast_state_def search_state_def nearest_def)
  then show thesis using 1(1) by (rule that [rotated])
qed

lemma fast_state_count:
  assumes "search_ok tgt qi idx" "fast_state tgt qi idx ids scr"
  shows "FraudCount (Top scr) = frauds (unset @ cands qi idx ids)"
    "WorstI64 (Top scr) = fst (knn5 (unset @ cands qi idx ids) ! 4)" "unat (frauds (unset @ cands qi idx ids)) \<le> 5"
proof -
  have e: "ents (Top scr) = knn5 (unset @ cands qi idx ids)" "top_inv (Top scr)" "set ids \<subseteq> {..<unat (ixK idx)}"
    using assms(2) by (auto simp: fast_state_def search_state_def)
  show "FraudCount (Top scr) = frauds (unset @ cands qi idx ids)" "WorstI64 (Top scr) = fst (knn5 (unset @ cands qi idx ids) ! 4)"
    using FraudCount_frauds [OF e(2,1)] search_top.worst_last [OF e(2)] by (simp_all add: e(1))
  show "unat (frauds (unset @ cands qi idx ids)) \<le> 5"
    using assms(1) e(3) by (intro frauds_le_5 cands_labels) (auto simp: search_ok_def)
qed

lemma PickNextNUnscanned_buffer:
  \<comment> \<open>the old contents of the buffer do not matter\<close>
  "length p = n \<Longrightarrow> length q = n \<Longrightarrow> PickNextNUnscanned d s n p = PickNextNUnscanned d s n q"
  by (cases n) (simp_all add: PickNextNUnscanned_def)

lemma escalation:
  \<comment> \<open>the next \<open>n\<close> clusters, whatever buffer they are picked into\<close>
  assumes ok: "search_ok tgt qi idx" and st: "fast_state tgt qi idx ids scr" and nM: "n \<le> MaxNProbe"
  obtains out ids' where "length out = n"
    "\<And>picked. length picked = n \<Longrightarrow> PickNextNUnscanned (CentroidDists scr) (Scanned scr) n picked = Some out"
    "nearest (scores tgt qi idx) (filter (\<lambda>c. c \<notin> set ids) [0..<unat (ixK idx)]) n ids'"
    "\<And>P. length P = MaxNProbe \<Longrightarrow> \<exists>scr'. scan_picked tgt (to_f32 qi) qi idx out (scr\<lparr>Picked := P\<rparr>) = Some scr' \<and>
       search_state qi idx (ids @ ids') scr' \<and> FraudCount (Top scr') = frauds (unset @ cands qi idx (ids @ ids'))"
proof -
  define K where "K = unat (ixK idx)"
  have s1: "scr_ok scr" "scr_shape idx scr" "CentroidDists scr = scores tgt qi idx" "set ids \<subseteq> {..<K}"
    and bits: "\<forall>c<K. scanned_bit (Scanned scr) c \<longleftrightarrow> c \<in> set ids"
    using st by (auto simp: fast_state_def search_state_def K_def)
  obtain t where top: "Top scr = search_top.insert_all (cands qi idx ids) (Reset t)" using st by (auto simp: fast_state_def)
  have sp: "scores_ok (scores tgt qi idx)" "length (scores tgt qi idx) = K" using scores_props [OF ok] by (auto simp: K_def)
  have len: "length (scores tgt qi idx) \<le> 64 * length (Scanned scr)" using s1(2) sp(2) by (simp add: scr_shape_def K_def)
  have le: "n \<le> length (replicate n (0 :: u16))" by simp
  from PickNextNUnscanned_nearest [OF scores_finite [OF sp(1)] len nM le]
  obtain ids' where p: "PickNextNUnscanned (scores tgt qi idx) (Scanned scr) n (replicate n 0) =
      Some (map of_nat ids' @ replicate (n - length ids') NOID)"
    and near: "nearest (scores tgt qi idx) (filter (\<lambda>c. c \<notin> set ids) [0..<K]) n ids'"
    unfolding sp(2) unscanned_nearest [OF bits] by auto
  have sub': "set ids' \<subseteq> {..<K}" "length ids' \<le> n" using near by (auto simp: nearest_def)
  have "\<exists>scr'. scan_picked tgt (to_f32 qi) qi idx (map of_nat ids' @ replicate (n - length ids') NOID) (scr\<lparr>Picked := P\<rparr>) = Some scr' \<and>
       search_state qi idx (ids @ ids') scr' \<and> FraudCount (Top scr') = frauds (unset @ cands qi idx (ids @ ids'))"
    if P: "length P = MaxNProbe" for P
  proof -
    have "scr_ok (scr\<lparr>Picked := P\<rparr>)" using s1(1) by (simp add: scr_ok_def)
    from scan_picked_eq [OF ok this, of ids' "n - length ids'"] obtain scr3 where
      3: "scan_picked tgt (to_f32 qi) qi idx (map of_nat ids' @ replicate (n - length ids') NOID) (scr\<lparr>Picked := P\<rparr>) = Some scr3"
      "Top scr3 = search_top.insert_all (cands qi idx ids') (Top scr)"
      "CentroidDists scr3 = CentroidDists scr" "Picked scr3 = P" "length (Scanned scr3) = length (Scanned scr)"
      "\<forall>x < 64 * length (Scanned scr). scanned_bit (Scanned scr3) x \<longleftrightarrow> scanned_bit (Scanned scr) x \<or> x \<in> set ids'"
      using s1(2,3) sub' by (auto simp: scr_shape_def K_def)
    have t3: "Top scr3 = search_top.insert_all (cands qi idx (ids @ ids')) (Reset t)" by (simp add: 3(2) top)
    have e3: "ents (Top scr3) = knn5 (unset @ cands qi idx (ids @ ids'))" "top_inv (Top scr3)"
      unfolding t3 by (rule ents_insert_all_Reset)+
    have "scr_shape idx scr3" using s1(2) 3(3-5) P by (simp add: scr_shape_def)
    moreover have "\<forall>c<K. scanned_bit (Scanned scr3) c \<longleftrightarrow> c \<in> set (ids @ ids')"
      using 3(6) bits s1(2) by (simp add: scr_shape_def K_def)
    ultimately have "search_state qi idx (ids @ ids') scr3" using e3 s1(4) sub' by (simp add: search_state_def K_def)
    then show ?thesis using 3(1) FraudCount_frauds [OF e3(2,1)] by blast
  qed
  moreover have "PickNextNUnscanned (CentroidDists scr) (Scanned scr) n picked = Some (map of_nat ids' @ replicate (n - length ids') NOID)"
    if "length picked = n" for picked
    using PickNextNUnscanned_buffer [of picked n "replicate n 0" "scores tgt qi idx" "Scanned scr"] that p s1(3) by simp
  ultimately show thesis using sub'(2) near by (intro that [of "map of_nat ids' @ replicate (n - length ids') NOID" ids']) (simp_all add: K_def)
qed

lemma FraudCountIVF_eq:
  assumes ok: "search_ok tgt qi idx" and sh: "scr_shape idx scr"
  shows "\<exists>scr' ids. let K = unat (ixK idx); d = scores tgt qi idx; fc = frauds (unset @ cands qi idx ids);
        worst = fst (knn5 (unset @ cands qi idx ids) ! 4) in
     nearest d [0..<K] 8 ids \<and>
     (if needs_sweep fc worst = Some True then
        \<exists>ids'. nearest d (filter (\<lambda>c. c \<notin> set ids) [0..<K]) (EscalateNByClass ! unat fc) ids' \<and>
          FraudCountIVF tgt (to_f32 qi) qi idx scr = Some (frauds (unset @ cands qi idx (ids @ ids')), scr') \<and>
          search_state qi idx (ids @ ids') scr'
      else FraudCountIVF tgt (to_f32 qi) qi idx scr = Some (fc, scr') \<and> search_state qi idx ids scr')"
proof -
  obtain scr1 ids where 1: "fast_tier tgt (to_f32 qi) qi idx FastNProbe scr = Some scr1" and st: "fast_state tgt qi idx ids scr1"
    using fast_tier_state [OF ok sh] by (auto simp: FastNProbe_def)
  define fc where "fc = frauds (unset @ cands qi idx ids)"
  define worst where "worst = fst (knn5 (unset @ cands qi idx ids) ! 4)"
  note fc = fast_state_count [OF ok st, folded fc_def worst_def]
  have near: "nearest (scores tgt qi idx) [0..<unat (ixK idx)] 8 ids" and ss: "search_state qi idx ids scr1"
    using st by (auto simp: fast_state_def)
  obtain b where b: "needs_sweep fc worst = Some b" using needs_sweep_Some [OF fc(3)] by blast
  show ?thesis
  proof (cases b)
    case False
    then have "FraudCountIVF tgt (to_f32 qi) qi idx scr = Some (fc, scr1)"
      using 1 b by (simp add: FraudCountIVF_def fc)
    then show ?thesis using near b False ss
      by (intro exI [of _ scr1] exI [of _ ids]) (simp add: Let_def fc_def worst_def)
  next
    case True
    obtain n where n: "n \<le> 192" "get EscalateNByClass (unat fc) = Some n" using EscalateN_Some [OF fc(3)] by blast
    have nM: "n \<le> MaxNProbe" using n(1) by (simp add: MaxNProbe_def)
    have len: "length (Picked scr1) = MaxNProbe" using ss by (simp add: search_state_def scr_shape_def)
    have pk: "gslice (Picked scr1) 0 n = Some (take n (Picked scr1))" "length (take n (Picked scr1)) = n"
      using len nM by (simp_all add: gslice_Some)
    obtain out ids' where o: "length out = n"
      "\<And>picked. length picked = n \<Longrightarrow> PickNextNUnscanned (CentroidDists scr1) (Scanned scr1) n picked = Some out"
      "nearest (scores tgt qi idx) (filter (\<lambda>c. c \<notin> set ids) [0..<unat (ixK idx)]) n ids'"
      "\<And>P. length P = MaxNProbe \<Longrightarrow> \<exists>scr'. scan_picked tgt (to_f32 qi) qi idx out (scr1\<lparr>Picked := P\<rparr>) = Some scr' \<and>
         search_state qi idx (ids @ ids') scr' \<and> FraudCount (Top scr') = frauds (unset @ cands qi idx (ids @ ids'))"
      using escalation [OF ok st nM] by metis
    have "length (out @ drop n (Picked scr1)) = MaxNProbe" using o(1) len nM by simp
    from o(4) [OF this] obtain scr3 where
      3: "scan_picked tgt (to_f32 qi) qi idx out (scr1\<lparr>Picked := out @ drop n (Picked scr1)\<rparr>) = Some scr3"
        "search_state qi idx (ids @ ids') scr3" "FraudCount (Top scr3) = frauds (unset @ cands qi idx (ids @ ids'))" by blast
    have nn: "EscalateNByClass ! unat fc = n" using n(2) by (simp add: get_eq_Some_iff)
    have "FraudCountIVF tgt (to_f32 qi) qi idx scr = Some (frauds (unset @ cands qi idx (ids @ ids')), scr3)"
      using 1 b True n(2) pk o(2) [OF pk(2)] 3 by (simp add: FraudCountIVF_def fc)
    then show ?thesis using near o(3) 3(2) b True nn
      by (intro exI [of _ scr3] exI [of _ ids]) (auto simp: Let_def fc_def worst_def)
  qed
qed

text \<open>The entry points of the calibration tools.\<close>

lemma FraudCountFastOnly_state:
  assumes "search_ok tgt qi idx" "scr_shape idx scr"
  obtains scr1 ids where "FraudCountFastOnly tgt (to_f32 qi) qi idx scr FastNProbe =
      Some (FraudCount (Top scr1), WorstI64 (Top scr1), scr1)" "fast_state tgt qi idx ids scr1"
    "fast_tier tgt (to_f32 qi) qi idx FastNProbe scr = Some scr1"
proof -
  have m: "FastNProbe = 8" by (simp add: FastNProbe_def)
  obtain scr1 ids where "fast_tier tgt (to_f32 qi) qi idx 8 scr = Some scr1" "fast_state tgt qi idx ids scr1"
    by (rule fast_tier_state [OF assms])
  then show thesis by (intro that [of scr1 ids]) (simp_all add: FraudCountFastOnly_def MaxNProbe_def m)
qed

lemma escalate_fresh_eq:
  assumes ok: "search_ok tgt qi idx" and st: "fast_state tgt qi idx ids scr" and nM: "n \<le> MaxNProbe"
  shows "\<exists>scr' ids'. escalate_fresh tgt (to_f32 qi) qi idx n scr = Some (frauds (unset @ cands qi idx (ids @ ids')), scr') \<and>
    search_state qi idx (ids @ ids') scr'"
proof -
  obtain out ids' where o: "\<And>picked. length picked = n \<Longrightarrow> PickNextNUnscanned (CentroidDists scr) (Scanned scr) n picked = Some out"
    "\<And>P. length P = MaxNProbe \<Longrightarrow> \<exists>scr'. scan_picked tgt (to_f32 qi) qi idx out (scr\<lparr>Picked := P\<rparr>) = Some scr' \<and>
       search_state qi idx (ids @ ids') scr' \<and> FraudCount (Top scr') = frauds (unset @ cands qi idx (ids @ ids'))"
    using escalation [OF ok st nM] by metis
  have "length (Picked scr) = MaxNProbe" using st by (simp add: fast_state_def search_state_def scr_shape_def)
  from o(2) [OF this] show ?thesis by (auto simp: escalate_fresh_def o(1))
qed

lemma FraudCountTopN_total:
  assumes ok: "search_ok tgt qi idx" and sh: "scr_shape idx scr"
  shows "\<exists>scr' ids. FraudCountTopN tgt (to_f32 qi) qi idx scr n = Some (frauds (unset @ cands qi idx ids), scr') \<and>
    search_state qi idx ids scr'"
proof -
  obtain scr1 ids where 1: "FraudCountFastOnly tgt (to_f32 qi) qi idx scr FastNProbe =
      Some (FraudCount (Top scr1), WorstI64 (Top scr1), scr1)" "fast_state tgt qi idx ids scr1"
    using FraudCountFastOnly_state [OF ok sh] by metis
  note fc = fast_state_count [OF ok 1(2)]
  obtain b where b: "needs_sweep (frauds (unset @ cands qi idx ids)) (WorstI64 (Top scr1)) = Some b"
    using needs_sweep_Some [OF fc(3)] by blast
  have "min n MaxNProbe \<le> MaxNProbe" by simp
  from escalate_fresh_eq [OF ok 1(2) this] obtain scr2 ids' where
    2: "escalate_fresh tgt (to_f32 qi) qi idx (min n MaxNProbe) scr1 = Some (frauds (unset @ cands qi idx (ids @ ids')), scr2)"
      "search_state qi idx (ids @ ids') scr2" by blast
  have "search_state qi idx ids scr1" using 1(2) by (simp add: fast_state_def)
  then show ?thesis
    using 1(1) b fc(1) 2
    by (cases b) (auto simp: FraudCountTopN_def intro: exI [of _ ids] exI [of _ "ids @ ids'"])
qed

lemma TopNByClass_is_production:
  \<comment> \<open>with the production table the calibration entry point counts what the production search counts\<close>
  assumes ok: "search_ok tgt qi idx" and sh: "scr_shape idx scr"
  shows "map_option fst (FraudCountTopNByClass tgt (to_f32 qi) qi idx scr (map int EscalateNByClass)) =
    map_option fst (FraudCountIVF tgt (to_f32 qi) qi idx scr)"
proof -
  obtain scr1 ids where 1: "FraudCountFastOnly tgt (to_f32 qi) qi idx scr FastNProbe =
      Some (FraudCount (Top scr1), WorstI64 (Top scr1), scr1)" "fast_state tgt qi idx ids scr1"
      "fast_tier tgt (to_f32 qi) qi idx FastNProbe scr = Some scr1"
    using FraudCountFastOnly_state [OF ok sh] by metis
  note fc = fast_state_count [OF ok 1(2)]
  obtain b where b: "needs_sweep (FraudCount (Top scr1)) (WorstI64 (Top scr1)) = Some b"
    using needs_sweep_Some [OF fc(3)] fc(1) by metis
  show ?thesis
  proof (cases b)
    case False
    then show ?thesis using 1 b by (simp add: FraudCountTopNByClass_def FraudCountIVF_def)
  next
    case True
    obtain n where n: "n \<le> 192" "get EscalateNByClass (unat (FraudCount (Top scr1))) = Some n"
      using EscalateN_Some fc(1,3) by metis
    have nM: "n \<le> MaxNProbe" using n(1) by (simp add: MaxNProbe_def)
    have pos: "0 < n" using n(2) by (auto simp: get_eq_Some_iff EscalateNByClass_def nth_Cons split: nat.splits)
    have c: "get (map int EscalateNByClass) (unat (FraudCount (Top scr1))) = Some (int n)" using n(2) by (auto simp: get_def split: if_splits)
    have len: "length (Picked scr1) = MaxNProbe" using 1(2) by (simp add: fast_state_def search_state_def scr_shape_def)
    have pk: "gslice (Picked scr1) 0 n = Some (take n (Picked scr1))" "length (take n (Picked scr1)) = n"
      using len nM by (simp_all add: gslice_Some)
    obtain out ids' where o: "length out = n"
      "\<And>picked. length picked = n \<Longrightarrow> PickNextNUnscanned (CentroidDists scr1) (Scanned scr1) n picked = Some out"
      "\<And>P. length P = MaxNProbe \<Longrightarrow> \<exists>scr'. scan_picked tgt (to_f32 qi) qi idx out (scr1\<lparr>Picked := P\<rparr>) = Some scr' \<and>
         search_state qi idx (ids @ ids') scr' \<and> FraudCount (Top scr') = frauds (unset @ cands qi idx (ids @ ids'))"
      using escalation [OF ok 1(2) nM] by metis
    have l: "length (out @ drop n (Picked scr1)) = MaxNProbe" using o(1) len nM by simp
    have m: "min (int n) (int MaxNProbe) = int n" using nM by simp
    show ?thesis
      using 1 b True n(2) c pk o(2) [OF pk(2)] o(2) [of "replicate n 0"] o(3) [OF l] o(3) [OF len] pos
      by (auto simp: FraudCountTopNByClass_def FraudCountIVF_def escalate_fresh_def m)
  qed
qed

lemma FraudCountIVF_scans:
  \<comment> \<open>the search returns, with the count of the clusters it has scanned\<close>
  assumes "search_ok tgt qi idx" "scr_shape idx scr"
  obtains ids scr' where "FraudCountIVF tgt (to_f32 qi) qi idx scr = Some (frauds (unset @ cands qi idx ids), scr')"
    "search_state qi idx ids scr'" "distinct ids"
proof -
  from FraudCountIVF_eq [OF assms] obtain scr' ids where
    n: "nearest (scores tgt qi idx) [0..<unat (ixK idx)] 8 ids"
    and r: "let fc = frauds (unset @ cands qi idx ids); worst = fst (knn5 (unset @ cands qi idx ids) ! 4) in
       if needs_sweep fc worst = Some True then
         \<exists>ids'. nearest (scores tgt qi idx) (filter (\<lambda>c. c \<notin> set ids) [0..<unat (ixK idx)]) (EscalateNByClass ! unat fc) ids' \<and>
           FraudCountIVF tgt (to_f32 qi) qi idx scr = Some (frauds (unset @ cands qi idx (ids @ ids')), scr') \<and>
           search_state qi idx (ids @ ids') scr'
       else FraudCountIVF tgt (to_f32 qi) qi idx scr = Some (fc, scr') \<and> search_state qi idx ids scr'"
    unfolding Let_def by blast
  note res = r [unfolded Let_def]
  show ?thesis
  proof (cases "needs_sweep (frauds (unset @ cands qi idx ids)) (fst (knn5 (unset @ cands qi idx ids) ! 4)) = Some True")
    case True
    with res obtain ids' where
      "nearest (scores tgt qi idx) (filter (\<lambda>c. c \<notin> set ids) [0..<unat (ixK idx)])
         (EscalateNByClass ! unat (frauds (unset @ cands qi idx ids))) ids'"
      "FraudCountIVF tgt (to_f32 qi) qi idx scr = Some (frauds (unset @ cands qi idx (ids @ ids')), scr')"
      "search_state qi idx (ids @ ids') scr'" by auto
    then show ?thesis using n by (intro that [of "ids @ ids'" scr']) (auto simp: nearest_def)
  next
    case False
    with res n show ?thesis by (intro that [of ids scr']) (auto simp: nearest_def)
  qed
qed

lemma search_stops_exactly:
  \<comment> \<open>unscanned clusters that hold nothing below the fifth place cannot change the count\<close>
  assumes ok: "wf_index idx" "quantized qi" and st: "search_state qi idx ids scr" "distinct ids"
    and far: "\<And>c e. c < unat (ixK idx) \<Longrightarrow> \<not> scanned_bit (Scanned scr) c \<Longrightarrow> e \<in> set (cluster_cands qi idx c) \<Longrightarrow>
      WorstI64 (Top scr) \<le> fst e"
  shows "\<exists>cs. mset cs = mset (cands qi idx [0..<unat (ixK idx)]) \<and> frauds (unset @ cs) = frauds (unset @ cands qi idx ids)"
proof -
  define rest where "rest = filter (\<lambda>c. c \<notin> set ids) [0..<unat (ixK idx)]"
  have t: "ents (Top scr) = knn5 (unset @ cands qi idx ids)" "top_inv (Top scr)" using st by (auto simp: search_state_def)
  have "\<forall>e \<in> set (cands qi idx rest). WorstI64 (Top scr) \<le> fst e"
    using far st(1) by (auto simp: cands_def rest_def search_state_def)
  then have "search_top.insert_all (cands qi idx rest) (Top scr) = Top scr"
    using search_top.insert_all_skip [OF t(2)] by blast
  moreover have "ents (search_top.insert_all (cands qi idx rest) (Top scr)) = knn5 ((unset @ cands qi idx ids) @ cands qi idx rest)"
    by (rule search_top.contents_insert_all [OF t(2,1)])
  ultimately have "frauds (unset @ cands qi idx (ids @ rest)) = frauds (unset @ cands qi idx ids)"
    using t(1) by (simp add: frauds_def)
  moreover have "mset (cands qi idx (ids @ rest)) = mset (cands qi idx [0..<unat (ixK idx)])"
    unfolding rest_def by (rule mset_cands_split) (use st in \<open>auto simp: search_state_def\<close>)
  ultimately show ?thesis by blast
qed

end
