(* ===== verification/Server.thy ===== *)
theory Server
  imports RawHttp BruteForce
begin

text \<open>
  The request handlers of \<open>internal/api/server.go\<close>: the load shedder, the
  scoring of one transaction, the router of the raw connection loop, and the
  handler of \<open>net/http\<close> that does the same for the tests.  The state of the
  process is one record: the ready flag, the index, the slots of the shedder in
  use, the number of requests shed and the pool of scratch buffers.  Run-time
  statistics are an argument of the handler that prints them.
\<close>

subsection \<open>State\<close>

record hstate =
  h_ready :: bool
  h_idx :: "IVFIndex option"
  h_inflight :: nat   \<comment> \<open>tokens in \<open>shedSem\<close>\<close>
  h_slots :: nat   \<comment> \<open>its capacity, \<open>SHED_SLOTS\<close>\<close>
  h_sheds :: u64
  h_pool :: "IVFScratch list"

definition NewHandler :: "nat \<Rightarrow> hstate" where
  "NewHandler cap = \<lparr>h_ready = False, h_idx = None, h_inflight = 0, h_slots = cap, h_sheds = 0, h_pool = []\<rparr>"

definition SetIndex :: "IVFIndex \<Rightarrow> hstate \<Rightarrow> hstate" where
  "SetIndex idx h = h\<lparr>h_idx := Some idx, h_ready := True\<rparr>"

definition MarkReady :: "hstate \<Rightarrow> hstate" where
  "MarkReady h = h\<lparr>h_ready := True\<rparr>"

definition atoi :: "string \<Rightarrow> int option" where
  \<comment> \<open>\<open>strconv.Atoi\<close>: an optional sign and digits within the range of \<open>int\<close>\<close>
  "atoi v =
     (let neg = (v \<noteq> [] \<and> hd v = CHR ''-'');
          ds = (if v \<noteq> [] \<and> hd v \<in> {CHR ''-'', CHR ''+''} then tl v else v);
          n = (if neg then - dec ds else dec ds)
      in if ds \<noteq> [] \<and> list_all is_digit ds \<and> - (2 ^ 63) \<le> n \<and> n < 2 ^ 63 then Some n else None)"

definition envInt :: "string \<Rightarrow> int \<Rightarrow> int" where
  \<comment> \<open>of the value of the variable, empty when it is not set\<close>
  "envInt v def =
     (if v = [] then def
      else case atoi v of None \<Rightarrow> def | Some n \<Rightarrow> if n < 1 then def else n)"

subsection \<open>The load shedder\<close>

definition acquire :: "hstate \<Rightarrow> bool \<times> hstate" where
  \<comment> \<open>a non-blocking send on the channel, or the default branch\<close>
  "acquire h =
     (if h_inflight h < h_slots h then (True, h\<lparr>h_inflight := h_inflight h + 1\<rparr>)
      else (False, h\<lparr>h_sheds := h_sheds h + 1\<rparr>))"

definition release :: "hstate \<Rightarrow> hstate" where
  "release h = h\<lparr>h_inflight := h_inflight h - 1\<rparr>"

subsection \<open>Scoring\<close>

definition fraudResponses :: "string list" where
  \<open>fraudResponses =
     [''{"approved":true,"fraud_score":0}'', ''{"approved":true,"fraud_score":0.2}'',
      ''{"approved":true,"fraud_score":0.4}'', ''{"approved":false,"fraud_score":0.6}'',
      ''{"approved":false,"fraud_score":0.8}'', ''{"approved":false,"fraud_score":1}'']\<close>

definition rawhttpResponses :: "string list option" where
  \<comment> \<open>built at start-up from the same six bodies\<close>
  "rawhttpResponses = (if \<exists>b \<in> set fraudResponses. buildResp b = None then None else Some (map (the \<circ> buildResp) fraudResponses))"

definition raw_response :: "nat \<Rightarrow> string option" where
  "raw_response n = do { rs \<leftarrow> rawhttpResponses; get rs n }"

definition pool_get :: "nat \<Rightarrow> hstate \<Rightarrow> IVFScratch \<times> hstate" where
  "pool_get K h = (case h_pool h of [] \<Rightarrow> (new_scratch K, h) | s # ss \<Rightarrow> (s, h\<lparr>h_pool := ss\<rparr>))"

definition pool_return :: "IVFScratch \<Rightarrow> hstate \<Rightarrow> hstate" where
  "pool_return scr h = h\<lparr>h_pool := scr # h_pool h\<rparr>"

definition score_query :: "target \<Rightarrow> nat \<Rightarrow> IVFIndex \<Rightarrow> i16 list \<Rightarrow> hstate \<Rightarrow> (u8 \<times> hstate) option" where
  \<comment> \<open>the search with a scratch buffer from the pool\<close>
  "score_query tgt K idx query h = do {
     let (scr, h1) = pool_get K h;
     (frauds, scr') \<leftarrow> FraudCountIVF tgt (to_f32 query) query idx scr;
     Some (frauds, pool_return scr' h1)
   }"

definition answer_body :: "target \<Rightarrow> nat \<Rightarrow> IVFIndex \<Rightarrow> string \<Rightarrow> hstate \<Rightarrow> (nat \<times> hstate) option" where
  \<comment> \<open>the index of the response\<close>
  "answer_body tgt K idx body h =
     (case VectorizeFast (fuses tgt) body of
        Panic \<Rightarrow> None
      | Reject \<Rightarrow> Some (0, h)
      | Got query \<Rightarrow> do { (frauds, h') \<leftarrow> score_query tgt K idx query h; Some (unat frauds, h') })"

definition fraudScoreRaw :: "target \<Rightarrow> nat \<Rightarrow> string \<Rightarrow> hstate \<Rightarrow> (string \<times> hstate) option" where
  "fraudScoreRaw tgt K body h =
     (if \<not> h_ready h then Some (readyNotYet, h)
      else case h_idx h of
        None \<Rightarrow> do { r \<leftarrow> raw_response 0; Some (r, h) }
      | Some idx \<Rightarrow>
          let (got, h1) = acquire h in
          if \<not> got then do { r \<leftarrow> raw_response 0; Some (r, h1) }
          else do {
            (n, h2) \<leftarrow> answer_body tgt K idx body h1;
            r \<leftarrow> raw_response n;
            Some (r, release h2)
          })"

subsection \<open>The run-time report\<close>

record sysinfo =
  heap_inuse :: nat
  alloc_total :: nat
  goarch :: string
  goos :: string
  gomaxprocs :: nat
  shed_timeout_ms :: nat

fun decimal :: "nat \<Rightarrow> string" where
  \<comment> \<open>the \<open>%d\<close> verb of \<open>fmt\<close> on a number that is not negative\<close>
  "decimal n = (if n < 10 then [dchr n] else decimal (n div 10) @ [dchr (n mod 10)])"

declare decimal.simps [simp del]

definition boolean :: "bool \<Rightarrow> string" where
  "boolean b = (if b then ''true'' else ''false'')"

definition debug_body :: "sysinfo \<Rightarrow> hstate \<Rightarrow> string" where
  \<open>debug_body env h =
     ''{"dataset_count":'' @ decimal (case h_idx h of None \<Rightarrow> 0 | Some idx \<Rightarrow> unat (ixN idx)) @
     '',"ivf_k":'' @ decimal (case h_idx h of None \<Rightarrow> 0 | Some idx \<Rightarrow> unat (ixK idx)) @
     '',"ready":'' @ boolean (h_ready h) @
     '',"heap_inuse_mb":'' @ decimal (heap_inuse env div 2 ^ 20) @
     '',"alloc_total_mb":'' @ decimal (alloc_total env div 2 ^ 20) @
     '',"goarch":"'' @ goarch env @ ''","goos":"'' @ goos env @
     ''","gomaxprocs":'' @ decimal (gomaxprocs env) @
     '',"shed_slots":'' @ decimal (h_slots h) @
     '',"shed_timeout_ms":'' @ decimal (shed_timeout_ms env) @
     '',"shed_count":'' @ decimal (unat (h_sheds h)) @ ''}''\<close>

definition debugInfoRaw :: "sysinfo \<Rightarrow> hstate \<Rightarrow> string option" where
  "debugInfoRaw env h = buildResp (debug_body env h)"

definition RouteRaw :: "target \<Rightarrow> nat \<Rightarrow> sysinfo \<Rightarrow> hstate router" where
  "RouteRaw tgt K env p body h =
     (if p = ''/fraud-score'' then fraudScoreRaw tgt K body h
      else if p = ''/ready'' then Some (if h_ready h then readyOK else readyNotYet, h)
      else if p = ''/debug/info'' then do { r \<leftarrow> debugInfoRaw env h; Some (r, h) }
      else Some (notFound, h))"

subsection \<open>The net/http handler\<close>

text \<open>The body reader delivers chunks and ends with end of file (\<open>None\<close>) or an error text.\<close>

type_synonym reader = "string list \<times> string option"

function readBodyInto :: "nat \<Rightarrow> string \<Rightarrow> string list \<Rightarrow> (string \<times> nat) option" where
  \<comment> \<open>the bytes read so far into a buffer of length \<open>len\<close>; \<open>None\<close> when reading into an empty slice for ever\<close>
  "readBodyInto len acc [] = Some (acc, if length acc = len then 2 * len else len)"
| "readBodyInto len acc (c # cs) =
     (let len' = (if length acc = len then 2 * len else len); n = min (length c) (len' - length acc) in
      if c \<noteq> [] \<and> n = 0 then None
      else readBodyInto len' (acc @ take n c) (if drop n c = [] then cs else drop n c # cs))"
  by pat_completeness auto
termination
  by (relation "measure (\<lambda>(_, _, cs). length (concat cs) + length cs)") (auto simp: Let_def min_def split: if_splits, simp flip: length_greater_0_conv)

declare readBodyInto.simps [simp del]

type_synonym response = "nat \<times> string"   \<comment> \<open>status and body\<close>

definition http_error :: "string \<Rightarrow> nat \<Rightarrow> response" where
  \<comment> \<open>\<open>http.Error\<close>: the text and a line feed\<close>
  "http_error msg code = (code, msg @ [CHR 0x0A])"

definition handleReady :: "hstate \<Rightarrow> response" where
  "handleReady h = (if h_ready h then (200, ''ok'') else (503, ''not ready''))"

definition handleDebugInfo :: "sysinfo \<Rightarrow> hstate \<Rightarrow> response" where
  \<open>handleDebugInfo env h = (200,
     ''{"dataset_count":'' @ decimal (case h_idx h of None \<Rightarrow> 0 | Some idx \<Rightarrow> unat (ixN idx)) @
     '',"ready":'' @ boolean (h_ready h) @
     '',"heap_inuse_mb":'' @ decimal (heap_inuse env div 2 ^ 20) @
     '',"alloc_total_mb":'' @ decimal (alloc_total env div 2 ^ 20) @
     '',"goarch":"'' @ goarch env @ ''","goos":"'' @ goos env @
     ''","gomaxprocs":'' @ decimal (gomaxprocs env) @ ''}'')\<close>

definition handleFraudScore :: "target \<Rightarrow> nat \<Rightarrow> nat \<Rightarrow> string \<Rightarrow> reader \<Rightarrow> hstate \<Rightarrow> (response \<times> hstate) option" where
  \<comment> \<open>with a buffer of length \<open>len\<close> from the pool\<close>
  "handleFraudScore tgt K len meth r h =
     (if meth \<noteq> ''POST'' then Some (http_error ''method not allowed'' 405, h)
      else if \<not> h_ready h then Some (http_error ''not ready'' 503, h)
      else do {
        (body, _) \<leftarrow> readBodyInto len [] (fst r);
        case snd r of
          Some err \<Rightarrow> Some (http_error (''read body: '' @ err) 400, h)
        | None \<Rightarrow>
            (case h_idx h of
               None \<Rightarrow> Some ((200, fraudResponses ! 0), h)
             | Some idx \<Rightarrow> do {
                 (n, h') \<leftarrow> answer_body tgt K idx body h;
                 b \<leftarrow> get fraudResponses n;
                 Some ((200, b), h')
               })
      })"

definition ServeHTTP :: "target \<Rightarrow> nat \<Rightarrow> nat \<Rightarrow> sysinfo \<Rightarrow> string \<Rightarrow> string \<Rightarrow> reader \<Rightarrow> hstate \<Rightarrow> (response \<times> hstate) option" where
  "ServeHTTP tgt K len env meth p r h =
     (if p = ''/ready'' then Some (handleReady h, h)
      else if p = ''/fraud-score'' then handleFraudScore tgt K len meth r h
      else if p = ''/debug/info'' then Some (handleDebugInfo env h, h)
      else Some (http_error ''404 page not found'' 404, h))"

subsection \<open>Every response is framed\<close>

lemma itoa_loop_bound: "itoa_loop i n acc = Some s \<Longrightarrow> n < 10 ^ i"
proof (induction i arbitrary: n acc)
  case 0
  then show ?case by (simp add: itoa_loop.simps [of 0] split: if_splits)
next
  case (Suc i)
  then have "n = 0 \<or> n div 10 < 10 ^ i" by (auto simp: itoa_loop.simps [of "Suc i"] split: if_splits)
  then show ?case by (auto simp: div_less_iff_less_mult mult.commute)
qed

lemma buildResp_Some_framed: "buildResp body = Some r \<Longrightarrow> framed r body"
proof -
  assume r: "buildResp body = Some r"
  then obtain ds where "itoa (length body) = Some ds" by (auto simp: buildResp_def split: bind_splits)
  then have "length body < 10 ^ 16" by (auto simp: itoa_def dest: itoa_loop_bound split: if_splits)
  from buildResp_framed [OF this] show ?thesis using r by auto
qed

lemma raw_response_eq: "n < 6 \<Longrightarrow> raw_response n = buildResp (fraudResponses ! n)"
  and raw_response_Some: "n < 6 \<Longrightarrow> \<exists>r. raw_response n = Some r \<and> framed r (fraudResponses ! n)"
proof -
  have "buildResp b \<noteq> None" if "b \<in> set fraudResponses" for b
  proof -
    have "length b < 10 ^ 16" using that by (auto simp: fraudResponses_def)
    from buildResp_framed [OF this] show ?thesis by auto
  qed
  then have rs: "rawhttpResponses = Some (map (the \<circ> buildResp) fraudResponses)" by (auto simp: rawhttpResponses_def)
  have len: "length fraudResponses = 6" by (simp add: fraudResponses_def)
  assume n: "n < 6"
  have "buildResp (fraudResponses ! n) \<noteq> None" using \<open>\<And>b. b \<in> set fraudResponses \<Longrightarrow> buildResp b \<noteq> None\<close> n len by simp
  then obtain r where r: "buildResp (fraudResponses ! n) = Some r" by auto
  then show e: "raw_response n = buildResp (fraudResponses ! n)" using n len by (simp add: raw_response_def rs get_Some)
  show "\<exists>r. raw_response n = Some r \<and> framed r (fraudResponses ! n)" using e r buildResp_Some_framed by auto
qed

lemma raw_response_framed: "raw_response n = Some r \<Longrightarrow> n < 6 \<and> framed r (fraudResponses ! n)"
proof -
  assume r: "raw_response n = Some r"
  then have "n < 6" by (auto simp: raw_response_def rawhttpResponses_def get_eq_Some_iff fraudResponses_def split: bind_splits if_splits)
  then show ?thesis using r raw_response_Some [of n] by auto
qed

subsection \<open>The invariant of the handler\<close>

definition scratch_fits :: "nat \<Rightarrow> IVFScratch \<Rightarrow> bool" where
  "scratch_fits K scr \<longleftrightarrow> length (CentroidDists scr) = K \<and> length (Picked scr) = MaxNProbe \<and> K \<le> 64 * length (Scanned scr)"

definition index_fits :: "target \<Rightarrow> nat \<Rightarrow> IVFIndex \<Rightarrow> bool" where
  "index_fits tgt K idx \<longleftrightarrow> wf_index idx \<and> unat (ixK idx) = K \<and> K \<le> 65535 \<and> (amd64 tgt \<longrightarrow> K mod 16 = 0)"

definition server_ok :: "target \<Rightarrow> nat \<Rightarrow> hstate \<Rightarrow> bool" where
  "server_ok tgt K h \<longleftrightarrow> 64 dvd K \<and> (\<forall>idx. h_idx h = Some idx \<longrightarrow> index_fits tgt K idx) \<and>
     list_all (scratch_fits K) (h_pool h) \<and> h_inflight h \<le> h_slots h"

lemma server_ok_init: "64 dvd K \<Longrightarrow> server_ok tgt K (NewHandler n)"
  by (simp add: server_ok_def NewHandler_def)

lemma server_ok_SetIndex: "server_ok tgt K h \<Longrightarrow> index_fits tgt K idx \<Longrightarrow> server_ok tgt K (SetIndex idx h)"
  by (simp add: server_ok_def SetIndex_def)

lemma new_scratch_fits: "64 dvd K \<Longrightarrow> scratch_fits K (new_scratch K)"
  by (auto simp: scratch_fits_def new_scratch_def)

lemma pool_get_ok:
  assumes "server_ok tgt K h"
  shows "case pool_get K h of (scr, h1) \<Rightarrow> scratch_fits K scr \<and> server_ok tgt K h1 \<and> h_inflight h1 = h_inflight h \<and>
    h_slots h1 = h_slots h \<and> h_idx h1 = h_idx h \<and> h_ready h1 = h_ready h \<and> h_sheds h1 = h_sheds h"
  using assms new_scratch_fits by (auto simp: pool_get_def server_ok_def split: list.splits)

lemma fits_search:
  "index_fits tgt K idx \<Longrightarrow> scratch_fits K scr \<Longrightarrow> quantized q \<Longrightarrow> search_ok tgt q idx \<and> scr_shape idx scr"
  by (auto simp: index_fits_def scratch_fits_def search_ok_def scr_shape_def)

lemma search_total:
  assumes "index_fits tgt K idx" "scratch_fits K scr" "quantized q"
  shows "\<exists>fc scr'. FraudCountIVF tgt (to_f32 q) q idx scr = Some (fc, scr') \<and> unat fc \<le> 5 \<and> scratch_fits K scr'"
proof -
  have ok: "search_ok tgt q idx" "scr_shape idx scr" using fits_search [OF assms] by auto
  obtain ids scr' where "FraudCountIVF tgt (to_f32 q) q idx scr = Some (frauds (unset @ cands q idx ids), scr')"
    "search_state q idx ids scr'" by (rule FraudCountIVF_scans [OF ok])
  moreover from this(2) have "unat (frauds (unset @ cands q idx ids)) \<le> 5"
    using assms(1,3) by (intro frauds_le_5 cands_labels) (auto simp: search_state_def index_fits_def)
  moreover have "scratch_fits K scr'"
    using calculation(2) assms(1) by (auto simp: search_state_def scr_shape_def scratch_fits_def index_fits_def)
  ultimately show ?thesis by blast
qed

text \<open>The state apart from the pool: what the search leaves alone.\<close>

definition same_but_pool :: "hstate \<Rightarrow> hstate \<Rightarrow> bool" where
  "same_but_pool h h' \<longleftrightarrow> h_ready h' = h_ready h \<and> h_idx h' = h_idx h \<and> h_inflight h' = h_inflight h \<and> h_slots h' = h_slots h \<and>
     h_sheds h' = h_sheds h"

lemma score_query_total:
  assumes "server_ok tgt K h" "h_idx h = Some idx" "quantized q"
  shows "\<exists>scr fc scr' h'. score_query tgt K idx q h = Some (fc, h') \<and> FraudCountIVF tgt (to_f32 q) q idx scr = Some (fc, scr') \<and>
    scratch_fits K scr \<and> unat fc \<le> 5 \<and> server_ok tgt K h' \<and> same_but_pool h h'"
proof -
  obtain scr h1 where g: "pool_get K h = (scr, h1)" by (metis prod.exhaust)
  note p = pool_get_ok [OF assms(1), unfolded g prod.case]
  have "index_fits tgt K idx" using assms(1,2) by (auto simp: server_ok_def)
  from search_total [OF this _ assms(3)] p obtain fc scr' where
    r: "FraudCountIVF tgt (to_f32 q) q idx scr = Some (fc, scr')" "unat fc \<le> 5" "scratch_fits K scr'" by blast
  then have "score_query tgt K idx q h = Some (fc, pool_return scr' h1)" by (simp add: score_query_def g)
  moreover have "server_ok tgt K (pool_return scr' h1)" using p r(3) by (simp add: server_ok_def pool_return_def)
  moreover have "same_but_pool h (pool_return scr' h1)" using p by (simp add: same_but_pool_def pool_return_def)
  ultimately show ?thesis using r p by blast
qed

lemma range_quantized: "VectorizeFast fused body = Got q \<Longrightarrow> quantized q"
  using VectorizeFast_range by (fastforce simp: quantized_def)

lemma answer_body_ok:
  assumes "server_ok tgt K h" "h_idx h = Some idx" "answer_body tgt K idx body h = Some (n, h')"
  shows "n \<le> 5 \<and> server_ok tgt K h' \<and> same_but_pool h h'"
proof (cases "VectorizeFast (fuses tgt) body")
  case (Got q)
  from score_query_total [OF assms(1,2) range_quantized [OF Got]] show ?thesis using assms(3) Got by (auto simp: answer_body_def)
qed (use assms in \<open>auto simp: answer_body_def same_but_pool_def\<close>)

lemma fraudScoreRaw_ok:
  assumes "server_ok tgt K h" "fraudScoreRaw tgt K body h = Some (r, h')"
  shows "server_ok tgt K h' \<and> (\<exists>b. framed r b) \<and> h_inflight h' = h_inflight h"
proof (cases "h_ready h \<and> (\<exists>idx. h_idx h = Some idx) \<and> h_inflight h < h_slots h")
  case True
  then obtain idx where idx: "h_idx h = Some idx" by blast
  define h1 where "h1 = h\<lparr>h_inflight := h_inflight h + 1\<rparr>"
  have ok1: "server_ok tgt K h1" "h_idx h1 = Some idx" using assms(1) True idx by (auto simp: server_ok_def h1_def)
  obtain n h2 where a: "answer_body tgt K idx body h1 = Some (n, h2)" "raw_response n = Some r" "h' = release h2"
    using assms(2) True idx by (auto simp: fraudScoreRaw_def acquire_def h1_def split: bind_splits)
  then show ?thesis using answer_body_ok [OF ok1 a(1)] raw_response_framed [OF a(2)]
    by (auto simp: server_ok_def release_def same_but_pool_def h1_def)
next
  case False
  have "server_ok tgt K (h\<lparr>h_sheds := h_sheds h + 1\<rparr>)" using assms(1) by (simp add: server_ok_def)
  then show ?thesis using False assms framed_ready raw_response_framed
    by (auto simp: fraudScoreRaw_def acquire_def split: if_splits option.splits bind_splits)
qed

interpretation raw_server: http_router "RouteRaw tgt K env" "server_ok tgt K"
proof
  fix h p body r h'
  assume "server_ok tgt K h" "RouteRaw tgt K env p body h = Some (r, h')"
  then show "server_ok tgt K h' \<and> (\<exists>b. framed r b)"
    using fraudScoreRaw_ok framed_ready
    by (auto simp: RouteRaw_def debugInfoRaw_def dest: buildResp_Some_framed split: if_splits bind_splits)
qed

subsection \<open>The body reader and the two handlers\<close>

lemma readBodyInto_all:
  "0 < len \<Longrightarrow> length acc \<le> len \<Longrightarrow> \<exists>len'. readBodyInto len acc cs = Some (acc @ concat cs, len')"
proof (induction len acc cs rule: readBodyInto.induct)
  case (1 len acc)
  then show ?case by (simp add: readBodyInto.simps)
next
  case (2 len acc c cs)
  define len' where "len' = (if length acc = len then 2 * len else len)"
  define n where "n = min (length c) (len' - length acc)"
  have room: "length acc < len'" "0 < len'" using "2.prems" by (auto simp: len'_def)
  have ns: "\<not> (c \<noteq> [] \<and> n = 0)" using room by (auto simp: n_def)
  have "length (acc @ take n c) \<le> len'" using room by (auto simp: n_def)
  then obtain l where "readBodyInto len' (acc @ take n c) (if drop n c = [] then cs else drop n c # cs) =
      Some ((acc @ take n c) @ concat (if drop n c = [] then cs else drop n c # cs), l)"
    using "2.IH" [OF len'_def n_def ns room(2)] by blast
  moreover have "take n c @ concat (if drop n c = [] then cs else drop n c # cs) = c @ concat cs" by auto
  moreover have "readBodyInto len acc (c # cs) =
      readBodyInto len' (acc @ take n c) (if drop n c = [] then cs else drop n c # cs)"
    using ns unfolding readBodyInto.simps(2) [of len acc c cs] Let_def len'_def [symmetric] n_def [symmetric] by (rule if_not_P)
  ultimately show ?case by auto
qed

subsection \<open>Requests that overlap\<close>

text \<open>Handlers run in goroutines of their own: the ids of the requests between \<open>acquire\<close> and \<open>release\<close>.\<close>

inductive shed_step :: "hstate \<times> nat list \<Rightarrow> hstate \<times> nat list \<Rightarrow> bool" where
  enter: "acquire h = (True, h') \<Longrightarrow> shed_step (h, rs) (h', i # rs)"
| shed: "acquire h = (False, h') \<Longrightarrow> shed_step (h, rs) (h', rs)"
| leave: "i \<in> set rs \<Longrightarrow> shed_step (h, rs) (release h, remove1 i rs)"

inductive_cases shed_stepE: "shed_step (h, rs) c"

abbreviation shed_reach :: "nat \<Rightarrow> hstate \<times> nat list \<Rightarrow> bool" where
  "shed_reach n \<equiv> rtranclp shed_step (NewHandler n, [])"

lemma shed_inv:
  "shed_reach n c \<Longrightarrow> h_inflight (fst c) = length (snd c) \<and> length (snd c) \<le> n \<and> h_slots (fst c) = n"
proof (induction rule: rtranclp_induct)
  case base
  then show ?case by (simp add: NewHandler_def)
next
  case (step c c')
  from step(2,3) show ?case
    by (cases rule: shed_step.cases)
      (auto simp: acquire_def release_def length_remove1 split: if_splits dest: length_pos_if_in_set)
qed

section \<open>Properties\<close>

text \<open>C30. Everything the server writes is well framed: whatever a peer sends, in whatever chunks, every response on
  the connection is a header followed by exactly as many bytes as it announces, and the handler's state
  stays fit for the next connection.\<close>

theorem server_writes_framed:
  assumes "server_ok tgt K h" and "handleRawConn (RouteRaw tgt K env) w h buf cs = (out, h', e, s')"
  shows "list_all (\<lambda>r. \<exists>b. framed r b) out \<and> server_ok tgt K h'"
  using raw_server.serve_framed [OF assms(1)] assms(2) unfolding handleRawConn_def by blast

definition sample_env :: sysinfo where
  "sample_env = \<lparr>heap_inuse = 0, alloc_total = 0, goarch = ''amd64'', goos = ''linux'', gomaxprocs = 1, shed_timeout_ms = 3\<rparr>"

theorem server_writes_framed_witness:
  "\<exists>out h' e s'. handleRawConn (RouteRaw \<lparr>amd64 = True, fuses = False\<rparr> 4096 sample_env) 9 (NewHandler 4) (replicate 4096 CHR 0x00)
      [''GET /ready'', '' HTTP/1.1'' @ crlf @ crlf] = (out, h', e, s') \<and>
    list_all (\<lambda>r. \<exists>b. framed r b) out \<and> server_ok \<lparr>amd64 = True, fuses = False\<rparr> 4096 h'"
proof -
  obtain out h' e s' where r: "handleRawConn (RouteRaw \<lparr>amd64 = True, fuses = False\<rparr> 4096 sample_env) 9 (NewHandler 4) (replicate 4096 CHR 0x00)
      [''GET /ready'', '' HTTP/1.1'' @ crlf @ crlf] = (out, h', e, s')" by (metis prod_cases4)
  have "64 dvd (4096 :: nat)" by simp
  from server_writes_framed [OF server_ok_init [OF this] r] r show ?thesis by blast
qed

text \<open>C32. At most \<open>SHED_SLOTS\<close> requests are in the search at any time, in every interleaving of requests that
  enter, are shed and leave; and a request is shed only when that many are.\<close>

theorem slots_bounded:
  assumes "shed_reach n (h, rs)"
  shows "length rs \<le> n \<and> h_inflight h = length rs \<and> (fst (acquire h) = (length rs < n))"
  using shed_inv [OF assms] by (auto simp: acquire_def)

theorem slots_bounded_witness:
  "\<exists>h. shed_reach 2 (h, [7, 8]) \<and> length [7, 8 :: nat] \<le> 2 \<and> h_inflight h = length [7, 8 :: nat] \<and> fst (acquire h) = (length [7, 8 :: nat] < 2)"
proof -
  define h1 where "h1 = snd (acquire (NewHandler 2))"
  define h2 where "h2 = snd (acquire h1)"
  have "shed_step (NewHandler 2, []) (h1, [8])" by (rule shed_step.enter) (simp add: h1_def acquire_def NewHandler_def)
  moreover have "shed_step (h1, [8]) (h2, [7, 8])" by (rule shed_step.enter) (simp add: h2_def h1_def acquire_def NewHandler_def)
  ultimately have r: "shed_reach 2 (h2, [7, 8])" by (meson rtranclp.rtrancl_into_rtrancl rtranclp.rtrancl_refl)
  from slots_bounded [OF r] r show ?thesis by blast
qed

text \<open>The answer to a count is the rule of the challenge: the score is the count over five, and the transaction
  is approved exactly when the score is below 0.6.\<close>

theorem response_is_the_rule:
  assumes "n < 6"
  shows \<open>\<exists>t. fraudResponses ! n = ''{"approved":'' @ boolean (of_nat n / 5 < (6 / 10 :: real)) @ '',"fraud_score":'' @ render_num t @ ''}'' \<and>
    num_val t = of_nat n / 5\<close>
proof -
  have "n \<in> {0, 1, 2, 3, 4, 5}" using assms by auto
  moreover have d: "dec ''0'' = 0" "dec ''1'' = 1" "dec ''2'' = 2" "dec ''4'' = 4" "dec ''6'' = 6" "dec ''8'' = 8" "dec [] = 0" by code_simp+
  have "?thesis" if "n = 0 \<or> n = 5"
    using that d by (intro exI [of _ "Num False (if n = 0 then ''0'' else ''1'') []"]) (auto simp: fraudResponses_def boolean_def)
  moreover have "?thesis" if "n = 1"
    using that d by (intro exI [of _ "Num False ''0'' ''2''"]) (simp add: fraudResponses_def boolean_def)
  moreover have "?thesis" if "n = 2"
    using that d by (intro exI [of _ "Num False ''0'' ''4''"]) (simp add: fraudResponses_def boolean_def)
  moreover have "?thesis" if "n = 3"
    using that d by (intro exI [of _ "Num False ''0'' ''6''"]) (simp add: fraudResponses_def boolean_def)
  moreover have "?thesis" if "n = 4"
    using that d by (intro exI [of _ "Num False ''0'' ''8''"]) (simp add: fraudResponses_def boolean_def)
  ultimately show ?thesis by blast
qed

theorem response_is_the_rule_witness:
  \<open>\<exists>t. fraudResponses ! 3 = ''{"approved":'' @ boolean (of_nat 3 / 5 < (6 / 10 :: real)) @ '',"fraud_score":'' @ render_num t @ ''}'' \<and>
    num_val t = of_nat 3 / 5\<close>
  by (rule response_is_the_rule) simp

lemma handle_post:
  assumes "concat cs = frame_text (post_frame body)" "length body \<le> 8000" "length buf = readBufSize \<or> length buf = maxRequestSize"
  shows "\<exists>s'. (let (out, h', e) = answer route w h [post_frame body] in handleRawConn route w h buf cs = (out, h', e, s'))"
proof -
  have ok: "list_all burst_ok [([post_frame body], cs)]"
    using assms(1) post_frame_ok [OF assms(2)] by (simp add: burst_ok_def)
  have "burst (concat (map frame_text [])) (concat (map snd [([post_frame body], cs)]))
      \<lparr>nbuf = buf, used = 0, pos = 0, path = Own [], chunks = cs\<rparr>"
    using assms(3) by (auto simp: burst_def conn_ok_def buffered_def)
  from serve_bursts [OF ok this, of route w h] show ?thesis by (simp add: handleRawConn_def)
qed

lemma route_render:
  \<comment> \<open>the router on the body of a well-formed request, when the handler is ready and has a free slot\<close>
  assumes ok: "server_ok tgt K h" "h_ready h" "h_idx h = Some idx" "h_inflight h < h_slots h" and r: "request_ok r"
  shows "\<exists>scr fc scr' resp h'.
    FraudCountIVF tgt (to_f32 (request_vector (fuses tgt) r)) (request_vector (fuses tgt) r) idx scr = Some (fc, scr') \<and>
    unat fc \<le> 5 \<and> framed resp (fraudResponses ! unat fc) \<and> scratch_fits K scr \<and>
    RouteRaw tgt K env ''/fraud-score'' (render r) h = Some (resp, h') \<and> server_ok tgt K h' \<and> same_but_pool h h'"
proof -
  define q where "q = request_vector (fuses tgt) r"
  define h1 where "h1 = h\<lparr>h_inflight := h_inflight h + 1\<rparr>"
  have v: "VectorizeFast (fuses tgt) (render r) = Got q" unfolding q_def by (rule VectorizeFast_render [OF r])
  have ok1: "server_ok tgt K h1" "h_idx h1 = Some idx" using ok by (auto simp: server_ok_def h1_def)
  from score_query_total [OF ok1 range_quantized [OF v]] obtain scr fc scr' h2 where
    s: "score_query tgt K idx q h1 = Some (fc, h2)" "FraudCountIVF tgt (to_f32 q) q idx scr = Some (fc, scr')"
       "scratch_fits K scr" "unat fc \<le> 5" "server_ok tgt K h2" "same_but_pool h1 h2" by blast
  obtain resp where resp: "raw_response (unat fc) = Some resp" "framed resp (fraudResponses ! unat fc)"
    using raw_response_Some [of "unat fc"] s(4) by auto
  have "RouteRaw tgt K env ''/fraud-score'' (render r) h = Some (resp, release h2)"
    using ok(2-4) v s(1) resp(1) by (simp add: RouteRaw_def fraudScoreRaw_def acquire_def answer_body_def h1_def)
  moreover have "server_ok tgt K (release h2)" "same_but_pool h (release h2)"
    using s(5,6) ok(1) by (auto simp: server_ok_def same_but_pool_def release_def h1_def)
  ultimately show ?thesis using s(2-4) resp(2) unfolding q_def by blast
qed

text \<open>C7. From the bytes of a posted transaction to the bytes of its answer, on a handler that is ready, has an index
  and has a free slot of the shedder: the body of any well-formed request of at most 8000 bytes, posted to
  \<open>/fraud-score\<close> as the only request of its connection and cut into chunks anywhere, is answered with the framed
  response for the count the search gives for the request's vector, and leaves the handler's state as it was
  but for the pool.\<close>

theorem posted_transaction_answered:
  assumes ok: "server_ok tgt K h" "h_ready h" "h_idx h = Some idx" "h_inflight h < h_slots h"
    and r: "request_ok r" "length (render r) \<le> 8000"
    and io: "concat cs = frame_text (post_frame (render r))" "length buf = readBufSize \<or> length buf = maxRequestSize"
  shows "\<exists>scr fc scr' resp h' s'.
    FraudCountIVF tgt (to_f32 (request_vector (fuses tgt) r)) (request_vector (fuses tgt) r) idx scr = Some (fc, scr') \<and>
    unat fc \<le> 5 \<and> framed resp (fraudResponses ! unat fc) \<and> scratch_fits K scr \<and>
    handleRawConn (RouteRaw tgt K env) (Suc w) h buf cs = ([resp], h', Closed, s') \<and>
    server_ok tgt K h' \<and> same_but_pool h h'"
proof -
  obtain scr fc scr' resp h' where x:
    "FraudCountIVF tgt (to_f32 (request_vector (fuses tgt) r)) (request_vector (fuses tgt) r) idx scr = Some (fc, scr')"
    "unat fc \<le> 5" "framed resp (fraudResponses ! unat fc)" "scratch_fits K scr"
    "RouteRaw tgt K env ''/fraud-score'' (render r) h = Some (resp, h')" "server_ok tgt K h'" "same_but_pool h h'"
    using route_render [OF ok r(1)] by blast
  then have "answer (RouteRaw tgt K env) (Suc w) h [post_frame (render r)] = ([resp], h', Closed)"
    by (simp add: post_frame_def)
  then obtain s' where "handleRawConn (RouteRaw tgt K env) (Suc w) h buf cs = ([resp], h', Closed, s')"
    using handle_post [OF io(1) r(2) io(2), of "RouteRaw tgt K env" "Suc w" h] by auto
  then show ?thesis using x by blast
qed

definition empty_centroids :: "fl list list" where
  "empty_centroids = replicate 64 (replicate 14 (Fin 0))"

lemma empty_index:
  "\<exists>idx. Build fused 64 [] [] 0 empty_centroids [] = Some (Inr idx) \<and> index_fits \<lparr>amd64 = True, fuses = fused\<rparr> 64 idx"
proof -
  have "build_input 64 [] [] 0 empty_centroids []" by (simp add: build_input_def empty_centroids_def centroid_ok_def)
  from Build_wf [OF this] show ?thesis by (auto simp: index_fits_def)
qed

theorem posted_transaction_answered_witness:
  "\<exists>idx scr fc scr' resp h' s'. Build True 64 [] [] 0 empty_centroids [] = Some (Inr idx) \<and>
    FraudCountIVF \<lparr>amd64 = True, fuses = True\<rparr> (to_f32 (request_vector True sample_request)) (request_vector True sample_request) idx scr = Some (fc, scr') \<and>
    unat fc \<le> 5 \<and> framed resp (fraudResponses ! unat fc) \<and>
    handleRawConn (RouteRaw \<lparr>amd64 = True, fuses = True\<rparr> 64 sample_env) (Suc 0) (SetIndex idx (NewHandler 4)) (replicate 4096 CHR 0x00)
      [fst (post_frame (render sample_request)), render sample_request] = ([resp], h', Closed, s')"
proof -
  let ?t = "\<lparr>amd64 = True, fuses = True\<rparr>"
  obtain idx where idx: "Build True 64 [] [] 0 empty_centroids [] = Some (Inr idx)" "index_fits ?t 64 idx"
    using empty_index by blast
  have ok: "server_ok ?t 64 (SetIndex idx (NewHandler 4))" by (intro server_ok_SetIndex server_ok_init idx(2)) simp
  have h: "h_ready (SetIndex idx (NewHandler 4))" "h_idx (SetIndex idx (NewHandler 4)) = Some idx"
    "h_inflight (SetIndex idx (NewHandler 4)) < h_slots (SetIndex idx (NewHandler 4))" by (simp_all add: SetIndex_def NewHandler_def)
  have "length (render_stamp sample_stamp) = 20" "length (render_stamp (sample_stamp\<lparr>hour := 14, minute := 58\<rparr>)) = 20"
    by (simp_all add: render_stamp_def digits2_def digits4_def sample_stamp_def)
  then have l: "length (render sample_request) \<le> 8000"
    by (simp add: render_def transaction_text_def customer_text_def known_text_def merchant_text_def terminal_text_def last_text_def
        sample_request_def digits4_def render_bool_def)
  have t: "concat [fst (post_frame (render sample_request)), render sample_request] = frame_text (post_frame (render sample_request))"
    by (simp add: post_frame_def frame_text_def)
  have "length (replicate 4096 CHR 0x00) = readBufSize \<or> length (replicate 4096 CHR 0x00) = maxRequestSize" by (simp add: readBufSize_def)
  from posted_transaction_answered [OF ok h sample_request_ok l t this, of sample_env 0] idx(1) show ?thesis
    by (simp only: target.simps) blast
qed

lemma pool_frame: "pool_get K (h\<lparr>h_inflight := i\<rparr>) = (case pool_get K h of (scr, h1) \<Rightarrow> (scr, h1\<lparr>h_inflight := i\<rparr>))"
  by (auto simp: pool_get_def split: list.splits)

lemma answer_body_frame:
  "answer_body tgt K idx body (h\<lparr>h_inflight := i\<rparr>) = map_option (\<lambda>(n, h'). (n, h'\<lparr>h_inflight := i\<rparr>)) (answer_body tgt K idx body h)"
  by (auto simp: answer_body_def score_query_def pool_frame pool_return_def Let_def split: parse.splits prod.splits bind_splits)

text \<open>C31. The two front ends agree while the handler is ready and the shedder has a free slot: posted to the
  \<open>net/http\<close> handler, its body cut into chunks anywhere, a request gets status 200 and the response body and
  state it would get on a raw connection; and both panic on the same bodies.  A handler that is not ready or
  has no free slot is outside the claim: the front ends word their refusals differently, and only the raw one
  sheds.\<close>

theorem handlers_agree:
  assumes "server_ok tgt K h" "h_ready h" "h_inflight h < h_slots h" "0 < len"
  shows "\<exists>f. RouteRaw tgt K env ''/fraud-score'' (concat cs) h = map_option (\<lambda>(n, h'). (the (raw_response n), h')) f \<and>
    ServeHTTP tgt K len env ''POST'' ''/fraud-score'' (cs, None) h = map_option (\<lambda>(n, h'). ((200, fraudResponses ! n), h')) f \<and>
    pred_option (\<lambda>(n, h'). n < 6 \<and> framed (the (raw_response n)) (fraudResponses ! n)) f"
proof -
  define f where "f = (case h_idx h of None \<Rightarrow> Some (0, h) | Some idx \<Rightarrow> answer_body tgt K idx (concat cs) h)"
  have f: "n < 6 \<and> h_inflight h' = h_inflight h" if "f = Some (n, h')" for n h'
  proof (cases "h_idx h")
    case None
    then show ?thesis using that by (simp add: f_def)
  next
    case (Some idx)
    then show ?thesis using that answer_body_ok [OF assms(1) Some, of "concat cs" n h'] by (simp add: f_def same_but_pool_def)
  qed
  have resp: "raw_response n = Some (the (raw_response n)) \<and> framed (the (raw_response n)) (fraudResponses ! n)" if "n < 6" for n
    using raw_response_Some [OF that] by auto
  have len: "length fraudResponses = 6" by (simp add: fraudResponses_def)
  obtain l where rd: "readBodyInto len [] cs = Some (concat cs, l)" using readBodyInto_all [OF assms(4), of "[]" cs] by auto
  have serve: "ServeHTTP tgt K len env ''POST'' ''/fraud-score'' (cs, None) h = map_option (\<lambda>(n, h'). ((200, fraudResponses ! n), h')) f"
  proof (cases f)
    case None
    then show ?thesis using assms(2) rd by (auto simp: ServeHTTP_def handleFraudScore_def f_def split: option.splits)
  next
    case (Some x)
    obtain n h' where x: "x = (n, h')" by (cases x)
    have "get fraudResponses n = Some (fraudResponses ! n)" using f [OF Some [unfolded x]] len by (simp add: get_Some)
    then show ?thesis using Some x assms(2) rd by (auto simp: ServeHTTP_def handleFraudScore_def f_def split: option.splits)
  qed
  have raw: "RouteRaw tgt K env ''/fraud-score'' (concat cs) h = map_option (\<lambda>(n, h'). (the (raw_response n), h')) f"
  proof (cases f)
    case None
    then show ?thesis using assms(2,3)
      by (auto simp: RouteRaw_def fraudScoreRaw_def acquire_def answer_body_frame f_def split: option.splits)
  next
    case (Some x)
    obtain n h' where x: "x = (n, h')" by (cases x)
    have n: "n < 6" and i: "h_inflight h' = h_inflight h" using f [OF Some [unfolded x]] by auto
    have "h'\<lparr>h_inflight := h_inflight h\<rparr> = h'" unfolding i [symmetric] by simp
    moreover obtain r r0 where "raw_response n = Some r" "raw_response 0 = Some r0" using raw_response_Some [OF n] raw_response_Some [of 0] by auto
    ultimately show ?thesis using Some x assms(2,3)
      by (auto simp: RouteRaw_def fraudScoreRaw_def acquire_def release_def answer_body_frame f_def split: option.splits)
  qed
  have "pred_option (\<lambda>(n, h'). n < 6 \<and> framed (the (raw_response n)) (fraudResponses ! n)) f"
    using f resp by (cases f) auto
  then show ?thesis using serve raw by blast
qed

theorem handlers_agree_witness:
  \<comment> \<open>a real transaction, in two chunks, scored by a search of an index that holds a vector\<close>
  "\<exists>idx n h'. Build True 64 [1] (replicate 14 100) 1 empty_centroids [0] = Some (Inr idx) \<and> n < 6 \<and>
    RouteRaw \<lparr>amd64 = True, fuses = True\<rparr> 64 sample_env ''/fraud-score''
      (concat [take 90 (render sample_request), drop 90 (render sample_request)]) (SetIndex idx (NewHandler 1)) =
      Some (the (raw_response n), h') \<and>
    ServeHTTP \<lparr>amd64 = True, fuses = True\<rparr> 64 2048 sample_env ''POST'' ''/fraud-score''
      ([take 90 (render sample_request), drop 90 (render sample_request)], None) (SetIndex idx (NewHandler 1)) =
      Some ((200, fraudResponses ! n), h')"
proof -
  let ?t = "\<lparr>amd64 = True, fuses = True\<rparr>" and ?cs = "[take 90 (render sample_request), drop 90 (render sample_request)]"
  have "build_input 64 [1] (replicate 14 100) 1 empty_centroids [0]"
    by (simp add: build_input_def empty_centroids_def centroid_ok_def)
  from Build_wf [OF this] obtain idx where idx: "Build True 64 [1] (replicate 14 100) 1 empty_centroids [0] = Some (Inr idx)"
    "index_fits ?t 64 idx" by (auto simp: index_fits_def)
  define h where "h = SetIndex idx (NewHandler 1)"
  have ok: "server_ok ?t 64 h" unfolding h_def by (intro server_ok_SetIndex server_ok_init idx(2)) simp
  have h: "h_ready h" "h_idx h = Some idx" "h_inflight h < h_slots h" by (simp_all add: h_def SetIndex_def NewHandler_def)
  have len: "(0 :: nat) < 2048" by simp
  obtain resp h1 where r: "RouteRaw ?t 64 sample_env ''/fraud-score'' (concat ?cs) h = Some (resp, h1)"
    using route_render [OF ok h sample_request_ok, of sample_env] by auto
  obtain f where f: "RouteRaw ?t 64 sample_env ''/fraud-score'' (concat ?cs) h = map_option (\<lambda>(n, h'). (the (raw_response n), h')) f"
    "ServeHTTP ?t 64 2048 sample_env ''POST'' ''/fraud-score'' (?cs, None) h = map_option (\<lambda>(n, h'). ((200, fraudResponses ! n), h')) f"
    "pred_option (\<lambda>(n, h'). n < 6 \<and> framed (the (raw_response n)) (fraudResponses ! n)) f"
    using handlers_agree [OF ok h(1,3) len] by blast
  obtain n h' where n: "f = Some (n, h')" using f(1) r by (cases f) auto
  from f [unfolded n option.map prod.case option.pred_inject] idx(1) show ?thesis unfolding h_def by blast
qed

end
