(* ===== verification/FdPass.thy ===== *)
theory FdPass
  imports Server
begin

text \<open>
  The load balancer, \<open>cmd/lb/main.go\<close>, the receiver of the descriptors it passes,
  \<open>internal/fdpass/recv_linux.go\<close>, and \<open>ServeFDChannel\<close> of \<open>internal/api/rawhttp.go\<close>.
  System calls are not modelled: what they return is an argument of the step that
  makes them.  A client connection is a number that all processes agree on, although
  each of them has its own descriptor for it.

  The lemmas put the three together over control sockets that stay up and deliver every
  message once: a connection that is handed over is taken by exactly one server process,
  however the steps are scheduled after at most two steps per connection, and is adopted
  unless the kernel refuses to make its descriptor non-blocking or to wrap it.
\<close>

subsection \<open>The load balancer\<close>

definition lb_port :: "string \<Rightarrow> int" where
  "lb_port p =
     (if p \<noteq> [] then (case atoi p of Some n \<Rightarrow> if 0 < n \<and> n < 65536 then n else 9999 | None \<Rightarrow> 9999) else 9999)"

fun split_on :: "char \<Rightarrow> string \<Rightarrow> string list" where
  "split_on c [] = [[]]"
| "split_on c (x # xs) =
     (if x = c then [] # split_on c xs
      else case split_on c xs of y # ys \<Rightarrow> (x # y) # ys | [] \<Rightarrow> [[x]])"

definition trim_space :: "string \<Rightarrow> string" where
  \<comment> \<open>\<open>strings.TrimSpace\<close> on ASCII text\<close>
  "trim_space s =
     (let sp = (\<lambda>c. c \<in> {CHR '' '', CHR 0x09, CHR 0x0A, CHR 0x0B, CHR 0x0C, CHR 0x0D})
      in rev (dropWhile sp (rev (dropWhile sp s))))"

definition dialCtrl :: "nat option \<Rightarrow> bool \<Rightarrow> int option" where
  \<comment> \<open>the results of \<open>socket\<close> and \<open>connect\<close>\<close>
  "dialCtrl sock ok = (case sock of None \<Rightarrow> None | Some fd \<Rightarrow> if ok then Some (int fd) else None)"

record lb_state =
  lbNext :: u32
  ctrlFds :: "int list"
  handed :: "(nat \<times> nat) list"   \<comment> \<open>upstream and connection of every successful \<open>sendmsg\<close>\<close>
  closed_fds :: "nat list"   \<comment> \<open>connections of which the balancer has closed its copy\<close>

datatype lb_start = Fatal string | Listening int "string list" lb_state

definition lb_main :: "string \<Rightarrow> string \<Rightarrow> (string \<Rightarrow> int option) \<Rightarrow> bool \<Rightarrow> lb_start" where
  \<comment> \<open>the start of \<open>main\<close>, up to its loop: the environment, the dialled sockets and whether the port could be bound\<close>
  "lb_main port ups dial bound =
     (if ups = [] then Fatal ''UPSTREAMS env required''
      else let upstreams = map trim_space (split_on (CHR '','') ups) in
        case those (map dial upstreams) of
          None \<Rightarrow> Fatal ''dial ctrl''
        | Some fds \<Rightarrow>
            if bound then Listening (lb_port port) upstreams \<lparr>lbNext = 0, ctrlFds = fds, handed = [], closed_fds = []\<rparr>
            else Fatal ''listen'')"

definition sendFd :: "int \<Rightarrow> bool \<Rightarrow> bool" where
  \<comment> \<open>whether it returns no error; \<open>sent\<close> is the outcome of \<open>sendmsg\<close>\<close>
  "sendFd ctrlFd sent = (if ctrlFd < 0 then False else sent)"

datatype accepted = AcceptError | Accepted nat   \<comment> \<open>after \<open>EINTR\<close> and after any other error the loop goes on\<close>

definition lb_iter :: "accepted \<Rightarrow> bool \<Rightarrow> int option \<Rightarrow> lb_state \<Rightarrow> lb_state" where
  \<comment> \<open>one iteration: the results of \<open>accept4\<close>, \<open>sendmsg\<close> and \<open>dialCtrl\<close>\<close>
  "lb_iter acc sent redial s =
     (case acc of
        AcceptError \<Rightarrow> s
      | Accepted conn \<Rightarrow>
          let i = unat (lbNext s) mod length (ctrlFds s);
              s1 = s\<lparr>lbNext := lbNext s + 1, closed_fds := closed_fds s @ [conn]\<rparr>
          in if sendFd (ctrlFds s ! i) sent then s1\<lparr>handed := handed s @ [(i, conn)]\<rparr>
             else s1\<lparr>ctrlFds := (ctrlFds s)[i := (case redial of Some fd \<Rightarrow> fd | None \<Rightarrow> - 1)]\<rparr>)"

subsection \<open>The receiver\<close>

datatype cmsg = NotRights | Rights "(nat \<times> bool) list"   \<comment> \<open>with the outcome of \<open>SetNonblock\<close> on each\<close>

datatype recvmsg = Interrupted | RecvFailed | Recv nat "cmsg list option"   \<comment> \<open>\<open>oobn\<close> and the parsed control messages\<close>

fun adopt_msg :: "cmsg \<Rightarrow> nat list \<times> nat list \<Rightarrow> nat list \<times> nat list" where
  \<comment> \<open>what is pushed to the channel, and what is closed\<close>
  "adopt_msg NotRights st = st"
| "adopt_msg (Rights fds) st =
     fold (\<lambda>(fd, ok) (out, shut). if ok then (out @ [fd], shut) else (out, shut @ [fd])) fds st"

fun recv_step :: "recvmsg \<Rightarrow> nat list \<times> nat list \<Rightarrow> (nat list \<times> nat list) option" where
  \<comment> \<open>one iteration of \<open>recvLoop\<close>; \<open>None\<close> when it returns\<close>
  "recv_step Interrupted st = Some st"
| "recv_step RecvFailed st = None"
| "recv_step (Recv oobn msgs) st =
     (if oobn = 0 then Some st
      else case msgs of None \<Rightarrow> Some st | Some ms \<Rightarrow> Some (fold adopt_msg ms st))"

fun recvLoop :: "recvmsg list \<Rightarrow> nat list \<times> nat list \<Rightarrow> bool \<times> nat list \<times> nat list" where
  \<comment> \<open>whether it is still running after these results\<close>
  "recvLoop [] st = (True, st)"
| "recvLoop (m # ms) st = (case recv_step m st of None \<Rightarrow> (False, st) | Some st' \<Rightarrow> recvLoop ms st')"

definition serve_fd :: "bool \<Rightarrow> nat \<Rightarrow> nat list \<times> nat list \<Rightarrow> nat list \<times> nat list" where
  \<comment> \<open>one descriptor in \<open>ServeFDChannel\<close>: a connection loop is started unless \<open>net.FileConn\<close> fails\<close>
  "serve_fd ok fd = (\<lambda>(started, dropped). if ok then (started @ [fd], dropped) else (started, dropped @ [fd]))"

fun accept_raw :: "nat option list \<Rightarrow> nat list" where
  \<comment> \<open>the connections for which \<open>ListenRaw\<close> starts a loop, from the results of \<open>Accept\<close>: an error ends it\<close>
  "accept_raw [] = []"
| "accept_raw (None # rs) = []"
| "accept_raw (Some conn # rs) = conn # accept_raw rs"

text \<open>The goroutines of \<open>Listen\<close>: one that accepts control connections and closes the channel when it
  ends, one per control connection, and the reader of the channel.\<close>

record receiver =
  listening :: bool
  chan_open :: bool
  queue :: "nat list"
  loops :: nat
  panicked :: bool

definition fd_listen :: receiver where
  "fd_listen = \<lparr>listening = True, chan_open = True, queue = [], loops = 0, panicked = False\<rparr>"

inductive fd_step :: "receiver \<Rightarrow> receiver \<Rightarrow> bool" where
  accept: "\<not> panicked s \<Longrightarrow> listening s \<Longrightarrow> fd_step s (s\<lparr>loops := loops s + 1\<rparr>)"
| accept_error: "\<not> panicked s \<Longrightarrow> listening s \<Longrightarrow> fd_step s (s\<lparr>listening := False, chan_open := False\<rparr>)"
| push: "\<not> panicked s \<Longrightarrow> 0 < loops s \<Longrightarrow> chan_open s \<Longrightarrow> length (queue s) < 256 \<Longrightarrow> fd_step s (s\<lparr>queue := queue s @ [fd]\<rparr>)"
| push_closed: "\<not> panicked s \<Longrightarrow> 0 < loops s \<Longrightarrow> \<not> chan_open s \<Longrightarrow> fd_step s (s\<lparr>panicked := True\<rparr>)"
| loop_ends: "\<not> panicked s \<Longrightarrow> 0 < loops s \<Longrightarrow> fd_step s (s\<lparr>loops := loops s - 1\<rparr>)"
| take: "\<not> panicked s \<Longrightarrow> queue s = fd # q \<Longrightarrow> fd_step s (s\<lparr>queue := q\<rparr>)"

subsection \<open>Balancer and servers together\<close>

record net =
  balancer :: lb_state
  wires :: "nat \<Rightarrow> nat multiset"   \<comment> \<open>sent to a server and not yet received\<close>
  chans :: "nat \<Rightarrow> nat list"   \<comment> \<open>its channel\<close>
  refused :: "nat \<Rightarrow> nat list"   \<comment> \<open>descriptors its receive loop has closed\<close>
  conns :: "nat \<Rightarrow> nat list \<times> nat list"   \<comment> \<open>connection loops it has started, descriptors it has dropped\<close>

definition sent_to :: "nat \<Rightarrow> (nat \<times> nat) list \<Rightarrow> nat multiset" where
  "sent_to i hs = mset (map snd (filter (\<lambda>h. fst h = i) hs))"

definition one_fd :: "bool \<Rightarrow> nat \<Rightarrow> recvmsg" where
  \<comment> \<open>the message of \<open>sendFd\<close> as the receiver sees it, with the outcome of \<open>SetNonblock\<close>\<close>
  "one_fd ok c = Recv 24 (Some [Rights [(c, ok)]])"

inductive net_in :: "net \<Rightarrow> net \<Rightarrow> bool" where
  \<comment> \<open>a client connects\<close>
  "b = lb_iter acc sent redial (balancer s) \<Longrightarrow> new = drop (length (handed (balancer s))) (handed b) \<Longrightarrow>
   net_in s (s\<lparr>balancer := b, wires := \<lambda>i. wires s i + sent_to i new\<rparr>)"

text \<open>The environment of a server: for every connection, whether \<open>SetNonblock\<close> and \<open>net.FileConn\<close> succeed on
  its descriptor.  It is fixed beforehand, so that what becomes of a connection can be compared with it.\<close>

inductive net_tau :: "(nat \<Rightarrow> bool) \<Rightarrow> (nat \<Rightarrow> bool) \<Rightarrow> net \<Rightarrow> net \<Rightarrow> bool" for nb wrap where
  \<comment> \<open>a step of a server\<close>
  net_recv: "c \<in># wires s i \<Longrightarrow> length (chans s i) < 256 \<Longrightarrow>
    recv_step (one_fd (nb c) c) (chans s i, refused s i) = Some (q, r) \<Longrightarrow>
    net_tau nb wrap s (s\<lparr>wires := (wires s)(i := wires s i - {#c#}), chans := (chans s)(i := q), refused := (refused s)(i := r)\<rparr>)"
| net_serve: "chans s i = c # q \<Longrightarrow>
    net_tau nb wrap s (s\<lparr>chans := (chans s)(i := q), conns := (conns s)(i := serve_fd (wrap c) c (conns s i))\<rparr>)"

inductive net_reach :: "(nat \<Rightarrow> bool) \<Rightarrow> (nat \<Rightarrow> bool) \<Rightarrow> int list \<Rightarrow> net \<Rightarrow> bool" for nb wrap fds where
  net_init: "net_reach nb wrap fds \<lparr>balancer = \<lparr>lbNext = 0, ctrlFds = fds, handed = [], closed_fds = []\<rparr>,
     wires = \<lambda>_. {#}, chans = \<lambda>_. [], refused = \<lambda>_. [], conns = \<lambda>_. ([], [])\<rparr>"
| reach_in: "net_reach nb wrap fds s \<Longrightarrow> net_in s s' \<Longrightarrow> net_reach nb wrap fds s'"
| reach_tau: "net_reach nb wrap fds s \<Longrightarrow> net_tau nb wrap s s' \<Longrightarrow> net_reach nb wrap fds s'"

inductive_cases net_inE: "net_in s s'"
inductive_cases net_tauE: "net_tau nb wrap s s'"

subsection \<open>One iteration of the balancer\<close>

lemma lb_iter_fds [simp]: "length (ctrlFds (lb_iter acc sent redial s)) = length (ctrlFds s)"
  by (cases acc) (simp_all add: lb_iter_def Let_def)

lemma lb_iter_handed:
  assumes "ctrlFds s \<noteq> []"
  shows "\<exists>new. handed (lb_iter acc sent redial s) = handed s @ new \<and> (\<forall>h \<in> set new. fst h < length (ctrlFds s))"
  using assms by (cases acc) (simp_all add: lb_iter_def Let_def)

lemma failed_handoff:
  \<comment> \<open>a connection that could not be handed over is closed all the same\<close>
  "ctrlFds s ! (unat (lbNext s) mod length (ctrlFds s)) < 0 \<or> \<not> sent \<Longrightarrow>
   handed (lb_iter (Accepted c) sent redial s) = handed s \<and> closed_fds (lb_iter (Accepted c) sent redial s) = closed_fds s @ [c]"
  by (auto simp: lb_iter_def Let_def sendFd_def)

lemma robin_wraps:
  \<comment> \<open>with three upstreams the turn is not kept when the counter wraps around\<close>
  "handed (lb_iter (Accepted d) True None (lb_iter (Accepted c) True None
     \<lparr>lbNext = - 1, ctrlFds = [4, 5, 6], handed = [], closed_fds = []\<rparr>)) = [(0, c), (0, d)]"
proof -
  have "unat (- 1 :: u32) = 4294967295" by (simp add: unsigned_minus_1_eq_mask mask_eq_exp_minus_1)
  then show ?thesis by (simp add: lb_iter_def sendFd_def Let_def)
qed

subsection \<open>The receiver\<close>

lemma recv_one [simp]: "recv_step (one_fd ok c) (q, r) = Some (if ok then (q @ [c], r) else (q, r @ [c]))"
  by (simp add: one_fd_def)

lemma accept_raw_stops: "accept_raw (rs @ None # rs') = accept_raw rs"
  by (induction rs rule: accept_raw.induct) auto

lemma recv_spins:
  \<comment> \<open>a peer that has closed the socket makes every \<open>recvmsg\<close> return at once without data; the loop goes on\<close>
  "recvLoop (replicate n (Recv 0 msgs)) st = (True, st)"
  by (induction n) simp_all

lemma fd_step_bounded: "fd_step\<^sup>*\<^sup>* fd_listen s \<Longrightarrow> length (queue s) \<le> 256 \<and> (panicked s \<longrightarrow> \<not> chan_open s)"
  by (induction rule: rtranclp_induct) (auto simp: fd_listen_def elim!: fd_step.cases)

lemma closed_channel_panics:
  \<comment> \<open>a receive loop that outlives the accept loop pushes to a closed channel\<close>
  "\<exists>s. fd_step\<^sup>*\<^sup>* fd_listen s \<and> panicked s"
proof -
  define s1 where "s1 = fd_listen\<lparr>loops := 1\<rparr>"
  define s2 where "s2 = s1\<lparr>listening := False, chan_open := False\<rparr>"
  have "fd_step fd_listen s1" using fd_step.accept [of fd_listen] by (simp add: s1_def fd_listen_def)
  moreover have "fd_step s1 s2" using fd_step.accept_error [of s1] by (simp add: s2_def s1_def fd_listen_def)
  moreover have "fd_step s2 (s2\<lparr>panicked := True\<rparr>)" using fd_step.push_closed [of s2] by (simp add: s2_def s1_def fd_listen_def)
  ultimately have "fd_step\<^sup>*\<^sup>* fd_listen (s2\<lparr>panicked := True\<rparr>)" by (meson converse_rtranclp_into_rtranclp rtranclp.rtrancl_refl)
  then show ?thesis by (intro exI [of _ "s2\<lparr>panicked := True\<rparr>"]) simp
qed

subsection \<open>Every connection handed over is in one place\<close>

lemma sent_to_append: "sent_to i (hs @ hs') = sent_to i hs + sent_to i hs'"
  by (simp add: sent_to_def)

lemma sent_to_outside: "\<forall>h \<in> set hs. fst h < U \<Longrightarrow> U \<le> i \<Longrightarrow> sent_to i hs = {#}"
  by (auto simp: sent_to_def filter_empty_conv)

lemma size_sent: "\<forall>h \<in> set hs. fst h < U \<Longrightarrow> (\<Sum>i<U. size (sent_to i hs)) = length hs"
proof (induction hs)
  case (Cons h hs)
  have "size (sent_to i (h # hs)) = size (sent_to i hs) + (if i = fst h then 1 else 0)" for i
    by (auto simp: sent_to_def simp del: mset_map mset_filter)
  then have "(\<Sum>i<U. size (sent_to i (h # hs))) = (\<Sum>i<U. size (sent_to i hs)) + (\<Sum>i<U. if i = fst h then 1 else 0)"
    by (simp add: sum.distrib)
  also have "(\<Sum>i<U. if i = fst h then 1 else 0) = (1 :: nat)" using Cons.prems by simp
  finally show ?case using Cons by simp
qed (simp add: sent_to_def)

definition conns_ok :: "(nat \<Rightarrow> bool) \<Rightarrow> (nat \<Rightarrow> bool) \<Rightarrow> nat \<Rightarrow> net \<Rightarrow> bool" where
  \<comment> \<open>every descriptor a server has taken is where the outcomes say\<close>
  "conns_ok nb wrap i s \<longleftrightarrow> (\<forall>c \<in> set (chans s i). nb c) \<and> (\<forall>c \<in> set (refused s i). \<not> nb c) \<and>
     (\<forall>c \<in> set (fst (conns s i)). nb c \<and> wrap c) \<and> (\<forall>c \<in> set (snd (conns s i)). nb c \<and> \<not> wrap c)"

definition net_inv :: "(nat \<Rightarrow> bool) \<Rightarrow> (nat \<Rightarrow> bool) \<Rightarrow> nat \<Rightarrow> net \<Rightarrow> bool" where
  "net_inv nb wrap U s \<longleftrightarrow> 0 < U \<and> length (ctrlFds (balancer s)) = U \<and> (\<forall>h \<in> set (handed (balancer s)). fst h < U) \<and>
     (\<forall>i. sent_to i (handed (balancer s)) =
        wires s i + mset (chans s i) + mset (refused s i) + mset (fst (conns s i)) + mset (snd (conns s i)) \<and> conns_ok nb wrap i s)"

lemma net_in_inv:
  assumes inv: "net_inv nb wrap U s" and step: "net_in s s'"
  shows "net_inv nb wrap U s'"
proof -
  obtain acc sent redial where s': "s' = s\<lparr>balancer := lb_iter acc sent redial (balancer s), wires := \<lambda>i. wires s i +
      sent_to i (drop (length (handed (balancer s))) (handed (lb_iter acc sent redial (balancer s))))\<rparr>"
    using step by (auto elim: net_inE)
  have "ctrlFds (balancer s) \<noteq> []" using inv by (auto simp: net_inv_def)
  from lb_iter_handed [OF this, of acc sent redial] obtain hs where
    h: "handed (lb_iter acc sent redial (balancer s)) = handed (balancer s) @ hs" "\<forall>h \<in> set hs. fst h < length (ctrlFds (balancer s))"
    by blast
  then show ?thesis using inv by (auto simp: net_inv_def s' sent_to_append conns_ok_def)
qed

lemma net_tau_inv: "net_inv nb wrap U s \<Longrightarrow> net_tau nb wrap s s' \<Longrightarrow> net_inv nb wrap U s'"
proof (elim net_tauE)
  fix c i q r
  assume inv: "net_inv nb wrap U s" and c: "c \<in># wires s i"
    and q: "recv_step (one_fd (nb c) c) (chans s i, refused s i) = Some (q, r)"
    and s': "s' = s\<lparr>wires := (wires s)(i := wires s i - {#c#}), chans := (chans s)(i := q), refused := (refused s)(i := r)\<rparr>"
  obtain M where M: "wires s i = add_mset c M" using c by (metis mset_add)
  have "sent_to j (handed (balancer s)) =
        wires s' j + mset (chans s' j) + mset (refused s' j) + mset (fst (conns s' j)) + mset (snd (conns s' j)) \<and> conns_ok nb wrap j s'" for j
  proof -
    have "sent_to j (handed (balancer s)) =
        wires s j + mset (chans s j) + mset (refused s j) + mset (fst (conns s j)) + mset (snd (conns s j)) \<and> conns_ok nb wrap j s"
      using inv by (simp add: net_inv_def)
    then show ?thesis using q M by (cases "j = i"; cases "nb c") (auto simp: s' conns_ok_def)
  qed
  then show ?thesis using inv by (simp add: net_inv_def s')
next
  fix i c q
  assume inv: "net_inv nb wrap U s" and c: "chans s i = c # q"
    and s': "s' = s\<lparr>chans := (chans s)(i := q), conns := (conns s)(i := serve_fd (wrap c) c (conns s i))\<rparr>"
  have "sent_to j (handed (balancer s)) =
        wires s' j + mset (chans s' j) + mset (refused s' j) + mset (fst (conns s' j)) + mset (snd (conns s' j)) \<and> conns_ok nb wrap j s'" for j
  proof -
    have "sent_to j (handed (balancer s)) =
        wires s j + mset (chans s j) + mset (refused s j) + mset (fst (conns s j)) + mset (snd (conns s j)) \<and> conns_ok nb wrap j s"
      using inv by (simp add: net_inv_def)
    then show ?thesis using c by (cases "j = i"; cases "conns s i"; cases "wrap c") (auto simp: s' conns_ok_def serve_fd_def)
  qed
  then show ?thesis using inv by (simp add: net_inv_def s')
qed

lemma net_reach_inv: "net_reach nb wrap fds s \<Longrightarrow> fds \<noteq> [] \<Longrightarrow> net_inv nb wrap (length fds) s"
proof (induction rule: net_reach.induct)
  case net_init
  then show ?case by (simp add: net_inv_def conns_ok_def sent_to_def)
qed (blast intro: net_in_inv net_tau_inv)+

definition pending :: "nat \<Rightarrow> net \<Rightarrow> nat" where
  "pending U s = (\<Sum>i<U. 2 * size (wires s i) + length (chans s i))"

lemma inv_outside: "net_inv nb wrap U s \<Longrightarrow> U \<le> i \<Longrightarrow> wires s i = {#} \<and> chans s i = []"
  using sent_to_outside [of "handed (balancer s)" U i] by (simp add: net_inv_def)

lemma sum_less:
  fixes f g :: "nat \<Rightarrow> nat"
  assumes "i < U" "\<And>j. j \<noteq> i \<Longrightarrow> f j = g j" "f i < g i"
  shows "(\<Sum>j<U. f j) < (\<Sum>j<U. g j)"
  using assms by (subst (1 2) sum.remove [of "{..<U}" i]) auto

lemma net_tau_pending: "net_inv nb wrap U s \<Longrightarrow> net_tau nb wrap s s' \<Longrightarrow> pending U s' < pending U s"
proof (elim net_tauE)
  fix c i q r
  assume inv: "net_inv nb wrap U s" and c: "c \<in># wires s i" and q: "recv_step (one_fd (nb c) c) (chans s i, refused s i) = Some (q, r)"
    and s': "s' = s\<lparr>wires := (wires s)(i := wires s i - {#c#}), chans := (chans s)(i := q), refused := (refused s)(i := r)\<rparr>"
  have i: "i < U" using inv_outside [OF inv, of i] c by (cases "i < U") auto
  obtain M where "wires s i = add_mset c M" using c by (metis mset_add)
  then show "pending U s' < pending U s"
    unfolding pending_def using q by (intro sum_less [OF i]) (auto simp: s' split: if_splits)
next
  fix i c q
  assume inv: "net_inv nb wrap U s" and c: "chans s i = c # q"
    and s': "s' = s\<lparr>chans := (chans s)(i := q), conns := (conns s)(i := serve_fd (wrap c) c (conns s i))\<rparr>"
  have i: "i < U" using inv_outside [OF inv, of i] c by (cases "i < U") auto
  show "pending U s' < pending U s"
    unfolding pending_def using c by (intro sum_less [OF i]) (auto simp: s')
qed

lemma pending_le: "net_inv nb wrap U s \<Longrightarrow> pending U s \<le> 2 * length (handed (balancer s))"
proof -
  assume inv: "net_inv nb wrap U s"
  have "pending U s \<le> (\<Sum>i<U. 2 * size (sent_to i (handed (balancer s))))"
    unfolding pending_def using inv by (intro sum_mono) (simp add: net_inv_def)
  also have "\<dots> = 2 * (\<Sum>i<U. size (sent_to i (handed (balancer s))))" by (simp add: sum_distrib_left)
  finally show ?thesis using size_sent [of "handed (balancer s)" U] inv by (simp add: net_inv_def)
qed

lemma idle_empty: "\<nexists>s'. net_tau nb wrap s s' \<Longrightarrow> wires s i = {#} \<and> chans s i = []"
proof -
  assume idle: "\<nexists>s'. net_tau nb wrap s s'"
  have c: "chans s i = []" using idle net_serve [of s i] by (cases "chans s i") blast+
  have "wires s i = {#}"
  proof (rule ccontr)
    assume "wires s i \<noteq> {#}"
    then obtain x where x: "x \<in># wires s i" by blast
    obtain q r where "recv_step (one_fd (nb x) x) (chans s i, refused s i) = Some (q, r)" by (cases "nb x") auto
    moreover have "length (chans s i) < 256" using c by simp
    ultimately show False using idle net_recv x by blast
  qed
  then show ?thesis using c by simp
qed

lemma net_tau_run:
  "(net_tau nb wrap ^^ n) s s' \<Longrightarrow> net_inv nb wrap U s \<Longrightarrow>
   net_inv nb wrap U s' \<and> pending U s' + n \<le> pending U s \<and> handed (balancer s') = handed (balancer s)"
proof (induction n arbitrary: s')
  case (Suc n)
  then obtain s1 where 1: "(net_tau nb wrap ^^ n) s s1" "net_tau nb wrap s1 s'" by auto
  have "handed (balancer s') = handed (balancer s1)" using 1(2) by (elim net_tauE) auto
  then show ?case using Suc.IH [OF 1(1) Suc.prems(2)] net_tau_inv [OF _ 1(2)] net_tau_pending [OF _ 1(2)] by force
qed simp

lemma settled:
  \<comment> \<open>a server without pending descriptors has split what it was sent by the outcomes\<close>
  assumes "sent = mset (refused s i) + mset (fst (conns s i)) + mset (snd (conns s i))" "conns_ok nb wrap i s"
  shows "mset (fst (conns s i)) = filter_mset (\<lambda>c. nb c \<and> wrap c) sent"
    "mset (snd (conns s i)) = filter_mset (\<lambda>c. nb c \<and> \<not> wrap c) sent"
    "mset (refused s i) = filter_mset (\<lambda>c. \<not> nb c) sent"
  using assms(2) unfolding assms(1) conns_ok_def filter_union_mset
  by (auto simp flip: mset_filter simp: filter_empty_conv filter_id_conv)

section \<open>Properties\<close>

text \<open>C11. What becomes of the connections that are handed over, while the control connections stay up: however
  the steps of the servers are scheduled, there are at most two per connection, and a schedule that cannot be
  continued leaves every server with exactly the connections the balancer sent to it, each taken once.  Those whose
  descriptor could be made non-blocking and wrapped are adopted, each by a connection loop of its own; the
  others, and only they, are closed: by the receive loop when \<open>SetNonblock\<close> fails, by \<open>ServeFDChannel\<close> when
  \<open>net.FileConn\<close> fails.\<close>

theorem connections_adopted:
  assumes "net_reach nb wrap fds s" "fds \<noteq> []" "(net_tau nb wrap ^^ n) s s'"
  shows "n \<le> 2 * length (handed (balancer s)) \<and>
    ((\<exists>s''. net_tau nb wrap s' s'') \<or>
     (\<forall>i. let sent = sent_to i (handed (balancer s)) in wires s' i = {#} \<and> chans s' i = [] \<and>
        mset (fst (conns s' i)) = filter_mset (\<lambda>c. nb c \<and> wrap c) sent \<and>
        mset (snd (conns s' i)) = filter_mset (\<lambda>c. nb c \<and> \<not> wrap c) sent \<and>
        mset (refused s' i) = filter_mset (\<lambda>c. \<not> nb c) sent))"
proof -
  have inv: "net_inv nb wrap (length fds) s" by (rule net_reach_inv [OF assms(1,2)])
  note r = net_tau_run [OF assms(3) inv]
  have "n \<le> 2 * length (handed (balancer s))" using r pending_le [OF inv] by simp
  moreover have "let sent = sent_to i (handed (balancer s)) in wires s' i = {#} \<and> chans s' i = [] \<and>
        mset (fst (conns s' i)) = filter_mset (\<lambda>c. nb c \<and> wrap c) sent \<and>
        mset (snd (conns s' i)) = filter_mset (\<lambda>c. nb c \<and> \<not> wrap c) sent \<and>
        mset (refused s' i) = filter_mset (\<lambda>c. \<not> nb c) sent" if "\<nexists>s''. net_tau nb wrap s' s''" for i
  proof -
    note e = idle_empty [OF that, of i]
    have "sent_to i (handed (balancer s)) =
        wires s' i + mset (chans s' i) + mset (refused s' i) + mset (fst (conns s' i)) + mset (snd (conns s' i)) \<and> conns_ok nb wrap i s'"
      using r by (metis net_inv_def)
    then have "sent_to i (handed (balancer s)) = mset (refused s' i) + mset (fst (conns s' i)) + mset (snd (conns s' i))"
      "conns_ok nb wrap i s'" using e by simp_all
    from settled [OF this] e show ?thesis unfolding Let_def by blast
  qed
  ultimately show ?thesis by blast
qed

theorem connections_adopted_witness:
  \<comment> \<open>both connections arrive, and the wrapping of the second one fails\<close>
  "\<exists>s s'. net_reach (\<lambda>_. True) (\<lambda>c. c = 41) [7] s \<and> handed (balancer s) = [(0, 41), (0, 42)] \<and>
    (net_tau (\<lambda>_. True) (\<lambda>c. c = 41) ^^ 4) s s' \<and> mset (fst (conns s' 0)) = {#41#} \<and> mset (snd (conns s' 0)) = {#42#}"
proof -
  let ?nb = "\<lambda>_ :: nat. True" and ?wrap = "\<lambda>c :: nat. c = 41"
  define s0 where "s0 = \<lparr>balancer = \<lparr>lbNext = 0, ctrlFds = [7], handed = [], closed_fds = []\<rparr>, wires = \<lambda>_ :: nat. {#} :: nat multiset,
     chans = \<lambda>_ :: nat. [] :: nat list, refused = \<lambda>_ :: nat. [] :: nat list, conns = \<lambda>_ :: nat. ([] :: nat list, [] :: nat list)\<rparr>"
  define b1 where "b1 = lb_iter (Accepted 41) True None (balancer s0)"
  define b2 where "b2 = lb_iter (Accepted 42) True None b1"
  have b: "handed b1 = [(0, 41)]" "handed b2 = [(0, 41), (0, 42)]"
    by (simp_all add: b2_def b1_def s0_def lb_iter_def sendFd_def)
  define s1 where "s1 = s0\<lparr>balancer := b1, wires := \<lambda>i. wires s0 i + sent_to i [(0, 41)]\<rparr>"
  define s2 where "s2 = s1\<lparr>balancer := b2, wires := \<lambda>i. wires s1 i + sent_to i [(0, 42)]\<rparr>"
  have "net_in s0 s1" unfolding s1_def by (rule net_in.intros [OF b1_def]) (simp add: b s0_def)
  moreover have "net_in s1 s2" unfolding s2_def by (rule net_in.intros [of b2 "Accepted 42" True None]) (simp_all add: b2_def s1_def, simp add: b b2_def [symmetric])
  ultimately have r: "net_reach ?nb ?wrap [7] s2" using net_init [of ?nb ?wrap "[7]"] reach_in unfolding s0_def [symmetric] by metis
  define rcv where "rcv c q s = s\<lparr>wires := (wires s)(0 := wires s 0 - {#c#}), chans := (chans s)(0 := q), refused := (refused s)(0 := [])\<rparr>"
    for c q and s :: net
  define srv where "srv c q s = s\<lparr>chans := (chans s)(0 := q), conns := (conns s)(0 := serve_fd (c = 41) c (conns s 0))\<rparr>"
    for c q and s :: net
  define s3 where "s3 = rcv 41 [41] s2"
  define s4 where "s4 = rcv 42 [41, 42] s3"
  define s5 where "s5 = srv 41 [42] s4"
  define s6 where "s6 = srv 42 [] s5"
  have "net_tau ?nb ?wrap s2 s3" unfolding s3_def rcv_def
    by (rule net_recv) (simp_all add: s2_def s1_def s0_def sent_to_def)
  moreover have "net_tau ?nb ?wrap s3 s4" unfolding s4_def rcv_def
    by (rule net_recv) (simp_all add: s3_def rcv_def s2_def s1_def s0_def sent_to_def)
  moreover have "net_tau ?nb ?wrap s4 s5" unfolding s5_def srv_def by (rule net_serve) (simp add: s4_def rcv_def)
  moreover have "net_tau ?nb ?wrap s5 s6" unfolding s6_def srv_def by (rule net_serve) (simp add: s5_def srv_def)
  ultimately have t: "(net_tau ?nb ?wrap ^^ 4) s2 s6" by (auto simp: eval_nat_numeral)
  have h: "handed (balancer s2) = [(0, 41), (0, 42)]" by (simp add: s2_def b)
  have "wires s6 i = {#}" "chans s6 i = []" for i
    by (simp_all add: s6_def s5_def s4_def s3_def rcv_def srv_def s2_def s1_def s0_def sent_to_def)
  then have "\<not> net_tau ?nb ?wrap s6 s''" for s'' by (auto elim!: net_tauE)
  then have "mset (fst (conns s6 0)) = filter_mset (\<lambda>c. c = 41) (sent_to 0 [(0, 41), (0, 42)])"
    "mset (snd (conns s6 0)) = filter_mset (\<lambda>c. c \<noteq> 41) (sent_to 0 [(0, 41), (0, 42)])"
    using connections_adopted [OF r _ t] unfolding h by (auto simp: Let_def)
  then have "mset (fst (conns s6 0)) = {#41#}" "mset (snd (conns s6 0)) = {#42#}" by (simp_all add: sent_to_def)
  then show ?thesis using r t h by blast
qed

text \<open>C39. Connections go round the upstreams in turn: as long as every hand-off succeeds, the \<open>k\<close>-th of the
  first four billion goes to upstream \<open>k\<close> modulo their number, and the balancer closes its copy of each,
  once, in the order of arrival.\<close>

theorem round_robin:
  assumes "fds \<noteq> []" "\<forall>fd \<in> set fds. 0 \<le> fd" "length cs \<le> 2 ^ 32"
  shows "fold (\<lambda>c. lb_iter (Accepted c) True None) cs \<lparr>lbNext = 0, ctrlFds = fds, handed = [], closed_fds = []\<rparr> =
    \<lparr>lbNext = of_nat (length cs), ctrlFds = fds, handed = map (\<lambda>k. (k mod length fds, cs ! k)) [0..<length cs], closed_fds = cs\<rparr>"
  using assms(3)
proof (induction cs rule: rev_induct)
  case (snoc c cs)
  have u: "unat (of_nat (length cs) :: u32) = length cs" using snoc.prems by (intro unat_u32) simp
  have "fds ! (length cs mod length fds) \<in> set fds" using assms(1) by (intro nth_mem) simp
  then have "\<not> fds ! (length cs mod length fds) < 0" using assms(2) by auto
  then show ?case using snoc u by (simp add: lb_iter_def sendFd_def Let_def nth_append)
qed simp

theorem round_robin_witness:
  "handed (fold (\<lambda>c. lb_iter (Accepted c) True None) [11, 12, 13] \<lparr>lbNext = 0, ctrlFds = [7, 8], handed = [], closed_fds = []\<rparr>) =
    [(0, 11), (1, 12), (0, 13)]"
  by (subst round_robin) (simp_all add: upt_rec)

end
