(* ===== verification/IvfCodec.thy ===== *)
theory IvfCodec
  imports IvfIndex
begin

text \<open>
  The index file: \<open>Serialize\<close> and \<open>Load\<close> of \<open>internal/ivf/index.go\<close> and
  the in-place reader of \<open>internal/ivf/mmap_linux.go\<close>.  The file is a header of
  32 bytes and the slices in little-endian order; a \<open>float32\<close> is stored as its
  bit pattern.  The model of numbers has one zero and one NaN, which are written
  as the patterns the machine uses for them.
\<close>

subsection \<open>Bytes\<close>

definition le_bytes :: "nat \<Rightarrow> nat \<Rightarrow> u8 list" where
  "le_bytes k n = map (\<lambda>i. of_nat (n div 256 ^ i)) [0..<k]"

definition le_nat :: "u8 list \<Rightarrow> nat" where
  "le_nat bs = foldr (\<lambda>b a. unat b + 256 * a) bs 0"

definition f32_bits :: "fl \<Rightarrow> nat" where
  "f32_bits x =
     (case x of
        Inf s \<Rightarrow> (if s then 2 ^ 31 else 0) + 255 * 2 ^ 23
      | NaN \<Rightarrow> 255 * 2 ^ 23 + 2 ^ 22
      | Fin r \<Rightarrow>
          let e = rexp F32 r; m = nat \<lfloor>\<bar>r\<bar> / 2 powi e\<rfloor>; s = (if r < 0 then 2 ^ 31 else 0) in
          if r = 0 then 0
          else if m < 2 ^ 23 then s + m
          else s + nat (e + 150) * 2 ^ 23 + (m - 2 ^ 23))"

definition f32_of_bits :: "nat \<Rightarrow> fl" where
  "f32_of_bits n =
     (let s = n div 2 ^ 23 div 256 mod 2; E = n div 2 ^ 23 mod 256; m = n mod 2 ^ 23 in
      if E = 255 then (if m = 0 then Inf (s = 1) else NaN)
      else Fin ((if s = 1 then - 1 else 1) *
        (if E = 0 then of_nat m * 2 powi (- 149) else of_nat (m + 2 ^ 23) * 2 powi (int E - 150))))"

definition decode :: "nat \<Rightarrow> (nat \<Rightarrow> 'a) \<Rightarrow> u8 list \<Rightarrow> 'a list" where
  \<comment> \<open>the bytes read as numbers of \<open>k\<close> bytes each\<close>
  "decode k f bs = map (\<lambda>i. f (le_nat (take k (drop (i * k) bs)))) [0..<length bs div k]"

definition encode :: "nat \<Rightarrow> ('a \<Rightarrow> nat) \<Rightarrow> 'a list \<Rightarrow> u8 list" where
  "encode k g xs = concat (map (\<lambda>x. le_bytes k (g x)) xs)"

subsection \<open>Writing\<close>

definition magic :: "u8 list" where
  \<comment> \<open>the bytes of \<open>IVF8\<close>\<close>
  "magic = [0x49, 0x56, 0x46, 0x38]"

definition version :: nat where "version = 5"
definition headerSize :: nat where "headerSize = 32"
definition bboxLanes :: nat where "bboxLanes = 16"
definition blockLanes :: nat where "blockLanes = 8"
definition blockStride :: nat where "blockStride = 14 * blockLanes"

definition header :: "IVFIndex \<Rightarrow> u8 list" where
  "header idx = magic @ le_bytes 4 version @ le_bytes 4 (unat (ixN idx)) @ le_bytes 4 (unat (ixK idx)) @
     le_bytes 4 (unat (ixBlocks idx)) @ le_bytes 4 10000 @ replicate 8 0"

definition writes :: "IVFIndex \<Rightarrow> u8 list list" where
  "writes idx =
     [header idx, encode 4 f32_bits (Centroids idx), encode 4 unat (Offsets idx), encode 2 unat (BboxMin idx),
      encode 2 unat (BboxMax idx), Labels idx, encode 2 unat (BlockData idx)]"

definition Serialize :: "('w \<Rightarrow> u8 list \<Rightarrow> 'w option) \<Rightarrow> IVFIndex \<Rightarrow> 'w \<Rightarrow> 'w option" where
  \<comment> \<open>through a writer that may fail; the first failure ends it\<close>
  "Serialize wr idx w = ofold (\<lambda>b w. wr w b) (writes idx) w"

definition file_of :: "IVFIndex \<Rightarrow> u8 list" where
  "file_of idx = concat (writes idx)"

subsection \<open>Reading\<close>

datatype idx_error = TooSmall | Short string | BadMagic "u8 list" | BadVersion nat | SizeMismatch nat nat

definition readFull :: "string \<Rightarrow> nat \<Rightarrow> u8 list \<Rightarrow> idx_error + u8 list \<times> u8 list" where
  "readFull field n bs = (if length bs < n then Inl (Short field) else Inr (take n bs, drop n bs))"

fun bindE :: "'e + 'a \<Rightarrow> ('a \<Rightarrow> 'e + 'b) \<Rightarrow> 'e + 'b" where
  "bindE (Inl e) f = Inl e"
| "bindE (Inr x) f = f x"

definition u32_at :: "u8 list \<Rightarrow> nat \<Rightarrow> nat" where
  \<comment> \<open>\<open>binary.LittleEndian.Uint32(b[i:i+4])\<close>\<close>
  "u32_at bs i = le_nat (take 4 (drop i bs))"

definition check_header :: "u8 list \<Rightarrow> idx_error + unit" where
  "check_header hdr =
     (if take 4 hdr \<noteq> magic then Inl (BadMagic (take 4 hdr))
      else if u32_at hdr 4 \<noteq> version then Inl (BadVersion (u32_at hdr 4))
      else Inr ())"

definition read_slices :: "u8 list \<Rightarrow> u8 list \<Rightarrow> idx_error + IVFIndex" where
  "read_slices hdr bs =
     (let K = u32_at hdr 12; B = u32_at hdr 16 in
      bindE (readFull ''read centroids'' (4 * (14 * K)) bs) (\<lambda>(cs, bs).
      bindE (readFull ''read offsets'' (4 * (K + 1)) bs) (\<lambda>(os, bs).
      bindE (readFull ''read bbox min'' (2 * (bboxLanes * K)) bs) (\<lambda>(bmin, bs).
      bindE (readFull ''read bbox max'' (2 * (bboxLanes * K)) bs) (\<lambda>(bmax, bs).
      bindE (readFull ''read labels'' (B * blockLanes) bs) (\<lambda>(ls, bs).
      bindE (readFull ''read blocks'' (2 * (B * blockStride)) bs) (\<lambda>(ds, bs).
      Inr \<lparr>ixN = of_nat (u32_at hdr 8), ixK = of_nat K, ixBlocks = of_nat B,
        Centroids = decode 4 f32_of_bits cs, Offsets = decode 4 of_nat os, BboxMin = decode 2 of_nat bmin,
        BboxMax = decode 2 of_nat bmax, Radii = [], Labels = ls, BlockData = decode 2 of_nat ds\<rparr>)))))))"

definition with_radii :: "bool \<Rightarrow> idx_error + IVFIndex \<Rightarrow> (idx_error + IVFIndex) option" where
  \<comment> \<open>\<open>ComputeRadii\<close> of what was read; it may panic\<close>
  "with_radii fused r =
     (case r of Inl e \<Rightarrow> Some (Inl e) | Inr idx \<Rightarrow> map_option Inr (ComputeRadii fused idx))"

definition Load :: "bool \<Rightarrow> u8 list \<Rightarrow> (idx_error + IVFIndex) option" where
  "Load fused bs = with_radii fused
     (bindE (readFull ''read header'' headerSize bs) (\<lambda>(hdr, bs).
      bindE (check_header hdr) (\<lambda>_. read_slices hdr bs)))"

definition byteToFloat32 :: "u8 list \<Rightarrow> fl list option" where
  \<comment> \<open>the address of the first byte panics on an empty slice\<close>
  "byteToFloat32 b = (if length b mod 4 \<noteq> 0 \<or> b = [] then None else Some (decode 4 f32_of_bits b))"

definition byteToUint32 :: "u8 list \<Rightarrow> u32 list option" where
  "byteToUint32 b = (if length b mod 4 \<noteq> 0 \<or> b = [] then None else Some (decode 4 of_nat b))"

definition byteToInt16 :: "u8 list \<Rightarrow> i16 list option" where
  "byteToInt16 b = (if length b mod 2 \<noteq> 0 \<or> b = [] then None else Some (decode 2 of_nat b))"

definition parse_slices :: "u8 list \<Rightarrow> (idx_error + IVFIndex) option" where
  "parse_slices data =
     (let K = u32_at data 12; B = u32_at data 16;
          o1 = headerSize + 14 * K * 4; o2 = o1 + (K + 1) * 4; o3 = o2 + bboxLanes * K * 2; o4 = o3 + bboxLanes * K * 2;
          o5 = o4 + B * blockLanes; o6 = o5 + B * blockStride * 2
      in do {
        cs \<leftarrow> gslice data headerSize o1 \<bind> byteToFloat32;
        os \<leftarrow> gslice data o1 o2 \<bind> byteToUint32;
        bmin \<leftarrow> gslice data o2 o3 \<bind> byteToInt16;
        bmax \<leftarrow> gslice data o3 o4 \<bind> byteToInt16;
        ls \<leftarrow> gslice data o4 o5;
        ds \<leftarrow> gslice data o5 o6 \<bind> byteToInt16;
        Some (if o6 \<noteq> length data then Inl (SizeMismatch o6 (length data))
          else Inr \<lparr>ixN = of_nat (u32_at data 8), ixK = of_nat K, ixBlocks = of_nat B,
            Centroids = cs, Offsets = os, BboxMin = bmin, BboxMax = bmax, Radii = [], Labels = ls, BlockData = ds\<rparr>)
      })"

definition parseMmappedIndex :: "u8 list \<Rightarrow> (idx_error + IVFIndex) option" where
  "parseMmappedIndex data =
     (if length data < headerSize then Some (Inl TooSmall)
      else case check_header data of Inl e \<Rightarrow> Some (Inl e) | Inr _ \<Rightarrow> parse_slices data)"

definition LoadMmap :: "bool \<Rightarrow> u8 list \<Rightarrow> (idx_error + IVFIndex) option" where
  "LoadMmap fused data = do { r \<leftarrow> parseMmappedIndex data; with_radii fused r }"

subsection \<open>Bytes and numbers\<close>

lemma length_le_bytes [simp]: "length (le_bytes k n) = k"
  by (simp add: le_bytes_def)

lemma le_bytes_Suc: "le_bytes (Suc k) n = of_nat n # le_bytes k (n div 256)"
proof -
  have "[0..<Suc k] = 0 # map Suc [0..<k]" by (simp add: map_Suc_upt upt_conv_Cons del: upt_Suc)
  then show ?thesis by (simp add: le_bytes_def div_mult2_eq del: upt_Suc)
qed

lemma le_nat_bytes: "le_nat (le_bytes k n) = n mod 256 ^ k"
proof (induction k arbitrary: n)
  case 0
  then show ?case by (simp add: le_bytes_def le_nat_def)
next
  case (Suc k)
  have "le_nat (le_bytes (Suc k) n) = n mod 256 + 256 * (n div 256 mod 256 ^ k)"
    using Suc [of "n div 256"] by (simp add: le_bytes_Suc le_nat_def unat_of_nat take_bit_eq_mod)
  then show ?case by (simp add: mod_mult2_eq)
qed

lemma length_encode [simp]: "length (encode k g xs) = k * length xs"
  by (induction xs) (simp_all add: encode_def)

lemma drop_encode: "i < length xs \<Longrightarrow> take k (drop (i * k) (encode k g xs)) = le_bytes k (g (xs ! i))"
proof (induction xs arbitrary: i)
  case (Cons x xs)
  then show ?case by (cases i) (simp_all add: encode_def)
qed simp

lemma decode_encode:
  assumes "0 < k" "\<And>x. x \<in> set xs \<Longrightarrow> g x < 256 ^ k \<and> f (g x) = x"
  shows "decode k f (encode k g xs) = xs"
proof (rule nth_equalityI)
  show "length (decode k f (encode k g xs)) = length xs" using assms(1) by (simp add: decode_def)
  fix i assume "i < length (decode k f (encode k g xs))"
  then have i: "i < length xs" using assms(1) by (simp add: decode_def)
  then have "xs ! i \<in> set xs" by simp
  from assms(2) [OF this] show "decode k f (encode k g xs) ! i = xs ! i"
    using i assms(1) by (simp add: decode_def drop_encode le_nat_bytes)
qed

lemma decode_words [simp]:
  "decode 4 of_nat (encode 4 unat (xs :: u32 list)) = xs" "decode 2 of_nat (encode 2 unat (ys :: i16 list)) = ys"
proof -
  have "unat x < 256 ^ 4" for x :: u32 using unsigned_less [of x] by simp
  then show "decode 4 of_nat (encode 4 unat xs) = xs" by (intro decode_encode) auto
  have "unat y < 256 ^ 2" for y :: i16 using unsigned_less [of y] by simp
  then show "decode 2 of_nat (encode 2 unat ys) = ys" by (intro decode_encode) auto
qed

subsection \<open>Bit patterns of float32 numbers\<close>

definition is_f32 :: "fl \<Rightarrow> bool" where
  "is_f32 x \<longleftrightarrow> (case x of Fin r \<Rightarrow> rnd F32 r = r \<and> \<bar>r\<bar> < 2 powi 128 | _ \<Rightarrow> True)"

lemma bit_fields:
  fixes m E s :: nat
  assumes "m < 2 ^ 23" "E < 256" "s < 2"
  shows "(s * 2 ^ 31 + E * 2 ^ 23 + m) mod 2 ^ 23 = m" "(s * 2 ^ 31 + E * 2 ^ 23 + m) div 2 ^ 23 mod 256 = E"
    "(s * 2 ^ 31 + E * 2 ^ 23 + m) div 2 ^ 23 div 256 mod 2 = s" "s * 2 ^ 31 + E * 2 ^ 23 + m < 2 ^ (32 :: nat)"
proof -
  have e: "s * 2 ^ 31 + E * 2 ^ 23 + m = m + (s * 256 + E) * 2 ^ 23" by simp
  have d: "(s * 2 ^ 31 + E * 2 ^ 23 + m) div 2 ^ 23 = s * 256 + E"
    unfolding e using assms(1) by (subst div_mult_self1) auto
  show "(s * 2 ^ 31 + E * 2 ^ 23 + m) mod 2 ^ 23 = m" unfolding e using assms(1) by (subst mod_mult_self1) simp
  show "(s * 2 ^ 31 + E * 2 ^ 23 + m) div 2 ^ 23 mod 256 = E" "(s * 2 ^ 31 + E * 2 ^ 23 + m) div 2 ^ 23 div 256 mod 2 = s"
    unfolding d using assms(2,3) by simp_all
  show "s * 2 ^ 31 + E * 2 ^ 23 + m < 2 ^ (32 :: nat)" using assms by simp
qed

lemma f32_of_fields:
  assumes "m < 2 ^ 23" "E < 256" "s < 2"
  shows "f32_of_bits (s * 2 ^ 31 + E * 2 ^ 23 + m) =
    (if E = 255 then (if m = 0 then Inf (s = 1) else NaN)
     else Fin ((if s = 1 then - 1 else 1) *
       (if E = 0 then of_nat m * 2 powi (- 149) else of_nat (m + 2 ^ 23) * 2 powi (int E - 150))))"
  unfolding f32_of_bits_def Let_def bit_fields [OF assms] ..

lemma f32_bits_Fin:
  assumes "rnd F32 r = r" "\<bar>r\<bar> < 2 powi 128" "r \<noteq> 0"
  shows "\<exists>m E s. f32_bits (Fin r) = s * 2 ^ 31 + E * 2 ^ 23 + m \<and> m < 2 ^ 23 \<and> E < 255 \<and> s < 2 \<and>
    r = (if s = 1 then - 1 else 1) * (if E = 0 then of_nat m * 2 powi (- 149) else of_nat (m + 2 ^ 23) * 2 powi (int E - 150))"
proof -
  define e where "e = rexp F32 r"
  define k where "k = rne (r / 2 powi e)"
  define m where "m = nat \<bar>k\<bar>"
  have r: "r = of_int k * 2 powi e" using assms(1,3) by (simp add: rnd_def k_def e_def)
  have p: "0 < (2 :: real) powi e" by simp
  have "\<bar>r\<bar> / 2 powi e = of_int \<bar>k\<bar>" using p by (subst r) (simp add: abs_mult)
  then have fl: "nat \<lfloor>\<bar>r\<bar> / 2 powi e\<rfloor> = m" by (simp add: m_def flip: of_int_abs)
  have rabs: "\<bar>r\<bar> = of_nat m * 2 powi e" using p by (subst r) (simp add: abs_mult m_def)
  have il: "2 powi ilog2 \<bar>r\<bar> \<le> \<bar>r\<bar> \<and> \<bar>r\<bar> < 2 powi (ilog2 \<bar>r\<bar> + 1)" using ilog2_bounds [of "\<bar>r\<bar>"] assms(3) by simp
  have e: "e = max (ilog2 \<bar>r\<bar> - 23) (- 149)" by (simp add: e_def rexp_def)
  have m24: "m < 2 ^ 24"
  proof -
    have "of_nat m * 2 powi e < (2 :: real) powi (ilog2 \<bar>r\<bar> + 1)" using il rabs by simp
    also have "\<dots> \<le> 2 powi (24 + e)" unfolding powi_le_iff e by simp
    also have "\<dots> = 2 ^ 24 * 2 powi e" by (simp add: power_int_add)
    finally have "(of_nat m :: real) < of_nat (2 ^ 24)" using p by simp
    then show ?thesis unfolding of_nat_less_iff .
  qed
  have sign: "r = (if r < 0 then - 1 else 1) * \<bar>r\<bar>" by simp
  define s :: nat where "s = (if r < 0 then 1 else 0)"
  have s: "s < 2" "(if r < 0 then 2 ^ 31 else 0) = s * 2 ^ 31" by (simp_all add: s_def)
  have bits: "f32_bits (Fin r) = (if m < 2 ^ 23 then s * 2 ^ 31 + m else s * 2 ^ 31 + nat (e + 150) * 2 ^ 23 + (m - 2 ^ 23))"
    using assms(3) unfolding f32_bits_def Let_def e_def [symmetric] fl s(2) fl.case by simp
  show ?thesis
  proof (cases "m < 2 ^ 23")
    case True
    have "e = - 149"
    proof (rule ccontr)
      assume "e \<noteq> - 149"
      then have "e = ilog2 \<bar>r\<bar> - 23" using e by (auto simp: max_def split: if_splits)
      then have "23 + e = ilog2 \<bar>r\<bar>" by simp
      then have "(2 :: real) powi (23 + e) \<le> of_nat m * 2 powi e" using il rabs by metis
      then have "(2 ^ 23 :: real) \<le> of_nat m" using p by (simp add: power_int_add)
      then have "of_nat (2 ^ 23) \<le> (of_nat m :: real)" by simp
      then show False using True unfolding of_nat_le_iff by simp
    qed
    then have "r = (if s = 1 then - 1 else 1) * (of_nat m * 2 powi (- 149))" using sign rabs by (simp add: s_def)
    then have "r = (if s = 1 then - 1 else 1) * (if (0 :: nat) = 0 then of_nat m * 2 powi (- 149) else of_nat (m + 2 ^ 23) * 2 powi (int 0 - 150))" by simp
    moreover have "f32_bits (Fin r) = s * 2 ^ 31 + 0 * 2 ^ 23 + m" "(0 :: nat) < 255" using bits True by simp_all
    ultimately show ?thesis using True s(1) by blast
  next
    case False
    have lo: "1 \<le> nat (e + 150)" using e by simp
    have "2 powi (23 + e) \<le> \<bar>r\<bar>"
    proof -
      have "of_nat (2 ^ 23) \<le> (of_nat m :: real)" using False unfolding of_nat_le_iff by simp
      then show ?thesis using p unfolding rabs by (simp add: power_int_add)
    qed
    then have "(2 :: real) powi (23 + e) < 2 powi 128" using assms(2) by linarith
    then have hi: "nat (e + 150) < 255" unfolding powi_less_iff by simp
    have E: "int (nat (e + 150)) - 150 = e" using lo by linarith
    have "r = (if s = 1 then - 1 else 1) * (of_nat ((m - 2 ^ 23) + 2 ^ 23) * 2 powi (int (nat (e + 150)) - 150))"
    proof -
      have "m - 2 ^ 23 + 2 ^ 23 = m" using False by simp
      moreover have "r = (if s = 1 then - 1 else 1) * \<bar>r\<bar>" by (simp add: s_def)
      ultimately show ?thesis unfolding E rabs [symmetric] by (simp only: rabs)
    qed
    moreover have nz: "nat (e + 150) \<noteq> 0" using lo by simp
    ultimately have "r = (if s = 1 then - 1 else 1) * (if nat (e + 150) = 0 then of_nat (m - 2 ^ 23) * 2 powi (- 149)
        else of_nat ((m - 2 ^ 23) + 2 ^ 23) * 2 powi (int (nat (e + 150)) - 150))" unfolding if_not_P [OF nz] by blast
    moreover have "f32_bits (Fin r) = s * 2 ^ 31 + nat (e + 150) * 2 ^ 23 + (m - 2 ^ 23)" "m - 2 ^ 23 < 2 ^ 23"
      using bits False m24 by auto
    ultimately show ?thesis using hi s(1) by blast
  qed
qed

lemma f32_bits_round:
  assumes "is_f32 x"
  shows "f32_bits x < 256 ^ 4 \<and> f32_of_bits (f32_bits x) = x"
proof (cases x)
  case (Fin r)
  show ?thesis
  proof (cases "r = 0")
    case True
    then show ?thesis using f32_of_fields [of 0 0 0] Fin by (simp add: f32_bits_def)
  next
    case False
    then obtain m E s where f: "f32_bits (Fin r) = s * 2 ^ 31 + E * 2 ^ 23 + m" "m < 2 ^ 23" "E < 255" "s < 2"
      "r = (if s = 1 then - 1 else 1) * (if E = 0 then of_nat m * 2 powi (- 149) else of_nat (m + 2 ^ 23) * 2 powi (int E - 150))"
      using f32_bits_Fin [of r] assms Fin by (auto simp: is_f32_def)
    have E: "E < 256" using f(3) by simp
    have "f32_of_bits (f32_bits (Fin r)) = Fin r"
      unfolding f(1) f32_of_fields [OF f(2) E f(4)] using f(3,5) by simp
    then show ?thesis using bit_fields(4) [OF f(2) E f(4)] Fin f(1) by simp
  qed
next
  case (Inf t)
  then show ?thesis using f32_of_fields [of 0 255 "if t then 1 else 0"] by (cases t) (simp_all add: f32_bits_def)
next
  case NaN
  then show ?thesis using f32_of_fields [of "2 ^ 22" 255 0] by (simp add: f32_bits_def)
qed

subsection \<open>The file of an index\<close>

lemma length_header [simp]: "length (header idx) = 32"
  by (simp add: header_def magic_def)

lemma header_fields:
  "take 4 (header idx @ t) = magic" "u32_at (header idx @ t) 4 = version" "u32_at (header idx @ t) 8 = unat (ixN idx)"
  "u32_at (header idx @ t) 12 = unat (ixK idx)" "u32_at (header idx @ t) 16 = unat (ixBlocks idx)"
proof -
  have m: "length magic = 4" by (simp add: magic_def)
  have "unat w < 256 ^ 4" for w :: u32 using unsigned_less [of w] by simp
  then have w: "unat w mod 256 ^ 4 = unat w" for w :: u32 by (intro mod_less)
  have r: "drop i (header idx @ t) = drop i (magic @ le_bytes 4 version @ le_bytes 4 (unat (ixN idx)) @ le_bytes 4 (unat (ixK idx)) @
     le_bytes 4 (unat (ixBlocks idx)) @ le_bytes 4 10000 @ replicate 8 0 @ t)" for i by (simp add: header_def)
  show "take 4 (header idx @ t) = magic" by (simp add: header_def m)
  show "u32_at (header idx @ t) 4 = version" "u32_at (header idx @ t) 8 = unat (ixN idx)"
    "u32_at (header idx @ t) 12 = unat (ixK idx)" "u32_at (header idx @ t) 16 = unat (ixBlocks idx)"
    unfolding u32_at_def r by (simp_all add: m le_nat_bytes w [simplified] version_def)
qed

lemmas lanes_defs = bboxLanes_def blockLanes_def blockStride_def headerSize_def

lemma readFull_append: "length a = n \<Longrightarrow> readFull field n (a @ b) = Inr (a, b)"
  by (simp add: readFull_def)

lemma centroids_back: "\<forall>x \<in> set xs. is_f32 x \<Longrightarrow> decode 4 f32_of_bits (encode 4 f32_bits xs) = xs"
proof (rule decode_encode)
  fix x assume "\<forall>x \<in> set xs. is_f32 x" "x \<in> set xs"
  then show "f32_bits x < 256 ^ 4 \<and> f32_of_bits (f32_bits x) = x" using f32_bits_round [of x] by blast
qed simp

lemma without_radii:
  "\<lparr>ixN = ixN idx, ixK = ixK idx, ixBlocks = ixBlocks idx, Centroids = Centroids idx, Offsets = Offsets idx, BboxMin = BboxMin idx,
     BboxMax = BboxMax idx, Radii = [], Labels = Labels idx, BlockData = BlockData idx\<rparr> = idx\<lparr>Radii := []\<rparr>"
  by (cases idx) simp

lemma radii_back: "ComputeRadii fused idx = Some idx \<Longrightarrow> ComputeRadii fused (idx\<lparr>Radii := []\<rparr>) = Some idx"
proof -
  assume r: "ComputeRadii fused idx = Some idx"
  have "cluster_radius fused (idx\<lparr>Radii := []\<rparr>) = cluster_radius fused idx" by (rule ext) (rule Radii_irrelevant)
  then show ?thesis using r by (auto simp: ComputeRadii_def split: bind_splits)
qed

lemma file_parts:
  assumes "shape_ok idx"
  shows "file_of idx @ t = header idx @ encode 4 f32_bits (Centroids idx) @ encode 4 unat (Offsets idx) @ encode 2 unat (BboxMin idx) @
      encode 2 unat (BboxMax idx) @ Labels idx @ encode 2 unat (BlockData idx) @ t"
    and "length (Centroids idx) = 14 * unat (ixK idx)" "length (Offsets idx) = unat (ixK idx) + 1"
    "length (BboxMin idx) = 16 * unat (ixK idx)" "length (BboxMax idx) = 16 * unat (ixK idx)"
    "length (Labels idx) = 8 * unat (ixBlocks idx)" "length (BlockData idx) = 112 * unat (ixBlocks idx)" "0 < unat (ixK idx)"
  using assms by (simp_all add: file_of_def writes_def shape_ok_def)

lemma Load_file:
  assumes "shape_ok idx" "ComputeRadii fused idx = Some idx" "\<forall>x \<in> set (Centroids idx). is_f32 x"
  shows "Load fused (file_of idx @ t) = Some (Inr idx)"
proof -
  note p = file_parts [OF assms(1)]
  note h = header_fields [of idx "[]", simplified]
  have "check_header (header idx) = Inr ()" by (simp add: check_header_def h)
  moreover have "read_slices (header idx) (encode 4 f32_bits (Centroids idx) @ encode 4 unat (Offsets idx) @ encode 2 unat (BboxMin idx) @
      encode 2 unat (BboxMax idx) @ Labels idx @ encode 2 unat (BlockData idx) @ t) = Inr (idx\<lparr>Radii := []\<rparr>)"
    unfolding read_slices_def Let_def h using p
    by (simp add: readFull_append lanes_defs centroids_back [OF assms(3)] without_radii)
  ultimately show ?thesis
    using radii_back [OF assms(2)] unfolding Load_def p(1) by (simp add: readFull_append headerSize_def with_radii_def)
qed

lemma gslice_part: "length a = lo \<Longrightarrow> lo + length b = hi \<Longrightarrow> gslice (a @ b @ c) lo hi = Some b"
  by (auto simp: gslice_Some)

lemma parse_file:
  assumes "shape_ok idx" "\<forall>x \<in> set (Centroids idx). is_f32 x"
  shows "parseMmappedIndex (file_of idx @ t) =
    (if ixBlocks idx = 0 then None
     else if t = [] then Some (Inr (idx\<lparr>Radii := []\<rparr>))
     else Some (Inl (SizeMismatch (length (file_of idx)) (length (file_of idx @ t)))))"
proof -
  note p = file_parts [OF assms(1)]
  define K B where "K = unat (ixK idx)" and "B = unat (ixBlocks idx)"
  define c where "c = encode 4 f32_bits (Centroids idx)"
  define os where "os = encode 4 unat (Offsets idx)"
  define mn where "mn = encode 2 unat (BboxMin idx)"
  define mx where "mx = encode 2 unat (BboxMax idx)"
  define ds where "ds = encode 2 unat (BlockData idx)"
  define data where "data = file_of idx @ t"
  have len: "length c = 14 * K * 4" "length os = (K + 1) * 4" "length mn = 16 * K * 2" "length mx = 16 * K * 2"
      "length (Labels idx) = B * 8" "length ds = B * 112 * 2" "0 < K"
    using p by (simp_all add: c_def os_def mn_def mx_def ds_def K_def B_def)
  have d: "data = header idx @ c @ os @ mn @ mx @ Labels idx @ ds @ t"
    unfolding data_def p(1) by (simp add: c_def os_def mn_def mx_def ds_def)
  have f: "u32_at data 8 = unat (ixN idx)" "u32_at data 12 = K" "u32_at data 16 = B" "check_header data = Inr ()"
    using header_fields [of idx "c @ os @ mn @ mx @ Labels idx @ ds @ t"]
    unfolding d by (simp_all only: check_header_def K_def B_def if_False simp_thms)
  define o1 o2 o3 o4 o5 o6 where "o1 = 32 + 14 * K * 4" and "o2 = o1 + (K + 1) * 4" and "o3 = o2 + 16 * K * 2"
    and "o4 = o3 + 16 * K * 2" and "o5 = o4 + B * 8" and "o6 = o5 + B * 112 * 2"
  have g: "gslice data 32 o1 = Some c" "gslice data o1 o2 = Some os" "gslice data o2 o3 = Some mn" "gslice data o3 o4 = Some mx"
      "gslice data o4 o5 = Some (Labels idx)" "gslice data o5 o6 = Some ds"
  proof -
    show "gslice data 32 o1 = Some c" unfolding d by (rule gslice_part) (simp_all add: len o1_def)
    have "gslice ((header idx @ c) @ os @ mn @ mx @ Labels idx @ ds @ t) o1 o2 = Some os"
      by (rule gslice_part) (simp_all add: len o1_def o2_def)
    then show "gslice data o1 o2 = Some os" by (simp add: d)
    have "gslice ((header idx @ c @ os) @ mn @ mx @ Labels idx @ ds @ t) o2 o3 = Some mn"
      by (rule gslice_part) (simp_all add: len o1_def o2_def o3_def)
    then show "gslice data o2 o3 = Some mn" by (simp add: d)
    have "gslice ((header idx @ c @ os @ mn) @ mx @ Labels idx @ ds @ t) o3 o4 = Some mx"
      by (rule gslice_part) (simp_all add: len o1_def o2_def o3_def o4_def)
    then show "gslice data o3 o4 = Some mx" by (simp add: d)
    have "gslice ((header idx @ c @ os @ mn @ mx) @ Labels idx @ ds @ t) o4 o5 = Some (Labels idx)"
      by (rule gslice_part) (simp_all add: len o1_def o2_def o3_def o4_def o5_def)
    then show "gslice data o4 o5 = Some (Labels idx)" by (simp add: d)
    have "gslice ((header idx @ c @ os @ mn @ mx @ Labels idx) @ ds @ t) o5 o6 = Some ds"
      by (rule gslice_part) (simp_all add: len o1_def o2_def o3_def o4_def o5_def o6_def)
    then show "gslice data o5 o6 = Some ds" by (simp add: d)
  qed
  have ne: "c \<noteq> []" "os \<noteq> []" "mn \<noteq> []" "mx \<noteq> []" "ds = [] \<longleftrightarrow> B = 0" using len by auto
  have cv: "byteToFloat32 c = Some (Centroids idx)" "byteToUint32 os = Some (Offsets idx)" "byteToInt16 mn = Some (BboxMin idx)"
      "byteToInt16 mx = Some (BboxMax idx)" "byteToInt16 ds = (if B = 0 then None else Some (BlockData idx))"
    using len ne centroids_back [OF assms(2)]
    unfolding byteToFloat32_def byteToUint32_def byteToInt16_def
    by (simp_all add: c_def [symmetric]) (simp_all add: c_def os_def mn_def mx_def ds_def)
  have o6: "o6 = length (file_of idx)"
    using arg_cong [OF p(1) [of "[]"], of length] len
    by (simp add: o1_def o2_def o3_def o4_def o5_def o6_def c_def os_def mn_def mx_def ds_def K_def B_def)
  have "parse_slices data = (if B = 0 then None else
      Some (if o6 \<noteq> length data then Inl (SizeMismatch o6 (length data)) else Inr (idx\<lparr>Radii := []\<rparr>)))"
  proof -
    have e: "headerSize + 14 * K * 4 = o1" "o1 + (K + 1) * 4 = o2" "o2 + bboxLanes * K * 2 = o3" "o3 + bboxLanes * K * 2 = o4"
        "o4 + B * blockLanes = o5" "o5 + B * blockStride * 2 = o6" "gslice data headerSize o1 = Some c"
      using g(1) by (simp_all add: o1_def o2_def o3_def o4_def o5_def o6_def lanes_defs)
    have r: "\<lparr>ixN = ixN idx, ixK = of_nat K, ixBlocks = of_nat B, Centroids = Centroids idx, Offsets = Offsets idx,
        BboxMin = BboxMin idx, BboxMax = BboxMax idx, Radii = [], Labels = Labels idx, BlockData = BlockData idx\<rparr> = idx\<lparr>Radii := []\<rparr>"
      by (simp add: K_def B_def without_radii)
    show ?thesis
      unfolding parse_slices_def f Let_def e g Option.bind.simps cv by (cases "B = 0") (simp_all add: r)
  qed
  moreover have "B = 0 \<longleftrightarrow> ixBlocks idx = 0" by (simp add: B_def unat_eq_zero)
  moreover have "o6 = length data \<longleftrightarrow> t = []" by (simp add: data_def o6)
  moreover have "\<not> length data < 32" by (simp add: d)
  ultimately show ?thesis unfolding data_def [symmetric] parseMmappedIndex_def f(4) headerSize_def by (simp add: o6)
qed

text \<open>A file cut short.\<close>

lemma read_slices_short:
  assumes "length bs < 4 * (14 * u32_at hdr 12) + 4 * (u32_at hdr 12 + 1) + 2 * (2 * (bboxLanes * u32_at hdr 12)) +
    u32_at hdr 16 * blockLanes + 2 * (u32_at hdr 16 * blockStride)"
  shows "\<exists>field. read_slices hdr bs = Inl (Short field)"
  using assms unfolding read_slices_def Let_def readFull_def by (auto simp: lanes_defs)

lemma length_file: "shape_ok idx \<Longrightarrow> length (file_of idx) =
    32 + (4 * (14 * unat (ixK idx)) + 4 * (unat (ixK idx) + 1) + 2 * (2 * (bboxLanes * unat (ixK idx))) +
      unat (ixBlocks idx) * blockLanes + 2 * (unat (ixBlocks idx) * blockStride))"
  using file_parts [of idx] by (simp add: file_of_def writes_def lanes_defs)

lemma take_file:
  assumes "32 \<le> n" "n \<le> length (file_of idx)"
  shows "\<exists>t. take n (file_of idx) = header idx @ t \<and> length t = n - 32"
proof -
  define u where "u = concat (tl (writes idx))"
  have "file_of idx = header idx @ u" by (simp add: file_of_def writes_def u_def)
  then have "take n (file_of idx) = header idx @ take (n - 32) u" "length (take (n - 32) u) = n - 32" using assms by simp_all
  then show ?thesis by blast
qed

lemma Load_short:
  assumes "shape_ok idx" "n < length (file_of idx)"
  shows "\<exists>field. Load fused (take n (file_of idx)) = Some (Inl (Short field))"
proof (cases "32 \<le> n")
  case False
  then show ?thesis using assms(2) by (auto simp: Load_def readFull_def headerSize_def with_radii_def min_def)
next
  case True
  obtain t where t: "take n (file_of idx) = header idx @ t" "length t = n - 32"
    using take_file [OF True] assms(2) by (meson less_imp_le)
  note h = header_fields [of idx "[]", simplified]
  have "check_header (header idx) = Inr ()" by (simp add: check_header_def h)
  moreover obtain field where "read_slices (header idx) t = Inl (Short field)"
  proof -
    define M where "M = 4 * (14 * unat (ixK idx)) + 4 * (unat (ixK idx) + 1) + 2 * (2 * (bboxLanes * unat (ixK idx))) +
      unat (ixBlocks idx) * blockLanes + 2 * (unat (ixBlocks idx) * blockStride)"
    have "length t < M" using t(2) True assms(2) length_file [OF assms(1), folded M_def] by linarith
    then show ?thesis using read_slices_short [of t "header idx"] that unfolding h M_def by blast
  qed
  ultimately show ?thesis unfolding Load_def t(1) by (simp add: readFull_append headerSize_def with_radii_def)
qed

lemma parse_short:
  assumes "shape_ok idx" "n < length (file_of idx)"
  shows "parseMmappedIndex (take n (file_of idx)) = (if n < 32 then Some (Inl TooSmall) else None)"
proof (cases "32 \<le> n")
  case False
  then have "length (take n (file_of idx)) < 32" by simp
  then show ?thesis using False unfolding parseMmappedIndex_def headerSize_def by simp
next
  case True
  obtain t where t: "take n (file_of idx) = header idx @ t" "length t = n - 32"
    using take_file [OF True] assms(2) by (meson less_imp_le)
  define data where "data = take n (file_of idx)"
  have f: "u32_at data 12 = unat (ixK idx)" "u32_at data 16 = unat (ixBlocks idx)" "check_header data = Inr ()"
    using header_fields [of idx t] unfolding data_def t(1) by (simp_all only: check_header_def if_False simp_thms)
  have l: "length data = n" using assms(2) by (simp add: data_def)
  have o6: "headerSize + 14 * unat (ixK idx) * 4 + (unat (ixK idx) + 1) * 4 + bboxLanes * unat (ixK idx) * 2 + bboxLanes * unat (ixK idx) * 2 +
      unat (ixBlocks idx) * blockLanes + unat (ixBlocks idx) * blockStride * 2 = length (file_of idx)"
    unfolding length_file [OF assms(1)] by (simp add: lanes_defs)
  have "gslice data lo (length (file_of idx)) = None" for lo using l assms(2) by (simp add: gslice_def)
  then have "parse_slices data = None" unfolding parse_slices_def Let_def f o6 by (auto split: bind_splits)
  then show ?thesis using True l unfolding data_def [symmetric] by (simp add: parseMmappedIndex_def f headerSize_def)
qed

text \<open>What \<open>Build\<close> puts into an index it returns.\<close>

lemma ComputeRadii_idem: "ComputeRadii fused idx = Some idx' \<Longrightarrow> ComputeRadii fused idx' = Some idx'"
proof -
  assume r: "ComputeRadii fused idx = Some idx'"
  then obtain rs where rs: "those (map (cluster_radius fused idx) [0..<unat (ixK idx)]) = Some rs" "idx' = idx\<lparr>Radii := rs\<rparr>"
    by (auto simp: ComputeRadii_def split: bind_splits)
  have "cluster_radius fused idx' = cluster_radius fused idx" unfolding rs(2) by (rule ext) (rule Radii_irrelevant)
  then show ?thesis using rs by (simp add: ComputeRadii_def)
qed

lemma Build_fields:
  assumes "Build fused K src vectors n centroids assign = Some (Inr idx)"
  shows "ComputeRadii fused idx = Some idx" "Centroids idx = soa_centroids K centroids"
    "\<exists>buckets. bucket_ids K assign n = Some buckets \<and> ixBlocks idx = snd (cluster_offsets buckets)"
proof -
  obtain idx0 buckets where i: "ComputeRadii fused idx0 = Some idx" "Centroids idx0 = soa_centroids K centroids"
      "bucket_ids K assign n = Some buckets" "ixBlocks idx0 = snd (cluster_offsets buckets)"
    using assms by (fastforce simp: Build_def split: if_splits bind_splits prod.splits)
  show "ComputeRadii fused idx = Some idx" by (rule ComputeRadii_idem [OF i(1)])
  have "Centroids idx = Centroids idx0" "ixBlocks idx = ixBlocks idx0"
    using i(1) by (auto simp: ComputeRadii_def split: bind_splits)
  then show "Centroids idx = soa_centroids K centroids"
      "\<exists>buckets. bucket_ids K assign n = Some buckets \<and> ixBlocks idx = snd (cluster_offsets buckets)"
    using i(2-4) by auto
qed

lemma soa_is_f32: "(\<And>c d. c < K \<Longrightarrow> d < 14 \<Longrightarrow> is_f32 (centroids ! c ! d)) \<Longrightarrow> \<forall>x \<in> set (soa_centroids K centroids). is_f32 x"
  by (auto simp: soa_centroids_def)

lemma Serialize_file: "Serialize (\<lambda>w b. Some (w @ b)) idx [] = Some (file_of idx)"
proof -
  have "ofold (\<lambda>b w. Some (w @ b)) bs w = Some (w @ concat bs)" for bs :: "u8 list list" and w
    by (induction bs arbitrary: w) auto
  then show ?thesis by (simp add: Serialize_def file_of_def)
qed

lemma members_no_blocks: "shape_ok idx \<Longrightarrow> ixBlocks idx = 0 \<Longrightarrow> members idx = []"
proof -
  assume sh: "shape_ok idx" and b: "ixBlocks idx = 0"
  have "off idx c = 0" if "c \<le> unat (ixK idx)" for c
    using off_mono [OF sh that order_refl] sh b by (simp add: shape_ok_def)
  then show ?thesis by (auto simp: members_def cslots_def)
qed

subsection \<open>What a program that reads an index relies on\<close>

text \<open>The server reads the file in place, the tools read it into the heap.  Both get back the index that
  was built, provided it holds a vector.\<close>

locale index_reader =
  fixes read :: "bool \<Rightarrow> u8 list \<Rightarrow> (idx_error + IVFIndex) option"
  assumes read_file: "shape_ok idx \<Longrightarrow> ComputeRadii fused idx = Some idx \<Longrightarrow> \<forall>x \<in> set (Centroids idx). is_f32 x \<Longrightarrow>
    ixBlocks idx \<noteq> 0 \<Longrightarrow> read fused (file_of idx) = Some (Inr idx)"
begin

lemma read_built:
  assumes "Build fused K src vectors n centroids assign = Some (Inr idx)" "wf_index idx" "members idx \<noteq> []"
    and "\<forall>x \<in> set (soa_centroids K centroids). is_f32 x"
  shows "\<exists>bytes. Serialize (\<lambda>w b. Some (w @ b)) idx [] = Some bytes \<and> read fused bytes = Some (Inr idx)"
proof -
  note f = Build_fields [OF assms(1)]
  have sh: "shape_ok idx" using assms(2) by (simp add: wf_index_def)
  then have "ixBlocks idx \<noteq> 0" using members_no_blocks assms(3) by blast
  from read_file [OF sh f(1) _ this] show ?thesis using assms(4) f(2) Serialize_file by simp
qed

end

interpretation heap_reader: index_reader Load
  by unfold_locales (use Load_file [of _ _ "[]"] in simp)

interpretation mapped_reader: index_reader LoadMmap
proof
  fix idx fused assume "shape_ok idx" "ComputeRadii fused idx = Some idx" "\<forall>x \<in> set (Centroids idx). is_f32 x" "ixBlocks idx \<noteq> 0"
  then show "LoadMmap fused (file_of idx) = Some (Inr idx)"
    using parse_file [of idx "[]"] radii_back [of fused idx] by (simp add: LoadMmap_def with_radii_def)
qed

section \<open>Properties\<close>

text \<open>C35. The index file round trip: reading back what \<open>Serialize\<close> writes, with \<open>Load\<close> or in place with
  \<open>LoadMmap\<close>, gives the index, radii included, as long as its centroids are \<open>float32\<close> numbers.
  Only an index without blocks cannot be read in place: the address of its empty last slice panics.
  Bytes after the index are ignored by \<open>Load\<close> and an error of \<open>LoadMmap\<close>.\<close>

theorem index_file_roundtrip:
  assumes "shape_ok idx" "ComputeRadii fused idx = Some idx" "\<forall>x \<in> set (Centroids idx). is_f32 x"
  shows "\<exists>bytes. Serialize (\<lambda>w b. Some (w @ b)) idx [] = Some bytes \<and>
    Load fused (bytes @ t) = Some (Inr idx) \<and>
    LoadMmap fused (bytes @ t) =
      (if ixBlocks idx = 0 then None else if t = [] then Some (Inr idx)
       else Some (Inl (SizeMismatch (length bytes) (length (bytes @ t)))))"
  using Serialize_file [of idx] Load_file [OF assms] parse_file [OF assms(1,3)] radii_back [OF assms(2)]
  by (auto simp: LoadMmap_def with_radii_def)

lemma one_vector:
  "\<exists>idx. Build fused 1 [1] (replicate 14 100) 1 [replicate 14 (Fin 0)] [0] = Some (Inr idx) \<and> shape_ok idx \<and>
    ComputeRadii fused idx = Some idx \<and> (\<forall>x \<in> set (Centroids idx). is_f32 x) \<and> ixBlocks idx = 1"
proof -
  have "build_input 1 [1] (replicate 14 100) 1 [replicate 14 (Fin 0)] [0]" by (auto simp: build_input_def centroid_ok_def)
  from Build_wf [OF this] obtain idx where
    i: "Build fused 1 [1] (replicate 14 100) 1 [replicate 14 (Fin 0)] [0] = Some (Inr idx)" "wf_index idx" by blast
  note f = Build_fields [OF i(1)]
  have "\<forall>x \<in> set (Centroids idx). is_f32 x" unfolding f(2) by (rule soa_is_f32) (simp add: is_f32_def)
  moreover have "ixBlocks idx = 1"
    using f(3) by (auto simp: bucket_ids_def get_def put_def cluster_offsets_def split: if_splits)
  ultimately show ?thesis using i f(1) by (auto simp: wf_index_def)
qed

theorem index_file_roundtrip_witness:
  "\<exists>idx bytes. Build True 1 [1] (replicate 14 100) 1 [replicate 14 (Fin 0)] [0] = Some (Inr idx) \<and>
    Serialize (\<lambda>w b. Some (w @ b)) idx [] = Some bytes \<and>
    Load True bytes = Some (Inr idx) \<and> LoadMmap True bytes = Some (Inr idx)"
proof -
  obtain idx where "Build True 1 [1] (replicate 14 100) 1 [replicate 14 (Fin 0)] [0] = Some (Inr idx)" "shape_ok idx"
      "ComputeRadii True idx = Some idx" "\<forall>x \<in> set (Centroids idx). is_f32 x" "ixBlocks idx = 1"
    using one_vector by blast
  then show ?thesis using index_file_roundtrip [of idx True "[]"] by auto
qed

text \<open>C36. A truncated file: \<open>Load\<close> returns an error wherever the file is cut; \<open>LoadMmap\<close> returns one only
  when the header is cut, and panics otherwise, because it slices before it compares the sizes.\<close>

theorem truncated_file:
  assumes "shape_ok idx" "n < length (file_of idx)"
  shows "(\<exists>field. Load fused (take n (file_of idx)) = Some (Inl (Short field))) \<and>
    LoadMmap fused (take n (file_of idx)) = (if n < 32 then Some (Inl TooSmall) else None)"
  using Load_short [OF assms] parse_short [OF assms] by (simp add: LoadMmap_def with_radii_def)

theorem truncated_file_witness:
  "\<exists>idx field. Build True 1 [1] (replicate 14 100) 1 [replicate 14 (Fin 0)] [0] = Some (Inr idx) \<and>
    Load True (take 100 (file_of idx)) = Some (Inl (Short field)) \<and> LoadMmap True (take 100 (file_of idx)) = None \<and>
    LoadMmap True (take 20 (file_of idx)) = Some (Inl TooSmall)"
proof -
  obtain idx where i: "Build True 1 [1] (replicate 14 100) 1 [replicate 14 (Fin 0)] [0] = Some (Inr idx)" "shape_ok idx" "ixBlocks idx = 1"
    using one_vector by blast
  have "100 < length (file_of idx)" using i by (simp add: length_file lanes_defs)
  then show ?thesis
    using truncated_file [OF i(2), of 100 True] truncated_file [OF i(2), of 20 True] i(1) by auto
qed

end
