(* ===== verification/Specialist.thy ===== *)
theory Specialist
  imports BruteForce "HOL-Library.AList"
begin

text \<open>
  The second index, \<open>internal/specialist\<close>: \<open>partition.go\<close>, the types of \<open>index.go\<close> and
  \<open>build.go\<close>.  References are partitioned by an eight-bit key; each partition is a
  tree whose inner nodes split the members at the median of the widest dimension and
  whose leaves are runs of blocks of eight vectors.  \<open>kd_tree\<close> is the invariant of a
  tree inside the node table: a subtree covers a contiguous range of blocks, and the
  box of every node contains all vectors of its range.  \<open>sp_Build_wf\<close> shows that
  \<open>Build\<close> establishes it, with a height that the search stack can hold.
\<close>

subsection \<open>Data\<close>

definition LeafSize :: nat where "LeafSize = 128"
definition LANES :: nat where "LANES = 8"
definition MaxPartitions :: nat where "MaxPartitions = 384"

record Partition =
  pKey :: u32
  pRoot :: u32
  pMin :: "i16 list"
  pMax :: "i16 list"

record Node =
  nLeft :: "32 word"   \<comment> \<open>read with \<open>sint\<close>\<close>
  nRight :: "32 word"
  nBlockStart :: u32
  nLen :: u32
  nMin :: "i16 list"
  nMax :: "i16 list"

record SpecialistIndex =
  sN :: u32
  sPartCount :: u32
  sNodeCount :: u32
  sBlockCount :: u32
  sPartitions :: "Partition list"
  sNodes :: "Node list"
  sBlockData :: "i16 list"
  sLabels :: "u8 list"

subsection \<open>The partition key\<close>

definition mcc_bucket :: "int \<Rightarrow> u32" where
  "mcc_bucket mcc = (if mcc \<le> 2499 then 0 else if mcc \<le> 4999 then 1 else if mcc \<le> 7499 then 2 else 3)"

definition key_bit :: "bool \<Rightarrow> nat \<Rightarrow> u32 \<Rightarrow> u32" where
  "key_bit b i pk = (if b then or pk (push_bit i 1) else pk)"

definition PartitionKey :: "i16 list \<Rightarrow> u32" where
  "PartitionKey v =
     (let pk = key_bit (0 \<le> sint (v ! 5)) 0 0;
          pk = key_bit (0 < sint (v ! 9)) 1 pk;
          pk = key_bit (0 < sint (v ! 10)) 2 pk;
          pk = key_bit (0 < sint (v ! 11)) 3 pk;
          pk = or pk (push_bit 4 (mcc_bucket (sint (v ! 12))));
          pk = key_bit (5000 < sint (v ! 2)) 6 pk
      in key_bit (2500 < sint (v ! 8)) 7 pk)"

definition PartitionByKey :: "SpecialistIndex \<Rightarrow> u32 \<Rightarrow> int" where
  "PartitionByKey idx pk =
     (case List.find (\<lambda>i. pKey (sPartitions idx ! i) = pk) [0..<length (sPartitions idx)] of
        Some i \<Rightarrow> int i
      | None \<Rightarrow> - 1)"

subsection \<open>buildKDTree\<close>

definition node_bbox :: "i16 list \<Rightarrow> nat list \<Rightarrow> (i16 list \<times> i16 list) option" where
  "node_bbox vectors ids = do {
     (mn, mx) \<leftarrow> ofold (\<lambda>i box. do { v \<leftarrow> vector_at vectors i; Some (bbox_step v box) }) ids
                  (replicate 14 32767, replicate 14 (- 32768));
     Some (mn @ [0, 0], mx @ [0, 0])
   }"

definition widestDim :: "i16 list \<Rightarrow> i16 list \<Rightarrow> nat" where
  "widestDim nmin nmax =
     fst (fold (\<lambda>d (best, bestWidth).
            let w = sint (nmax ! d) - sint (nmin ! d) in if bestWidth < w then (d, w) else (best, bestWidth))
          [1..<14] (0, sint (nmax ! 0) - sint (nmin ! 0)))"

type_synonym block = "i16 list \<times> u8 list"   \<comment> \<open>112 numbers, 8 labels\<close>
type_synonym kd_state = "block list \<times> Node list"

definition leaf_lane :: "Dataset \<Rightarrow> nat list \<Rightarrow> nat \<Rightarrow> nat \<Rightarrow> (i16 list \<times> u8) option" where
  "leaf_lane ds ms b l =
     (let i = b * LANES + l in
      if i < length ms then do {
        v \<leftarrow> vector_at (Vectors ds) (ms ! i);
        lab \<leftarrow> get (DLabels ds) (ms ! i);
        Some (v, lab)
      } else Some (phantom, 0))"

definition block_of_lanes :: "(i16 list \<times> u8) list \<Rightarrow> block" where
  "block_of_lanes lanes = (concat (map (\<lambda>d. map (\<lambda>(v, _). v ! d) lanes) [0..<14]), map snd lanes)"

definition leaf_block :: "Dataset \<Rightarrow> nat list \<Rightarrow> nat \<Rightarrow> block option" where
  "leaf_block ds ms b = map_option block_of_lanes (those (map (leaf_lane ds ms b) [0..<LANES]))"

definition leaf_blocks :: "Dataset \<Rightarrow> nat list \<Rightarrow> block list option" where
  "leaf_blocks ds ms = those (map (leaf_block ds ms) [0..<(length ms + LANES - 1) div LANES])"

definition upd_node :: "Node list \<Rightarrow> nat \<Rightarrow> (Node \<Rightarrow> Node) \<Rightarrow> Node list option" where
  "upd_node nodes i f = do { n \<leftarrow> get nodes i; put nodes i (f n) }"

definition by_dim :: "i16 list \<Rightarrow> nat \<Rightarrow> nat list \<Rightarrow> nat \<Rightarrow> nat \<Rightarrow> bool" where
  \<comment> \<open>the comparison given to \<open>sort.SliceStable\<close>; all members were read before\<close>
  "by_dim vectors sd ms i j \<longleftrightarrow> sint (vectors ! (ms ! i * 14 + sd)) < sint (vectors ! (ms ! j * 14 + sd))"

function buildKDTree :: "Dataset \<Rightarrow> nat list \<Rightarrow> kd_state \<Rightarrow> (nat \<times> kd_state) option" where
  "buildKDTree ds ms (blocks, nodes) = do {
     (nmin, nmax) \<leftarrow> node_bbox (Vectors ds) ms;
     let nodeIdx = length nodes;
     let nodes = nodes @ [\<lparr>nLeft = - 1, nRight = - 1, nBlockStart = 0, nLen = 0, nMin = nmin, nMax = nmax\<rparr>];
     if length ms \<le> LeafSize then do {
       bs \<leftarrow> leaf_blocks ds ms;
       nodes \<leftarrow> upd_node nodes nodeIdx
         (\<lambda>n. n\<lparr>nBlockStart := of_nat (length blocks), nLen := of_nat (length ms)\<rparr>);
       Some (nodeIdx, blocks @ bs, nodes)
     } else do {
       let ms = SliceStable (by_dim (Vectors ds) (widestDim nmin nmax)) ms;
       let mid = length ms div 2;
       (left, blocks, nodes) \<leftarrow> buildKDTree ds (take mid ms) (blocks, nodes);
       (right, blocks, nodes) \<leftarrow> buildKDTree ds (drop mid ms) (blocks, nodes);
       nodes \<leftarrow> upd_node nodes nodeIdx
         (\<lambda>n. n\<lparr>nLeft := of_nat left, nRight := of_nat right, nBlockStart := 0, nLen := 0\<rparr>);
       Some (nodeIdx, blocks, nodes)
     }
   }"
  by pat_completeness auto
termination
  by (relation "measure (\<lambda>(ds, ms, st). length ms)") (auto simp: LeafSize_def length_SliceStable)

declare buildKDTree.simps [simp del]

subsection \<open>Build\<close>

definition bucket_refs :: "Dataset \<Rightarrow> (u32 \<times> nat list) list option" where
  \<comment> \<open>the map from keys to references; an identifier is converted to \<open>uint32\<close> and back\<close>
  "bucket_refs ds =
     ofold (\<lambda>i buckets. do {
         v \<leftarrow> vector_at (Vectors ds) i;
         let pk = PartitionKey v;
         let b = (case map_of buckets pk of Some b \<Rightarrow> b | None \<Rightarrow> []);
         Some (AList.update pk (b @ [unat (of_nat i :: u32)]) buckets)
       }) [0..<Count ds] []"

definition add_partition ::
  "Dataset \<Rightarrow> u32 \<times> nat list \<Rightarrow> Partition list \<times> kd_state \<Rightarrow> (Partition list \<times> kd_state) option" where
  "add_partition ds kb st =
     (case kb of (pk, ms) \<Rightarrow> case st of (parts, st) \<Rightarrow> do {
        (root, blocks, nodes) \<leftarrow> buildKDTree ds ms st;
        rootNode \<leftarrow> get nodes root;
        Some (parts @ [\<lparr>pKey = pk, pRoot = of_nat root, pMin = nMin rootNode, pMax = nMax rootNode\<rparr>], blocks, nodes)
      })"

definition copy_at :: "nat \<Rightarrow> 'a list \<Rightarrow> 'a list \<Rightarrow> 'a list option" where
  \<comment> \<open>\<open>copy(dst[off:], src)\<close>\<close>
  "copy_at i src dst =
     (if i \<le> length dst then Some (take (length dst) (take i dst @ src @ drop (i + length src) dst)) else None)"

definition flatten :: "nat \<Rightarrow> 'a list list \<Rightarrow> 'a list \<Rightarrow> 'a list option" where
  "flatten stride bs dst = ofold (\<lambda>(b, blk). copy_at (b * stride) blk) (enumerate 0 bs) dst"

definition sp_Build :: "Dataset \<Rightarrow> SpecialistIndex option" where
  "sp_Build ds = do {
     buckets \<leftarrow> bucket_refs ds;
     let keys = sort (map fst buckets);
     (parts, blocks, nodes) \<leftarrow> ofold (add_partition ds) (map (\<lambda>k. (k, the (map_of buckets k))) keys) ([], [], []);
     let bc = (of_nat (length blocks) :: u32);
     data \<leftarrow> flatten 112 (map fst blocks) (replicate (unat (bc * 14 * 8)) 0);
     labels \<leftarrow> flatten 8 (map snd blocks) (replicate (unat (bc * 8)) 0);
     Some \<lparr>sN = of_nat (Count ds), sPartCount = of_nat (length keys), sNodeCount = of_nat (length nodes), sBlockCount = bc,
       sPartitions = parts, sNodes = nodes, sBlockData = data, sLabels = labels\<rparr>
   }"

subsection \<open>What leaves hold\<close>

definition block_entries :: "block \<Rightarrow> (i16 list \<times> u8) list" where
  "block_entries blk = map (\<lambda>l. (lane_vec (fst blk) l, snd blk ! l)) [0..<8]"

definition all_entries :: "block list \<Rightarrow> (i16 list \<times> u8) list" where
  "all_entries bs = concat (map block_entries bs)"

lemma length_all_entries [simp]: "length (all_entries bs) = 8 * length bs"
  unfolding all_entries_def by (subst length_concat_const) (auto simp: block_entries_def)

lemma all_entries_append [simp]: "all_entries (bs @ bs') = all_entries bs @ all_entries bs'"
  by (simp add: all_entries_def)

lemma block_of_lanes:
  assumes "length lanes = 8" "\<forall>e \<in> set lanes. length (fst e) = 14"
  shows "block_entries (block_of_lanes lanes) = lanes" "length (fst (block_of_lanes lanes)) = 112"
    "length (snd (block_of_lanes lanes)) = 8"
proof -
  define g where "g d = map (\<lambda>(v, _). v ! d) lanes" for d
  have g: "\<forall>x \<in> set (map g [0..<14]). length x = 8" using assms(1) by (auto simp: g_def)
  have b: "fst (block_of_lanes lanes) = concat (map g [0..<14])" by (simp add: block_of_lanes_def g_def [abs_def])
  have len: "length (fst (block_of_lanes lanes)) = 14 * 8" unfolding b using length_concat_const [OF g] by simp
  then show "length (fst (block_of_lanes lanes)) = 112" by simp
  show "length (snd (block_of_lanes lanes)) = 8" using assms(1) by (simp add: block_of_lanes_def)
  have nth: "fst (block_of_lanes lanes) ! (d * 8 + l) = fst (lanes ! l) ! d" if "d < 14" "l < 8" for d l
  proof -
    have "take 8 (drop (d * 8) (fst (block_of_lanes lanes))) = g d" unfolding b using concat_chunk [OF g, of d] that(1) by simp
    moreover have "d * 8 \<le> length (fst (block_of_lanes lanes))" unfolding len using that(1) by simp
    ultimately have "fst (block_of_lanes lanes) ! (d * 8 + l) = g d ! l" using that(2) by (metis nth_drop nth_take)
    then show ?thesis using that(2) assms(1) by (simp add: g_def split_beta)
  qed
  show "block_entries (block_of_lanes lanes) = lanes"
  proof (rule nth_equalityI)
    show "length (block_entries (block_of_lanes lanes)) = length lanes" using assms(1) by (simp add: block_entries_def)
    fix l assume "l < length (block_entries (block_of_lanes lanes))"
    then have l: "l < 8" by (simp add: block_entries_def)
    then have "length (fst (lanes ! l)) = 14" using assms by simp
    then have "lane_vec (fst (block_of_lanes lanes)) l = fst (lanes ! l)" using nth l by (auto intro: nth_equalityI)
    then show "block_entries (block_of_lanes lanes) ! l = lanes ! l"
      using l assms(1) by (simp add: block_entries_def block_of_lanes_def)
  qed
qed

definition ref_entry :: "Dataset \<Rightarrow> nat \<Rightarrow> i16 list \<times> u8" where
  "ref_entry ds i = (vec_of (Vectors ds) i, DLabels ds ! i)"

definition ref_ok :: "Dataset \<Rightarrow> nat \<Rightarrow> bool" where
  "ref_ok ds i \<longleftrightarrow> i * 14 + 14 \<le> length (Vectors ds) \<and> i < length (DLabels ds) \<and>
     quantized (fst (ref_entry ds i)) \<and> snd (ref_entry ds i) \<le> 1"

lemma leaf_blocks_ok:
  assumes ok: "\<forall>i \<in> set ms. ref_ok ds i"
  shows "\<exists>bs. leaf_blocks ds ms = Some bs \<and> length bs = (length ms + 7) div 8 \<and>
    (\<forall>b \<in> set bs. length (fst b) = 112 \<and> length (snd b) = 8) \<and>
    all_entries bs = map (ref_entry ds) ms @ replicate (padn (length ms)) (phantom, 0)"
proof -
  define F where "F i = (if i < length ms then ref_entry ds (ms ! i) else (phantom, 0))" for i
  define G where "G b = block_of_lanes (map (\<lambda>l. F (b * 8 + l)) [0..<8])" for b
  define nb where "nb = (length ms + 7) div 8"
  have vl: "length (fst (F i)) = 14" for i
    using ok by (simp add: F_def ref_entry_def ref_ok_def)
  have lane: "leaf_lane ds ms b l = Some (F (b * 8 + l))" for b l
  proof (cases "b * 8 + l < length ms")
    case True
    then have "ref_ok ds (ms ! (b * 8 + l))" using ok by simp
    then show ?thesis using True by (simp add: leaf_lane_def LANES_def F_def vector_at_Some get_Some ref_ok_def ref_entry_def Let_def)
  qed (simp add: leaf_lane_def LANES_def F_def)
  have "leaf_block ds ms b = Some (G b)" for b
    unfolding leaf_block_def G_def LANES_def by (subst those_map_Some [OF lane]) simp
  then have "leaf_blocks ds ms = Some (map G [0..<nb])"
    unfolding leaf_blocks_def LANES_def nb_def by (subst those_map_Some [where g = G]) (simp_all add: add.commute)
  moreover have ent: "block_entries (G b) = map (\<lambda>l. F (b * 8 + l)) [0..<8]" "length (fst (G b)) = 112" "length (snd (G b)) = 8" for b
    using block_of_lanes [of "map (\<lambda>l. F (b * 8 + l)) [0..<8]"] vl by (auto simp: G_def)
  moreover have "all_entries (map G [0..<nb]) = map (ref_entry ds) ms @ replicate (padn (length ms)) (phantom, 0)"
  proof -
    have "all_entries (map G [0..<nb]) = map F (concat (map (\<lambda>b. map (\<lambda>lane. b * 8 + lane) [0..<8]) [0..<nb]))"
      by (simp add: all_entries_def ent(1) map_concat comp_def)
    also have "\<dots> = map F [0..<8 * nb]" by (simp only: upt_mult_8 mult_0_right)
    also have "8 * nb = length ms + padn (length ms)" by (simp add: nb_def padn_add)
    also have "map F [0..<length ms + padn (length ms)] = map F [0..<length ms] @ map F [length ms..<length ms + padn (length ms)]"
      by (simp only: upt_add_eq_append [OF le0] map_append)
    also have "map F [0..<length ms] = map (ref_entry ds) ms" by (rule nth_equalityI) (simp_all add: F_def)
    also have "map F [length ms..<length ms + padn (length ms)] = replicate (padn (length ms)) (phantom, 0)"
      by (rule nth_equalityI) (simp_all add: F_def)
    finally show ?thesis .
  qed
  ultimately show ?thesis unfolding nb_def by auto
qed

lemma node_bbox_ok:
  assumes "\<forall>i \<in> set ids. i * 14 + 14 \<le> length vectors"
  shows "\<exists>mn mx. node_bbox vectors ids = Some (mn, mx) \<and> length mn = 16 \<and> length mx = 16 \<and>
    (\<forall>i \<in> set ids. in_box mn mx (vec_of vectors i))"
proof (cases "ids = []")
  case True
  then show ?thesis by (simp add: node_bbox_def)
next
  case False
  then have "node_bbox vectors ids = cluster_bbox vectors ids" by (simp add: node_bbox_def cluster_bbox_def)
  then show ?thesis using cluster_bbox_ok [OF assms] by simp
qed

subsection \<open>The invariant of a tree\<close>

definition seg :: "'a list \<Rightarrow> nat \<Rightarrow> nat \<Rightarrow> 'a list" where
  \<comment> \<open>the entries of the blocks from \<open>s\<close> up to \<open>e\<close>\<close>
  "seg E s e = take (8 * (e - s)) (drop (8 * s) E)"

definition covers :: "Node \<Rightarrow> (i16 list \<times> u8) list \<Rightarrow> bool" where
  "covers nd es \<longleftrightarrow> (\<forall>e \<in> set es. slot_ok e \<and> (e \<noteq> (phantom, 0) \<longrightarrow> in_box (nMin nd) (nMax nd) (fst e))) \<and>
     (\<exists>e \<in> set es. e \<noteq> (phantom, 0))"

definition is_leaf :: "Node \<Rightarrow> bool" where
  "is_leaf nd \<longleftrightarrow> sint (nLeft nd) < 0 \<or> sint (nRight nd) < 0"

inductive kd_tree :: "Node list \<Rightarrow> (i16 list \<times> u8) list \<Rightarrow> nat \<Rightarrow> nat \<Rightarrow> nat \<Rightarrow> nat \<Rightarrow> bool" for N E where
  kd_leaf: "i < length N \<Longrightarrow> is_leaf (N ! i) \<Longrightarrow> unat (nBlockStart (N ! i)) = s \<Longrightarrow>
    (unat (nLen (N ! i)) + 7) div 8 = e - s \<Longrightarrow> unat (nLen (N ! i)) \<le> 128 \<Longrightarrow> s < e \<Longrightarrow> 8 * e \<le> length E \<Longrightarrow>
    covers (N ! i) (seg E s e) \<Longrightarrow> kd_tree N E h i s e"
| kd_inner: "i < length N \<Longrightarrow> sint (nLeft (N ! i)) = int l \<Longrightarrow> sint (nRight (N ! i)) = int r \<Longrightarrow>
    kd_tree N E h l s m \<Longrightarrow> kd_tree N E h r m e \<Longrightarrow> covers (N ! i) (seg E s e) \<Longrightarrow> kd_tree N E (Suc h) i s e"

inductive_cases kd_treeE: "kd_tree N E h i s e"

lemma seg_split: "s \<le> m \<Longrightarrow> m \<le> e \<Longrightarrow> seg E s e = seg E s m @ seg E m e"
proof -
  assume "s \<le> m" "m \<le> e"
  then have "8 * (e - s) = 8 * (m - s) + 8 * (e - m)" "8 * m = 8 * (m - s) + 8 * s" by simp_all
  then show ?thesis unfolding seg_def by (simp only: take_add drop_drop)
qed

lemma seg_middle: "length A = 8 * s \<Longrightarrow> length B = 8 * (e - s) \<Longrightarrow> seg (A @ B @ C) s e = B"
  by (simp add: seg_def)

lemma kd_tree_range: "kd_tree N E h i s e \<Longrightarrow> i < length N \<and> s < e \<and> 8 * e \<le> length E \<and> covers (N ! i) (seg E s e)"
  by (induction rule: kd_tree.induct) auto

subsection \<open>buildKDTree establishes it\<close>

lemma sint_of_nat32: "n < 2 ^ 31 \<Longrightarrow> sint (of_nat n :: 32 word) = int n"
proof -
  assume "n < 2 ^ 31"
  then have "- (2 ^ 31) \<le> int n" "int n < 2 ^ 31" by simp_all
  then have "signed_take_bit 31 (int n) = int n" by (intro signed_take_bit_int_eq_self)
  moreover have "(of_nat n :: 32 word) = word_of_int (int n)" by simp
  ultimately show ?thesis using sint_sbintrunc' [where ?'a = 32, of "int n"] by simp
qed

lemma upd_node_at: "length A = i \<Longrightarrow> upd_node (A @ n # B) i f = Some (A @ f n # B)"
  by (auto simp: upd_node_def get_def put_def)

lemma stored_refs:
  assumes "\<forall>i \<in> set ms. ref_ok ds i"
  shows "stored (map (ref_entry ds) ms) = map (ref_entry ds) ms" "\<forall>e \<in> set (map (ref_entry ds) ms). slot_ok e"
proof -
  show "stored (map (ref_entry ds) ms) = map (ref_entry ds) ms"
  proof -
    have "fst (ref_entry ds i) \<noteq> phantom" if "i \<in> set ms" for i
      using assms that phantom_not_quantized unfolding ref_ok_def by metis
    then show ?thesis by (simp add: stored_def filter_id_conv)
  qed
  show "\<forall>e \<in> set (map (ref_entry ds) ms). slot_ok e" using assms by (auto simp: ref_ok_def slot_ok_def)
qed

lemma stored_append [simp]: "stored (a @ b) = stored a @ stored b"
  by (simp add: stored_def)

lemma covers_refs:
  assumes ms: "\<forall>i \<in> set ms. ref_ok ds i" "ms \<noteq> []" and box: "\<forall>i \<in> set ms. in_box (nMin nd) (nMax nd) (vec_of (Vectors ds) i)"
    and es: "\<forall>e \<in> set es. slot_ok e" "mset (stored es) = mset (map (ref_entry ds) ms)"
  shows "covers nd es"
proof -
  have st: "set (stored es) = ref_entry ds ` set ms" using mset_eq_setD [OF es(2)] by simp
  have "in_box (nMin nd) (nMax nd) (fst e)" if "e \<in> set es" "e \<noteq> (phantom, 0)" for e
  proof -
    have "fst e \<noteq> phantom" using es(1) that phantom_not_quantized by (auto simp: slot_ok_def)
    then have "e \<in> ref_entry ds ` set ms" using that(1) by (simp add: stored_def flip: st)
    then show ?thesis using box by (auto simp: ref_entry_def)
  qed
  moreover obtain e where "e \<in> set (stored es)" using st ms(2) by (metis ex_in_conv image_is_empty set_empty)
  then have "e \<in> set es" "e \<noteq> (phantom, 0)" by (auto simp: stored_def)
  ultimately show ?thesis using es(1) by (auto simp: covers_def)
qed

definition boxed :: "Node \<Rightarrow> bool" where
  "boxed nd \<longleftrightarrow> length (nMin nd) = 16 \<and> length (nMax nd) = 16"

text \<open>What a call that appends the blocks \<open>bs\<close> and the nodes \<open>ns\<close> has built.\<close>

definition built :: "Dataset \<Rightarrow> nat \<Rightarrow> nat list \<Rightarrow> nat \<Rightarrow> nat \<Rightarrow> block list \<Rightarrow> Node list \<Rightarrow> bool" where
  "built ds h ms b0 n0 bs ns \<longleftrightarrow>
     length bs \<le> length ms \<and> length ns < 2 * length ms \<and> 0 < length ns \<and> (\<forall>nd \<in> set ns. boxed nd) \<and>
     (\<forall>b \<in> set bs. length (fst b) = 112 \<and> length (snd b) = 8) \<and>
     (\<forall>e \<in> set (all_entries bs). slot_ok e) \<and> mset (stored (all_entries bs)) = mset (map (ref_entry ds) ms) \<and>
     (\<forall>N1 N2 E1 E2. length N1 = n0 \<longrightarrow> length E1 = 8 * b0 \<longrightarrow>
        kd_tree (N1 @ ns @ N2) (E1 @ all_entries bs @ E2) h n0 b0 (b0 + length bs))"

lemma built_leaf:
  assumes ms: "\<forall>i \<in> set ms. ref_ok ds i" "ms \<noteq> []" "length ms \<le> 128" and b0: "b0 < 2 ^ 32"
    and box: "\<forall>i \<in> set ms. in_box mn mx (vec_of (Vectors ds) i)" "length mn = 16" "length mx = 16"
    and bs: "length bs = (length ms + 7) div 8" "\<forall>b \<in> set bs. length (fst b) = 112 \<and> length (snd b) = 8"
      "all_entries bs = map (ref_entry ds) ms @ replicate (padn (length ms)) (phantom, 0)"
  shows "built ds h ms b0 n0 bs [\<lparr>nLeft = - 1, nRight = - 1, nBlockStart = of_nat b0, nLen = of_nat (length ms), nMin = mn, nMax = mx\<rparr>]"
proof -
  let ?nd = "\<lparr>nLeft = - 1, nRight = - 1, nBlockStart = of_nat b0, nLen = of_nat (length ms), nMin = mn, nMax = mx\<rparr>"
  have e: "\<forall>e \<in> set (all_entries bs). slot_ok e" using stored_refs(2) [OF ms(1)] by (auto simp: bs(3) slot_ok_def)
  have st: "stored (all_entries bs) = map (ref_entry ds) ms"
    using stored_refs(1) [OF ms(1)] by (simp add: bs(3)) (simp add: stored_def)
  have c: "covers ?nd (all_entries bs)" by (rule covers_refs [OF ms(1,2) _ e]) (use box st in simp_all)
  have l: "unat (of_nat (length ms) :: u32) = length ms" using ms(3) by simp
  have "0 < length bs" "length bs \<le> length ms" using ms(2) unfolding bs(1) by (cases ms; simp)+
  moreover have "kd_tree (N1 @ [?nd] @ N2) (E1 @ all_entries bs @ E2) h n0 b0 (b0 + length bs)"
    if "length N1 = n0" "length E1 = 8 * b0" for N1 N2 E1 E2
  proof (rule kd_leaf)
    have nd: "(N1 @ [?nd] @ N2) ! n0 = ?nd" using that(1) by (simp add: nth_append)
    show "n0 < length (N1 @ [?nd] @ N2)" "is_leaf ((N1 @ [?nd] @ N2) ! n0)" "unat (nBlockStart ((N1 @ [?nd] @ N2) ! n0)) = b0"
      "(unat (nLen ((N1 @ [?nd] @ N2) ! n0)) + 7) div 8 = b0 + length bs - b0"
      "unat (nLen ((N1 @ [?nd] @ N2) ! n0)) \<le> 128" "b0 < b0 + length bs"
      "8 * (b0 + length bs) \<le> length (E1 @ all_entries bs @ E2)"
      unfolding nd using that b0 ms(3) l bs(1) \<open>0 < length bs\<close> by (simp_all add: is_leaf_def)
    show "covers ((N1 @ [?nd] @ N2) ! n0) (seg (E1 @ all_entries bs @ E2) b0 (b0 + length bs))"
      unfolding nd using c that(2) by (subst seg_middle) simp_all
  qed
  moreover have "Suc 0 < 2 * length ms" using ms(2) by (cases ms) simp_all
  ultimately show ?thesis using e st bs(2) box(2,3) by (simp add: built_def boxed_def)
qed

lemma built_inner:
  assumes ms: "\<forall>i \<in> set ms. ref_ok ds i" "ms \<noteq> []" and p: "mset ms = mset ls + mset rs"
    and box: "\<forall>i \<in> set ms. in_box mn mx (vec_of (Vectors ds) i)" "length mn = 16" "length mx = 16" and n0: "n0 + 2 * length ms < 2 ^ 31"
    and L: "built ds h ls b0 (Suc n0) bl nl" and R: "built ds h rs (b0 + length bl) (Suc n0 + length nl) br nr"
  shows "built ds (Suc h) ms b0 n0 (bl @ br)
    (\<lparr>nLeft = of_nat (Suc n0), nRight = of_nat (Suc n0 + length nl), nBlockStart = 0, nLen = 0, nMin = mn, nMax = mx\<rparr> # nl @ nr)"
    (is "built ds (Suc h) ms b0 n0 (bl @ br) (?nd # nl @ nr)")
proof -
  have len: "length ms = length ls + length rs" using arg_cong [OF p, of size] by simp
  have e: "\<forall>e \<in> set (all_entries (bl @ br)). slot_ok e" using L R by (auto simp: built_def)
  have st: "mset (stored (all_entries (bl @ br))) = mset (map (ref_entry ds) ms)"
    using L R p by (simp add: built_def)
  have c: "covers ?nd (all_entries (bl @ br))" by (rule covers_refs [OF ms _ e st]) (use box in simp)
  have n: "length nl < 2 * length ls" "length nr < 2 * length rs" using L R by (simp_all add: built_def)
  have "kd_tree (N1 @ (?nd # nl @ nr) @ N2) (E1 @ all_entries (bl @ br) @ E2) (Suc h) n0 b0 (b0 + length (bl @ br))"
    if l: "length N1 = n0" "length E1 = 8 * b0" for N1 N2 E1 E2
  proof (rule kd_inner)
    have nd: "(N1 @ (?nd # nl @ nr) @ N2) ! n0 = ?nd" using l(1) by (simp add: nth_append)
    show "n0 < length (N1 @ (?nd # nl @ nr) @ N2)" using l(1) by simp
    show "sint (nLeft ((N1 @ (?nd # nl @ nr) @ N2) ! n0)) = int (Suc n0)"
      "sint (nRight ((N1 @ (?nd # nl @ nr) @ N2) ! n0)) = int (Suc n0 + length nl)"
      unfolding nd using n0 n len by (simp_all only: Node.select_convs, (subst sint_of_nat32; simp)+)
    show "covers ((N1 @ (?nd # nl @ nr) @ N2) ! n0) (seg (E1 @ all_entries (bl @ br) @ E2) b0 (b0 + length (bl @ br)))"
      unfolding nd using c l(2) by (subst seg_middle) simp_all
    have "kd_tree ((N1 @ [?nd]) @ nl @ (nr @ N2)) (E1 @ all_entries bl @ (all_entries br @ E2)) h (Suc n0) b0 (b0 + length bl)"
      using L l by (simp add: built_def del: append_assoc)
    then show "kd_tree (N1 @ (?nd # nl @ nr) @ N2) (E1 @ all_entries (bl @ br) @ E2) h (Suc n0) b0 (b0 + length bl)" by simp
    have "kd_tree ((N1 @ ?nd # nl) @ nr @ N2) ((E1 @ all_entries bl) @ all_entries br @ E2) h (Suc n0 + length nl)
        (b0 + length bl) (b0 + length bl + length br)"
      using R l by (simp add: built_def del: append_assoc)
    then show "kd_tree (N1 @ (?nd # nl @ nr) @ N2) (E1 @ all_entries (bl @ br) @ E2) h (Suc n0 + length nl)
        (b0 + length bl) (b0 + length (bl @ br))" by (simp add: add.assoc)
  qed
  moreover have "boxed ?nd" using box(2,3) by (simp add: boxed_def)
  ultimately show ?thesis using e st n len L R by (auto simp: built_def)
qed

lemma buildKDTree_built:
  assumes "\<forall>i \<in> set ms. ref_ok ds i" "ms \<noteq> []" "length ms \<le> 128 * 2 ^ h"
    and "length blocks + length ms < 2 ^ 32" "length nodes + 2 * length ms < 2 ^ 31"
  shows "\<exists>bs ns. buildKDTree ds ms (blocks, nodes) = Some (length nodes, blocks @ bs, nodes @ ns) \<and>
    built ds h ms (length blocks) (length nodes) bs ns"
  using assms
proof (induction "length ms" arbitrary: ms h blocks nodes rule: less_induct)
  case less
  note ms = less.prems(1,2)
  have "\<forall>i \<in> set ms. i * 14 + 14 \<le> length (Vectors ds)" using ms(1) by (simp add: ref_ok_def)
  from node_bbox_ok [OF this] obtain mn mx where box: "node_bbox (Vectors ds) ms = Some (mn, mx)"
    "\<forall>i \<in> set ms. in_box mn mx (vec_of (Vectors ds) i)" "length mn = 16" "length mx = 16" by blast
  show ?case
  proof (cases "length ms \<le> 128")
    case True
    from leaf_blocks_ok [OF ms(1)] obtain bs where bs: "leaf_blocks ds ms = Some bs" "length bs = (length ms + 7) div 8"
      "\<forall>b \<in> set bs. length (fst b) = 112 \<and> length (snd b) = 8"
      "all_entries bs = map (ref_entry ds) ms @ replicate (padn (length ms)) (phantom, 0)" by blast
    have "buildKDTree ds ms (blocks, nodes) = Some (length nodes, blocks @ bs, nodes @ [\<lparr>nLeft = - 1, nRight = - 1,
        nBlockStart = of_nat (length blocks), nLen = of_nat (length ms), nMin = mn, nMax = mx\<rparr>])"
      using True by (simp add: buildKDTree.simps box(1) bs(1) LeafSize_def upd_node_at Let_def)
    moreover have "length blocks < 2 ^ 32" using less.prems(4) by simp
    ultimately show ?thesis using built_leaf [OF ms True _ box(2-4) bs(2-4)] by blast
  next
    case False
    define ss where "ss = SliceStable (by_dim (Vectors ds) (widestDim mn mx)) ms"
    define mid where "mid = length ms div 2"
    have ss: "length ss = length ms" "set ss = set ms" "mset ss = mset ms" by (simp_all add: ss_def)
    obtain h' where h: "h = Suc h'" using False less.prems(3) by (cases h) auto
    have half: "length (take mid ss) = length ms div 2" "length (drop mid ss) = length ms - length ms div 2"
      using ss(1) by (simp_all add: mid_def)
    have sub: "\<forall>i \<in> set (take mid ss). ref_ok ds i" "\<forall>i \<in> set (drop mid ss). ref_ok ds i"
      using ms(1) ss(2) by (auto dest: in_set_takeD in_set_dropD)
    have lt: "length (take mid ss) < length ms" "length (drop mid ss) < length ms" "take mid ss \<noteq> []" "drop mid ss \<noteq> []"
      "length (take mid ss) \<le> 128 * 2 ^ h'" "length (drop mid ss) \<le> 128 * 2 ^ h'"
      using False less.prems(3) half by (auto simp: h simp flip: length_greater_0_conv)
    let ?nd = "\<lparr>nLeft = - 1, nRight = - 1, nBlockStart = 0, nLen = 0, nMin = mn, nMax = mx\<rparr>"
    have "\<exists>bs ns. buildKDTree ds (take mid ss) (blocks, nodes @ [?nd]) = Some (length (nodes @ [?nd]), blocks @ bs, (nodes @ [?nd]) @ ns) \<and>
        built ds h' (take mid ss) (length blocks) (length (nodes @ [?nd])) bs ns"
      using less.prems(4,5) half False by (intro less.hyps lt(1,3,5) sub(1)) auto
    then obtain bl nl where L: "buildKDTree ds (take mid ss) (blocks, nodes @ [?nd]) = Some (Suc (length nodes), blocks @ bl, nodes @ ?nd # nl)"
      "built ds h' (take mid ss) (length blocks) (Suc (length nodes)) bl nl" by auto
    have Lb: "length bl \<le> length (take mid ss)" "length nl < 2 * length (take mid ss)" using L(2) by (simp_all add: built_def)
    have "\<exists>bs ns. buildKDTree ds (drop mid ss) (blocks @ bl, nodes @ ?nd # nl) =
          Some (length (nodes @ ?nd # nl), (blocks @ bl) @ bs, (nodes @ ?nd # nl) @ ns) \<and>
        built ds h' (drop mid ss) (length (blocks @ bl)) (length (nodes @ ?nd # nl)) bs ns"
      using less.prems(4,5) half Lb False by (intro less.hyps lt(2,4,6) sub(2)) auto
    then obtain br nr where R: "buildKDTree ds (drop mid ss) (blocks @ bl, nodes @ ?nd # nl) =
          Some (Suc (length nodes + length nl), blocks @ bl @ br, nodes @ ?nd # nl @ nr)"
        "built ds h' (drop mid ss) (length blocks + length bl) (Suc (length nodes) + length nl) br nr" by auto
    have "buildKDTree ds ms (blocks, nodes) = Some (length nodes, blocks @ bl @ br, nodes @
        (\<lparr>nLeft = of_nat (Suc (length nodes)), nRight = of_nat (Suc (length nodes) + length nl), nBlockStart = 0, nLen = 0, nMin = mn, nMax = mx\<rparr> # nl @ nr))"
      using False L(1) R(1) by (simp add: buildKDTree.simps [of ds ms] box(1) LeafSize_def Let_def ss_def [symmetric] mid_def [symmetric] upd_node_at)
    moreover have "mset ms = mset (take mid ss) + mset (drop mid ss)"
      using ss(3) by (metis append_take_drop_id mset_append)
    ultimately show ?thesis
      using built_inner [OF ms _ box(2-4) less.prems(5) L(2) R(2)] unfolding h by blast
  qed
qed

subsection \<open>The partitions\<close>

fun parts_ok :: "Node list \<Rightarrow> (i16 list \<times> u8) list \<Rightarrow> nat \<Rightarrow> Partition list \<Rightarrow> nat \<Rightarrow> nat \<Rightarrow> bool" where
  "parts_ok N E h [] s e \<longleftrightarrow> s = e"
| "parts_ok N E h (p # ps) s e \<longleftrightarrow>
     (\<exists>m. kd_tree N E h (unat (pRoot p)) s m \<and> pMin p = nMin (N ! unat (pRoot p)) \<and> pMax p = nMax (N ! unat (pRoot p)) \<and>
       parts_ok N E h ps m e)"

lemma PartitionKey_less: "unat (PartitionKey v) < 256"
proof -
  have kb: "take_bit 8 (key_bit b i k) = key_bit b i k" if "take_bit 8 k = k" "i < 8" for b i k
  proof -
    have "take_bit 8 (push_bit i (1 :: u32)) = push_bit i 1" using that(2) by (intro bit_word_eqI) (auto simp: bit_simps)
    then show ?thesis using that(1) by (simp add: key_bit_def)
  qed
  have mb: "take_bit 8 (or k (push_bit 4 (mcc_bucket x))) = or k (push_bit 4 (mcc_bucket x))" if "take_bit 8 k = k" for k x
    using that by (simp add: mcc_bucket_def)
  have "take_bit 8 (PartitionKey v) = PartitionKey v"
    unfolding PartitionKey_def Let_def by (intro kb mb) simp_all
  then have "unat (PartitionKey v) = take_bit 8 (unat (PartitionKey v))" by (metis unsigned_take_bit_eq)
  also have "\<dots> < 2 ^ 8" by (rule take_bit_nat_less_exp)
  finally show ?thesis by simp
qed

definition group :: "Dataset \<Rightarrow> u32 \<Rightarrow> nat list" where
  "group ds k = filter (\<lambda>i. PartitionKey (vec_of (Vectors ds) i) = k) [0..<Count ds]"

lemma bucket_refs_ok:
  assumes len: "length (Vectors ds) = Count ds * 14" and n: "Count ds < 2 ^ 32"
  shows "\<exists>B. bucket_refs ds = Some B \<and> distinct (map fst B) \<and>
    (\<forall>k. map_of B k = (if group ds k = [] then None else Some (group ds k)))"
proof -
  define P where "P n B \<longleftrightarrow> distinct (map fst B) \<and> (\<forall>k. map_of B k =
    (let l = filter (\<lambda>i. PartitionKey (vec_of (Vectors ds) i) = k) [0..<n] in if l = [] then None else Some l))"
    for n and B :: "(u32 \<times> nat list) list"
  have "\<exists>B. bucket_refs ds = Some B \<and> P (length [0..<Count ds]) B"
    unfolding bucket_refs_def
  proof (rule ofold_prefix_rule)
    show "P 0 []" by (simp add: P_def)
    fix i B assume i: "i < length [0..<Count ds]" and P: "P i B"
    define k where "k = PartitionKey (vec_of (Vectors ds) i)"
    define b where "b = (case map_of B k of Some b \<Rightarrow> b | None \<Rightarrow> [])"
    have v: "vector_at (Vectors ds) i = Some (vec_of (Vectors ds) i)" using i len by (intro vector_at_Some) simp
    have u: "unat (of_nat i :: u32) = i" using i n by simp
    have b: "b = filter (\<lambda>i. PartitionKey (vec_of (Vectors ds) i) = k) [0..<i]" using P by (auto simp: b_def P_def Let_def split: option.splits if_splits)
    have "P (Suc i) (AList.update k (b @ [i]) B)"
      using P by (auto simp: P_def distinct_update update_conv' Let_def b k_def)
    then show "\<exists>B'. (do { v \<leftarrow> vector_at (Vectors ds) ([0..<Count ds] ! i);
         let pk = PartitionKey v;
         let b = (case map_of B pk of Some b \<Rightarrow> b | None \<Rightarrow> []);
         Some (AList.update pk (b @ [unat (of_nat ([0..<Count ds] ! i) :: u32)]) B) }) = Some B' \<and> P (Suc i) B'"
      using i v u by (simp add: Let_def k_def [symmetric] b_def [symmetric])
  qed
  then show ?thesis by (auto simp: P_def group_def Let_def)
qed

lemma mset_groups:
  "distinct ks \<Longrightarrow> mset (concat (map (\<lambda>k. filter (\<lambda>i. f i = k) xs) ks)) = mset (filter (\<lambda>i. f i \<in> set ks) xs)"
proof (induction ks)
  case (Cons k ks)
  have "filter_mset (\<lambda>i. f i = k) M + filter_mset (\<lambda>i. f i \<in> set ks) M = filter_mset (\<lambda>i. f i = k \<or> f i \<in> set ks) M" for M
    using Cons.prems by (induction M) auto
  then show ?case using Cons by simp
qed simp

lemma add_partitions:
  assumes "\<forall>kb \<in> set kbs. snd kb \<noteq> [] \<and> (\<forall>i \<in> set (snd kb). ref_ok ds i)"
    and "length blocks + length (concat (map snd kbs)) < 2 ^ 32 " "length nodes + 2 * length (concat (map snd kbs)) < 2 ^ 31"
  shows "\<exists>ps bs ns. ofold (add_partition ds) kbs (parts, blocks, nodes) = Some (parts @ ps, blocks @ bs, nodes @ ns) \<and>
    length bs \<le> length (concat (map snd kbs)) \<and> (\<forall>b \<in> set bs. length (fst b) = 112 \<and> length (snd b) = 8) \<and>
    map pKey ps = map fst kbs \<and> (\<forall>nd \<in> set ns. boxed nd) \<and> (\<forall>p \<in> set ps. length (pMin p) = 16 \<and> length (pMax p) = 16) \<and>
    length ns \<le> 2 * length (concat (map snd kbs)) \<and> (\<forall>e \<in> set (all_entries bs). slot_ok e) \<and>
    mset (stored (all_entries bs)) = mset (map (ref_entry ds) (concat (map snd kbs))) \<and>
    (\<forall>N1 N2 E1 E2. length N1 = length nodes \<longrightarrow> length E1 = 8 * length blocks \<longrightarrow>
      parts_ok (N1 @ ns @ N2) (E1 @ all_entries bs @ E2) 25 ps (length blocks) (length blocks + length bs))"
  using assms
proof (induction kbs arbitrary: parts blocks nodes)
  case Nil
  then show ?case by (simp add: all_entries_def stored_def)
next
  case (Cons kb kbs)
  obtain k ms where kb: "kb = (k, ms)" by force
  have ms: "\<forall>i \<in> set ms. ref_ok ds i" "ms \<noteq> []" using Cons.prems(1) kb by auto
  have sz: "length blocks + length ms < 2 ^ 32" "length nodes + 2 * length ms < 2 ^ 31" using Cons.prems(2,3) by (auto simp: kb)
  have "length ms \<le> 128 * 2 ^ 25" using sz(2) by simp
  from buildKDTree_built [OF ms this sz] obtain b1 n1 where
    1: "buildKDTree ds ms (blocks, nodes) = Some (length nodes, blocks @ b1, nodes @ n1)"
    and B: "built ds 25 ms (length blocks) (length nodes) b1 n1" by blast
  have ne: "0 < length n1" "length b1 \<le> length ms" "length n1 < 2 * length ms" using B by (auto simp: built_def)
  define p where "p = \<lparr>pKey = k, pRoot = of_nat (length nodes), pMin = nMin (n1 ! 0), pMax = nMax (n1 ! 0)\<rparr>"
  have ap: "add_partition ds kb (parts, blocks, nodes) = Some (parts @ [p], blocks @ b1, nodes @ n1)"
    using ne(1) by (simp add: add_partition_def kb 1 get_Some nth_append p_def)
  have "length (blocks @ b1) + length (concat (map snd kbs)) < 2 ^ 32" "length (nodes @ n1) + 2 * length (concat (map snd kbs)) < 2 ^ 31"
    using Cons.prems(2,3) ne by (auto simp: kb)
  from Cons.IH [OF _ this, of "parts @ [p]"] Cons.prems(1) obtain ps bs ns where
    2: "ofold (add_partition ds) kbs (parts @ [p], blocks @ b1, nodes @ n1) = Some ((parts @ [p]) @ ps, (blocks @ b1) @ bs, (nodes @ n1) @ ns)"
    and IH: "length bs \<le> length (concat (map snd kbs))" "\<forall>b \<in> set bs. length (fst b) = 112 \<and> length (snd b) = 8"
      "map pKey ps = map fst kbs" "\<forall>e \<in> set (all_entries bs). slot_ok e"
      "\<forall>nd \<in> set ns. boxed nd" "\<forall>p \<in> set ps. length (pMin p) = 16 \<and> length (pMax p) = 16"
      "length ns \<le> 2 * length (concat (map snd kbs))"
      "mset (stored (all_entries bs)) = mset (map (ref_entry ds) (concat (map snd kbs)))"
      "\<And>N1 N2 E1 E2. length N1 = length (nodes @ n1) \<Longrightarrow> length E1 = 8 * length (blocks @ b1) \<Longrightarrow>
        parts_ok (N1 @ ns @ N2) (E1 @ all_entries bs @ E2) 25 ps (length (blocks @ b1)) (length (blocks @ b1) + length bs)" by auto
  have po: "parts_ok (N1 @ (n1 @ ns) @ N2) (E1 @ all_entries (b1 @ bs) @ E2) 25 (p # ps) (length blocks) (length blocks + length (b1 @ bs))"
    if l: "length N1 = length nodes" "length E1 = 8 * length blocks" for N1 N2 E1 E2
  proof -
    have "unat (pRoot p) = length nodes" using sz(2) by (simp add: p_def)
    moreover have "(N1 @ (n1 @ ns) @ N2) ! length nodes = n1 ! 0" using l(1) ne(1) by (simp add: nth_append)
    moreover have "kd_tree (N1 @ n1 @ (ns @ N2)) (E1 @ all_entries b1 @ (all_entries bs @ E2)) 25 (length nodes)
        (length blocks) (length blocks + length b1)"
      using B l by (simp add: built_def del: append_assoc)
    moreover have "parts_ok ((N1 @ n1) @ ns @ N2) ((E1 @ all_entries b1) @ all_entries bs @ E2) 25 ps
        (length (blocks @ b1)) (length (blocks @ b1) + length bs)"
      using l by (intro IH(9)) simp_all
    ultimately show ?thesis by (auto simp: p_def add.assoc)
  qed
  have "ofold (add_partition ds) (kb # kbs) (parts, blocks, nodes) = Some (parts @ p # ps, blocks @ b1 @ bs, nodes @ n1 @ ns)"
    using ap 2 by simp
  moreover have "length (b1 @ bs) \<le> length (concat (map snd (kb # kbs)))" using ne IH(1) by (simp add: kb)
  moreover have "\<forall>b \<in> set (b1 @ bs). length (fst b) = 112 \<and> length (snd b) = 8" using B IH(2) by (auto simp: built_def)
  moreover have "map pKey (p # ps) = map fst (kb # kbs)" using IH(3) by (simp add: p_def kb)
  moreover have "\<forall>e \<in> set (all_entries (b1 @ bs)). slot_ok e" using B IH(4) by (auto simp: built_def)
  moreover have "mset (stored (all_entries (b1 @ bs))) = mset (map (ref_entry ds) (concat (map snd (kb # kbs))))"
    using B IH(8) by (simp add: built_def kb)
  moreover have "boxed (n1 ! 0)" using B ne(1) by (simp add: built_def)
  then have "\<forall>nd \<in> set (n1 @ ns). boxed nd" "\<forall>p \<in> set (p # ps). length (pMin p) = 16 \<and> length (pMax p) = 16"
    using B IH(5,6) by (auto simp: built_def boxed_def p_def)
  moreover have "length (n1 @ ns) \<le> 2 * length (concat (map snd (kb # kbs)))" using ne(3) IH(7) by (simp add: kb)
  ultimately show ?case using po by blast
qed

lemma flatten_concat:
  assumes "\<forall>b \<in> set bs. length b = k"
  shows "flatten k bs (replicate (length bs * k) z) = Some (concat bs)"
proof -
  define P where "P i s \<longleftrightarrow> s = concat (take i bs) @ replicate ((length bs - i) * k) z" for i s
  have "\<exists>s. flatten k bs (replicate (length bs * k) z) = Some s \<and> P (length (enumerate 0 bs)) s"
    unfolding flatten_def
  proof (rule ofold_prefix_rule)
    show "P 0 (replicate (length bs * k) z)" by (simp add: P_def)
    fix i s assume i: "i < length (enumerate 0 bs)" and P: "P i s"
    have l: "length (concat (take i bs)) = i * k"
      using i assms by (subst length_concat_const [where k = k]) (auto dest: in_set_takeD)
    have r: "(length bs - i) * k = k + (length bs - Suc i) * k"
      using i by (simp flip: mult_Suc add: Suc_diff_Suc)
    have b: "length (bs ! i) = k" using assms i by simp
    have e: "enumerate 0 bs ! i = (i, bs ! i)" using i by (simp add: nth_enumerate_eq)
    have "copy_at (i * k) (bs ! i) s = Some (concat (take i bs) @ bs ! i @ replicate ((length bs - Suc i) * k) z)"
      using P l b by (simp add: copy_at_def P_def r)
    then show "\<exists>s'. (case enumerate 0 bs ! i of (b, blk) \<Rightarrow> copy_at (b * k) blk) s = Some s' \<and> P (Suc i) s'"
      using i by (simp add: e P_def take_Suc_conv_app_nth)
  qed
  then show ?thesis by (simp add: P_def)
qed

subsection \<open>Build\<close>

definition sp_entries :: "SpecialistIndex \<Rightarrow> (i16 list \<times> u8) list" where
  "sp_entries idx = map (\<lambda>p. (slot_vec (sBlockData idx) p, sLabels idx ! p)) [0..<length (sLabels idx)]"

definition sp_wf :: "SpecialistIndex \<Rightarrow> bool" where
  "sp_wf idx \<longleftrightarrow> length (sBlockData idx) = 14 * length (sLabels idx) \<and>
     (\<exists>B. length (sLabels idx) = 8 * B \<and> B < 2 ^ 32 \<and> parts_ok (sNodes idx) (sp_entries idx) 25 (sPartitions idx) 0 B) \<and>
     length (sPartitions idx) \<le> 256 \<and> distinct (map pKey (sPartitions idx)) \<and> (\<forall>e \<in> set (sp_entries idx). slot_ok e) \<and>
     (\<forall>nd \<in> set (sNodes idx). boxed nd) \<and> (\<forall>p \<in> set (sPartitions idx). length (pMin p) = 16 \<and> length (pMax p) = 16) \<and>
     unat (sPartCount idx) = length (sPartitions idx) \<and> unat (sNodeCount idx) = length (sNodes idx) \<and>
     8 * unat (sBlockCount idx) = length (sLabels idx)"

lemma entries_flat:
  assumes bs: "\<forall>b \<in> set bs. length (fst b) = 112 \<and> length (snd b) = 8"
  shows "map (\<lambda>p. (slot_vec (concat (map fst bs)) p, concat (map snd bs) ! p)) [0..<8 * length bs] = all_entries bs"
proof -
  have f: "\<forall>x \<in> set (map fst bs). length x = 112" "\<forall>x \<in> set (map snd bs). length x = 8" using bs by auto
  have len: "length (concat (map fst bs)) = length bs * 112" "length (concat (map snd bs)) = length bs * 8"
    using length_concat_const [OF f(1)] length_concat_const [OF f(2)] by simp_all
  have "map (\<lambda>p. (slot_vec (concat (map fst bs)) p, concat (map snd bs) ! p)) (map (\<lambda>l. b * 8 + l) [0..<8]) = block_entries (bs ! b)"
    if b: "b < length bs" for b
  proof -
    have "b * 112 + 112 \<le> length (concat (map fst bs))" "b * 8 + 8 \<le> length (concat (map snd bs))" using b by (simp_all add: len)
    then have "slot_vec (concat (map fst bs)) (b * 8 + l) = lane_vec (fst (bs ! b)) l \<and> concat (map snd bs) ! (b * 8 + l) = snd (bs ! b) ! l"
      if "l < 8" for l
      using that b slot_vec_lane [of b "concat (map fst bs)" l] concat_chunk [OF f(1), of b] concat_chunk [OF f(2), of b]
      by (metis (no_types, lifting) add_leD1 length_map nth_drop nth_map nth_take)
    then show ?thesis by (simp add: block_entries_def)
  qed
  then have "map (\<lambda>b. map (\<lambda>p. (slot_vec (concat (map fst bs)) p, concat (map snd bs) ! p)) (map (\<lambda>l. b * 8 + l) [0..<8])) [0..<length bs] =
      map block_entries bs" by (intro nth_equalityI) simp_all
  then have "concat (map (\<lambda>b. map (\<lambda>p. (slot_vec (concat (map fst bs)) p, concat (map snd bs) ! p)) (map (\<lambda>l. b * 8 + l) [0..<8])) [0..<length bs]) =
      all_entries bs" by (simp only: all_entries_def)
  moreover have "concat (map (\<lambda>b. map F (map (\<lambda>l. b * 8 + l) [0..<8])) [0..<length bs]) = map F [0..<8 * length bs]" for F :: "nat \<Rightarrow> i16 list \<times> u8"
    using arg_cong [OF upt_mult_8 [of 0 "length bs"], of "map F"] by (simp only: map_concat map_map comp_def mult_0_right)
  ultimately show ?thesis by (simp only:)
qed

lemma sp_Build_wf:
  assumes ds: "dataset_ok ds" and n: "Count ds * 112 < 2 ^ 32"
  shows "\<exists>idx. sp_Build ds = Some idx \<and> sp_wf idx \<and> unat (sBlockCount idx) \<le> Count ds \<and>
    mset (stored (sp_entries idx)) = mset (labelled (Vectors ds) (DLabels ds) (Count ds))"
proof -
  have d: "length (Vectors ds) = Count ds * 14" "length (DLabels ds) = Count ds" "\<forall>l \<in> set (DLabels ds). l \<le> 1"
    "\<forall>x \<in> set (Vectors ds). \<bar>sint x\<bar> \<le> 10000" using ds by (auto simp: dataset_ok_def)
  have n32: "Count ds < 2 ^ 32" using n by simp
  obtain B where B: "bucket_refs ds = Some B" "distinct (map fst B)"
    "\<And>k. map_of B k = (if group ds k = [] then None else Some (group ds k))" using bucket_refs_ok [OF d(1) n32] by blast
  define keys where "keys = sort (map fst B)"
  define kbs where "kbs = map (\<lambda>k. (k, the (map_of B k))) keys"
  have keys: "distinct keys" "set keys = {k. group ds k \<noteq> []}"
  proof -
    show "distinct keys" using B(2) by (simp add: keys_def)
    have "set keys = dom (map_of B)" by (simp add: keys_def dom_map_of_conv_image_fst)
    then show "set keys = {k. group ds k \<noteq> []}" by (auto simp: B(3) split: if_splits)
  qed
  have kb: "kbs = map (\<lambda>k. (k, group ds k)) keys"
    unfolding kbs_def by (rule map_cong) (use keys(2) in \<open>auto simp: B(3)\<close>)
  have all: "mset (concat (map snd kbs)) = mset [0..<Count ds]"
  proof -
    have "map snd kbs = map (\<lambda>k. filter (\<lambda>i. PartitionKey (vec_of (Vectors ds) i) = k) [0..<Count ds]) keys"
      by (simp add: kb group_def)
    then have "mset (concat (map snd kbs)) = mset (filter (\<lambda>i. PartitionKey (vec_of (Vectors ds) i) \<in> set keys) [0..<Count ds])"
      by (simp only: mset_groups [OF keys(1)])
    also have "filter (\<lambda>i. PartitionKey (vec_of (Vectors ds) i) \<in> set keys) [0..<Count ds] = [0..<Count ds]"
      by (rule filter_True) (auto simp: keys(2) group_def filter_empty_conv)
    finally show ?thesis .
  qed
  have tot: "length (concat (map snd kbs)) = Count ds" using mset_eq_length [OF all] by simp
  have ok: "ref_ok ds i" if "i < Count ds" for i
    using that d vec_of_ok [OF d(1,4) that] by (simp add: ref_ok_def ref_entry_def)
  have g: "\<forall>kb \<in> set kbs. snd kb \<noteq> [] \<and> (\<forall>i \<in> set (snd kb). ref_ok ds i)"
    using keys(2) ok by (auto simp: kb) (simp add: group_def)
  have "length ([] :: block list) + length (concat (map snd kbs)) < 2 ^ 32"
    "length ([] :: Node list) + 2 * length (concat (map snd kbs)) < 2 ^ 31" using n unfolding tot by simp_all
  from add_partitions [OF g this, of "[]"] obtain ps bs ns where
    1: "ofold (add_partition ds) kbs ([], [], []) = Some (ps, bs, ns)" "length bs \<le> Count ds"
      "\<forall>b \<in> set bs. length (fst b) = 112 \<and> length (snd b) = 8" "map pKey ps = map fst kbs"
      "\<forall>e \<in> set (all_entries bs). slot_ok e" "mset (stored (all_entries bs)) = mset (map (ref_entry ds) (concat (map snd kbs)))"
      "\<forall>nd \<in> set ns. boxed nd" "\<forall>p \<in> set ps. length (pMin p) = 16 \<and> length (pMax p) = 16" "length ns \<le> 2 * Count ds"
    and po: "\<And>N1 N2 E1 E2. length N1 = length ([] :: Node list) \<Longrightarrow> length E1 = 8 * length ([] :: block list) \<Longrightarrow>
      parts_ok (N1 @ ns @ N2) (E1 @ all_entries bs @ E2) 25 ps (length ([] :: block list)) (length ([] :: block list) + length bs)"
    unfolding tot by auto
  have lb: "length bs * 112 < 2 ^ 32" using n 1(2) by (meson le_less_trans mult_le_mono1)
  have uw: "unat (of_nat (length bs) * 14 * 8 :: u32) = length bs * 112" "unat (of_nat (length bs) * 8 :: u32) = length bs * 8"
  proof -
    have "(of_nat (length bs) * 14 * 8 :: u32) = of_nat (length bs * 112)" "(of_nat (length bs) * 8 :: u32) = of_nat (length bs * 8)" by simp_all
    moreover have "length bs * 8 < 2 ^ 32" using lb by simp
    ultimately show "unat (of_nat (length bs) * 14 * 8 :: u32) = length bs * 112" "unat (of_nat (length bs) * 8 :: u32) = length bs * 8"
      using lb by (simp_all only: unat_u32)
  qed
  have fl: "flatten 112 (map fst bs) (replicate (length bs * 112) 0) = Some (concat (map fst bs))"
    "flatten 8 (map snd bs) (replicate (length bs * 8) 0) = Some (concat (map snd bs))"
    using flatten_concat [of "map fst bs" 112 0] flatten_concat [of "map snd bs" 8 0] 1(3) by auto
  define idx where "idx = \<lparr>sN = of_nat (Count ds), sPartCount = of_nat (length keys), sNodeCount = of_nat (length ns),
    sBlockCount = of_nat (length bs), sPartitions = ps, sNodes = ns, sBlockData = concat (map fst bs), sLabels = concat (map snd bs)\<rparr>"
  have b: "sp_Build ds = Some idx"
    unfolding sp_Build_def B(1) Option.bind.simps Let_def keys_def [symmetric] kbs_def [symmetric] 1(1) prod.case uw fl idx_def ..
  have ll: "length (concat (map fst bs)) = length bs * 112" "length (concat (map snd bs)) = length bs * 8"
    using length_concat_const [of "map fst bs" 112] length_concat_const [of "map snd bs" 8] 1(3) by auto
  have e: "sp_entries idx = all_entries bs"
    using entries_flat [OF 1(3)] by (simp add: sp_entries_def idx_def ll mult.commute del: map_map)
  have "distinct (map pKey ps)" "length ps = length keys"
  proof -
    have "map fst kbs = keys" by (simp add: kb comp_def)
    then show "distinct (map pKey ps)" "length ps = length keys" using 1(4) keys(1) by (simp, metis length_map)
  qed
  moreover have k256: "length keys \<le> 256"
  proof -
    have "unat ` set keys \<subseteq> {..<256}"
      using PartitionKey_less by (auto simp: keys(2) group_def filter_empty_conv)
    then have "card (unat ` set keys) \<le> card {..<256 :: nat}" by (intro card_mono) auto
    moreover have "card (unat ` set keys) = card (set keys)" by (rule card_image) (auto simp: inj_on_def word_unat_eq_iff)
    ultimately show ?thesis using keys(1) by (simp add: distinct_card)
  qed
  moreover have "parts_ok ns (all_entries bs) 25 ps 0 (length bs)" using po [of "[]" "[]" "[]" "[]"] by simp
  moreover have "unat (of_nat (length keys) :: u32) = length keys" "unat (of_nat (length ns) :: u32) = length ns"
    "unat (of_nat (length bs) :: u32) = length bs" using k256 1(9) n lb by simp_all
  ultimately have "sp_wf idx" using 1(5,7,8) lb unfolding sp_wf_def e by (auto simp: idx_def ll)
  moreover have "unat (sBlockCount idx) \<le> Count ds" using 1(2) lb by (simp add: idx_def)
  moreover have "mset (stored (sp_entries idx)) = mset (labelled (Vectors ds) (DLabels ds) (Count ds))"
    unfolding e 1(6) mset_map all by (simp add: labelled_def ref_entry_def [abs_def])
  ultimately show ?thesis using b by blast
qed

end
