(* ===== verification/SpecialistSearch.thy ===== *)
theory SpecialistSearch
  imports Specialist
begin

text \<open>
  The search of the second index, \<open>internal/specialist/search.go\<close>: the partition with the
  query's own key first, then the others by ascending box distance, each by descending
  its tree with an explicit stack of 64 entries.  \<open>kd_loop_done\<close> shows that on a
  well-formed tree the loop ends, never drops a subtree because the stack is full, and
  leaves the top five as inserting every slot of the tree does; \<open>sp_FraudCount_eq\<close>
  carries this over to the whole index.
\<close>

subsection \<open>The scratch\<close>

definition TreeStackCap :: nat where "TreeStackCap = 64"

record SearchScratch =
  PartBounds :: "(fl \<times> u32) list"
  StackNodes :: "u32 list"
  StackBounds :: "fl list"
  SpTop :: Top5
  SpBlockSum :: "fl list"

definition new_search_scratch :: SearchScratch where
  \<comment> \<open>the zero value\<close>
  "new_search_scratch = \<lparr>PartBounds = replicate MaxPartitions (Fin 0, 0), StackNodes = replicate TreeStackCap 0,
     StackBounds = replicate TreeStackCap (Fin 0), SpTop = \<lparr>tdist = replicate 5 0, tlabel = replicate 5 0\<rparr>,
     SpBlockSum = replicate LANES (Fin 0)\<rparr>"

subsection \<open>Boxes and leaves\<close>

definition aabbLowerBoundF32 :: "bool \<Rightarrow> fl list \<Rightarrow> i16 list \<Rightarrow> i16 list \<Rightarrow> fl" where
  "aabbLowerBoundF32 fused q bmin bmax =
     fold (\<lambda>d s.
        let qd = q ! d; lo = fl_of_int F32 (sint (bmin ! d)); hi = fl_of_int F32 (sint (bmax ! d)) in
        if flt qd lo then let t = fsub F32 lo qd in fmac fused F32 s t t
        else if flt hi qd then let t = fsub F32 qd hi in fmac fused F32 s t t
        else s) [0..<14] (Fin 0)"

definition leaf_scan :: "target \<Rightarrow> fl list \<Rightarrow> i16 list \<Rightarrow> SpecialistIndex \<Rightarrow> nat \<Rightarrow> SearchScratch \<Rightarrow> SearchScratch option" where
  \<comment> \<open>one block\<close>
  "leaf_scan tgt qf qi idx b sc = do {
     let worst = sp_WorstF32 (SpTop sc);
     block \<leftarrow> gslice (sBlockData idx) (b * 112) (b * 112 + 112);
     let (alive, accs) = ScanBlock8AVX2 tgt qf block worst;
     if \<not> alive then Some (sc\<lparr>SpBlockSum := accs\<rparr>)
     else do {
       top \<leftarrow> rerank_lanes sp_InsertI64 qi block (sLabels idx) (b * 8) worst accs (SpTop sc);
       Some (sc\<lparr>SpBlockSum := accs, SpTop := top\<rparr>)
     }
   }"

definition scanLeaf :: "target \<Rightarrow> Node \<Rightarrow> fl list \<Rightarrow> i16 list \<Rightarrow> SpecialistIndex \<Rightarrow> SearchScratch \<Rightarrow> SearchScratch option" where
  "scanLeaf tgt node qf qi idx sc =
     ofold (\<lambda>b. leaf_scan tgt qf qi idx (unat (nBlockStart node + of_nat b))) [0..<unat ((nLen node + of_nat LANES - 1) div of_nat LANES)] sc"

subsection \<open>searchKDTree\<close>

definition push_node :: "nat \<Rightarrow> u32 \<Rightarrow> fl \<Rightarrow> SearchScratch \<Rightarrow> (nat \<times> SearchScratch) option" where
  "push_node stackLen i b sc = do {
     ns \<leftarrow> put (StackNodes sc) stackLen i;
     bs \<leftarrow> put (StackBounds sc) stackLen b;
     Some (stackLen + 1, sc\<lparr>StackNodes := ns, StackBounds := bs\<rparr>)
   }"

definition node_bound :: "target \<Rightarrow> fl list \<Rightarrow> SpecialistIndex \<Rightarrow> nat \<Rightarrow> fl option" where
  "node_bound tgt qf idx i = do { n \<leftarrow> get (sNodes idx) i; Some (aabbLowerBoundF32 (fuses tgt) qf (nMin n) (nMax n)) }"

definition visit ::
  "target \<Rightarrow> fl list \<Rightarrow> i16 list \<Rightarrow> SpecialistIndex \<Rightarrow> nat \<Rightarrow> u32 \<Rightarrow> fl \<Rightarrow> SearchScratch \<Rightarrow>
   (nat \<times> (u32 \<times> fl) option \<times> SearchScratch) option" where
  \<comment> \<open>one round of the loop up to the pop; with the child to descend into, if any\<close>
  "visit tgt qf qi idx stackLen current currentBound sc =
     (let worst = sp_WorstF32 (SpTop sc) in
      if \<not> flt currentBound worst then Some (stackLen, None, sc)
      else do {
        node \<leftarrow> get (sNodes idx) (unat current);
        if is_leaf node then do { sc \<leftarrow> scanLeaf tgt node qf qi idx sc; Some (stackLen, None, sc) }
        else do {
          lb \<leftarrow> node_bound tgt qf idx (nat (sint (nLeft node)));
          rb \<leftarrow> node_bound tgt qf idx (nat (sint (nRight node)));
          let (nearIdx, nearBound, farIdx, farBound) =
            (if fle lb rb then (nLeft node, lb, nRight node, rb) else (nRight node, rb, nLeft node, lb));
          (stackLen, sc) \<leftarrow> (if flt farBound worst \<and> stackLen < TreeStackCap then push_node stackLen farIdx farBound sc
                            else Some (stackLen, sc));
          Some (stackLen, if flt nearBound worst then Some (nearIdx, nearBound) else None, sc)
        }
      })"

partial_function (option) kd_loop ::
  "target \<Rightarrow> fl list \<Rightarrow> i16 list \<Rightarrow> SpecialistIndex \<Rightarrow> nat \<Rightarrow> u32 \<Rightarrow> fl \<Rightarrow> SearchScratch \<Rightarrow> SearchScratch option" where
  "kd_loop tgt qf qi idx stackLen current currentBound sc = do {
     (stackLen, down, sc) \<leftarrow> visit tgt qf qi idx stackLen current currentBound sc;
     (case down of
        Some (c, b) \<Rightarrow> kd_loop tgt qf qi idx stackLen c b sc
      | None \<Rightarrow>
          if stackLen = 0 then Some sc
          else do {
            c \<leftarrow> get (StackNodes sc) (stackLen - 1);
            b \<leftarrow> get (StackBounds sc) (stackLen - 1);
            kd_loop tgt qf qi idx (stackLen - 1) c b sc
          })
   }"

definition searchKDTree ::
  "target \<Rightarrow> u32 \<Rightarrow> fl \<Rightarrow> fl list \<Rightarrow> i16 list \<Rightarrow> SpecialistIndex \<Rightarrow> SearchScratch \<Rightarrow> SearchScratch option" where
  "searchKDTree tgt rootIdx rootBound qf qi idx sc = kd_loop tgt qf qi idx 0 rootIdx rootBound sc"

subsection \<open>FraudCount\<close>

definition part_bound :: "target \<Rightarrow> fl list \<Rightarrow> Partition \<Rightarrow> fl" where
  "part_bound tgt qf p = aabbLowerBoundF32 (fuses tgt) qf (pMin p) (pMax p)"

definition search_same :: "target \<Rightarrow> fl list \<Rightarrow> i16 list \<Rightarrow> SpecialistIndex \<Rightarrow> int \<Rightarrow> SearchScratch \<Rightarrow> SearchScratch option" where
  "search_same tgt qf qi idx sameKeyIdx sc =
     (if 0 \<le> sameKeyIdx then do {
        p \<leftarrow> get (sPartitions idx) (nat sameKeyIdx);
        let lb = part_bound tgt qf p;
        if flt lb (sp_WorstF32 (SpTop sc)) then searchKDTree tgt (pRoot p) lb qf qi idx sc else Some sc
      } else Some sc)"

definition collect_bounds :: "target \<Rightarrow> fl list \<Rightarrow> SpecialistIndex \<Rightarrow> int \<Rightarrow> SearchScratch \<Rightarrow> (nat \<times> SearchScratch) option" where
  "collect_bounds tgt qf idx sameKeyIdx sc =
     ofold (\<lambda>i (nOther, sc).
        if int i = sameKeyIdx then Some (nOther, sc)
        else do {
          pb \<leftarrow> put (PartBounds sc) nOther (part_bound tgt qf (sPartitions idx ! i), of_nat i);
          Some (nOther + 1, sc\<lparr>PartBounds := pb\<rparr>)
        }) [0..<length (sPartitions idx)] (0, sc)"

fun bound_shift :: "fl \<times> u32 \<Rightarrow> nat \<Rightarrow> (fl \<times> u32) list \<Rightarrow> nat \<times> (fl \<times> u32) list" where
  "bound_shift cur 0 bs = (0, bs)"
| "bound_shift cur (Suc j) bs =
     (if flt (fst cur) (fst (bs ! j)) then bound_shift cur j (bs[Suc j := bs ! j]) else (Suc j, bs))"

definition sort_bounds :: "(fl \<times> u32) list \<Rightarrow> (fl \<times> u32) list" where
  "sort_bounds bounds =
     fold (\<lambda>i bounds. let cur = bounds ! i; (p, bounds) = bound_shift cur i bounds in bounds[p := cur])
       [1..<length bounds] bounds"

fun walk :: "target \<Rightarrow> fl list \<Rightarrow> i16 list \<Rightarrow> SpecialistIndex \<Rightarrow> (fl \<times> u32) list \<Rightarrow> SearchScratch \<Rightarrow> SearchScratch option" where
  "walk tgt qf qi idx [] sc = Some sc"
| "walk tgt qf qi idx (entry # rest) sc =
     (if fle (sp_WorstF32 (SpTop sc)) (fst entry) then Some sc
      else do {
        p \<leftarrow> get (sPartitions idx) (unat (snd entry));
        sc \<leftarrow> searchKDTree tgt (pRoot p) (fst entry) qf qi idx sc;
        walk tgt qf qi idx rest sc
      })"

definition sp_FraudCount :: "target \<Rightarrow> fl list \<Rightarrow> i16 list \<Rightarrow> SpecialistIndex \<Rightarrow> SearchScratch \<Rightarrow> (u8 \<times> SearchScratch) option" where
  "sp_FraudCount tgt qf qi idx sc = do {
     let sc = sc\<lparr>SpTop := sp_Reset (SpTop sc)\<rparr>;
     let sameKeyIdx = PartitionByKey idx (PartitionKey qi);
     sc \<leftarrow> search_same tgt qf qi idx sameKeyIdx sc;
     (nOther, sc) \<leftarrow> collect_bounds tgt qf idx sameKeyIdx sc;
     let bounds = sort_bounds (take nOther (PartBounds sc));
     let sc = sc\<lparr>PartBounds := bounds @ drop nOther (PartBounds sc)\<rparr>;
     sc \<leftarrow> walk tgt qf qi idx bounds sc;
     Some (sp_FraudCount_top (SpTop sc), sc)
   }"

subsection \<open>The box bound\<close>

lemma aabb_acc:
  assumes len: "length qi = 14" and box: "\<forall>d<14. sint (bmin ! d) \<le> sint (bmax ! d)"
  shows "\<exists>r. aabbLowerBoundF32 fused (to_f32 qi) bmin bmax = Fin r \<and>
    acc_ok r (of_int (\<Sum>d<14. (box_gap (sint (qi ! d)) (sint (bmin ! d)) (sint (bmax ! d)))\<^sup>2)) 15"
  unfolding aabbLowerBoundF32_def
proof (rule gap_acc)
  show "\<bar>box_gap (sint (qi ! d)) (sint (bmin ! d)) (sint (bmax ! d))\<bar> \<le> 65536" for d by (intro box_gap_range i16_abs)
  fix d :: nat and r :: real assume d: "d < 14"
  define q lo hi where "q = sint (qi ! d)" and "lo = sint (bmin ! d)" and "hi = sint (bmax ! d)"
  have ab: "\<bar>q\<bar> \<le> 32768" "\<bar>lo\<bar> \<le> 32768" "\<bar>hi\<bar> \<le> 32768" unfolding q_def lo_def hi_def by (rule i16_abs)+
  have "lo \<le> hi" using box d by (simp add: lo_def hi_def)
  have e: "fl_of_int F32 lo = Fin (of_int lo)" "fl_of_int F32 hi = Fin (of_int hi)"
    using ab by (intro fl_of_int_exact; simp)+
  have g: "\<bar>q - hi\<bar> \<le> 2 ^ nat (prec F32)" "\<bar>lo - q\<bar> \<le> 2 ^ nat (prec F32)" using ab by auto
  from fround_of_int [OF g(1)] fround_of_int [OF g(2)]
  have f: "fsub F32 (Fin (of_int q)) (Fin (of_int hi)) = Fin (of_int (q - hi))" "fsub F32 (Fin (of_int lo)) (Fin (of_int q)) = Fin (of_int (lo - q))"
    by (simp_all add: fsub_def)
  let ?s = "(let qd = to_f32 qi ! d; lo = fl_of_int F32 (sint (bmin ! d)); hi = fl_of_int F32 (sint (bmax ! d)) in
      if flt qd lo then let t = fsub F32 lo qd in fmac fused F32 (Fin r) t t
      else if flt hi qd then let t = fsub F32 qd hi in fmac fused F32 (Fin r) t t else Fin r)"
  have "?s = (if q < lo then fmac fused F32 (Fin r) (Fin (of_int (lo - q))) (Fin (of_int (lo - q)))
      else if hi < q then fmac fused F32 (Fin r) (Fin (of_int (q - hi))) (Fin (of_int (q - hi))) else Fin r)"
    unfolding to_f32_nth [OF len d] Let_def q_def [symmetric] lo_def [symmetric] hi_def [symmetric] e f by simp
  then show "?s = fmac fused F32 (Fin r) (Fin (of_int (box_gap (sint (qi ! d)) (sint (bmin ! d)) (sint (bmax ! d)))))
        (Fin (of_int (box_gap (sint (qi ! d)) (sint (bmin ! d)) (sint (bmax ! d))))) \<or>
      ?s = Fin r \<and> box_gap (sint (qi ! d)) (sint (bmin ! d)) (sint (bmax ! d)) = 0"
    unfolding q_def [symmetric] lo_def [symmetric] hi_def [symmetric] box_gap_def using \<open>lo \<le> hi\<close>
    by (cases "q < lo"; cases "hi < q") simp_all
qed

definition bound_of :: "target \<Rightarrow> i16 list \<Rightarrow> Node \<Rightarrow> fl" where
  "bound_of tgt qi nd = aabbLowerBoundF32 (fuses tgt) (to_f32 qi) (nMin nd) (nMax nd)"

lemma covers_bound:
  assumes "covers nd es" "quantized qi"
  shows "\<exists>r. bound_of tgt qi nd = Fin r"
    and "w \<le> 2 ^ 62 \<Longrightarrow> fle (worst32 w) (bound_of tgt qi nd) \<Longrightarrow> e \<in> set es \<Longrightarrow> w \<le> sq_dist qi (fst e)"
proof -
  have len: "length qi = 14" using assms(2) by (simp add: quantized_def)
  obtain m where m: "m \<in> set es" "m \<noteq> (phantom, 0)" using assms(1) by (auto simp: covers_def)
  then have mb: "in_box (nMin nd) (nMax nd) (fst m)" "quantized (fst m)" using assms(1) by (auto simp: covers_def slot_ok_def)
  then have box: "\<forall>d<14. sint (nMin nd ! d) \<le> sint (nMax nd ! d)" by (force simp: in_box_def)
  note acc = aabb_acc [OF len box, of "fuses tgt"]
  show "\<exists>r. bound_of tgt qi nd = Fin r" using acc by (auto simp: bound_of_def)
  assume w: "w \<le> 2 ^ 62" and f: "fle (worst32 w) (bound_of tgt qi nd)" and e: "e \<in> set es"
  have p: "w \<le> sq_dist qi v" if "in_box (nMin nd) (nMax nd) v" for v
    using gap_prune [OF acc w that f [unfolded bound_of_def]] .
  show "w \<le> sq_dist qi (fst e)"
  proof (cases "e = (phantom, 0)")
    case True
    then show ?thesis using p [OF mb(1)] far_above_near [OF mb(2) assms(2)] by simp
  next
    case False
    then show ?thesis using p assms(1) e by (simp add: covers_def)
  qed
qed

lemma worst32_Fin: "0 < w \<Longrightarrow> w \<le> 2 ^ 62 \<Longrightarrow> \<exists>x. worst32 w = Fin x"
  using worst32_lower [of 0 w] by auto

subsection \<open>Leaves\<close>

definition sc_ok :: "SearchScratch \<Rightarrow> bool" where
  "sc_ok sc \<longleftrightarrow> top_inv (SpTop sc) \<and> WorstI64 (SpTop sc) \<le> 2 ^ 62 \<and> length (PartBounds sc) = MaxPartitions \<and>
     length (StackNodes sc) = TreeStackCap \<and> length (StackBounds sc) = TreeStackCap"

definition sc_frame :: "SearchScratch \<Rightarrow> SearchScratch \<Rightarrow> bool" where
  "sc_frame sc sc' \<longleftrightarrow> PartBounds sc' = PartBounds sc \<and> length (StackNodes sc') = length (StackNodes sc) \<and>
     length (StackBounds sc') = length (StackBounds sc)"

lemma sc_frame_trans: "sc_frame a b \<Longrightarrow> sc_frame b c \<Longrightarrow> sc_frame a c" and sc_frame_refl [simp]: "sc_frame a a"
  by (simp_all add: sc_frame_def)

lemma sc_ok_insert: "sc_ok sc \<Longrightarrow> SpTop sc' = search_top.insert_all cs (SpTop sc) \<Longrightarrow> sc_frame sc sc' \<Longrightarrow> sc_ok sc'"
  using search_top.inv_insert_all [of "SpTop sc" cs] search_top.worst_insert_all_le [of "SpTop sc" cs]
  by (auto simp: sc_ok_def sc_frame_def)

definition shape :: "SpecialistIndex \<Rightarrow> nat \<Rightarrow> bool" where
  "shape idx B \<longleftrightarrow> length (sLabels idx) = 8 * B \<and> length (sBlockData idx) = 112 * B \<and> B < 2 ^ 32"

lemma leaf_scan_eq:
  assumes ok: "sc_ok sc" and len: "length qi = 14" and sh: "shape idx B" "b < B"
  shows "\<exists>sc'. leaf_scan tgt (to_f32 qi) qi idx b sc = Some sc' \<and> sc_frame sc sc' \<and>
    StackNodes sc' = StackNodes sc \<and> StackBounds sc' = StackBounds sc \<and>
    SpTop sc' = search_top.insert_all (dataset_cands qi (seg (sp_entries idx) b (Suc b))) (SpTop sc)"
proof -
  define blk labels where "blk = take 112 (drop (b * 112) (sBlockData idx))" and "labels = take 8 (drop (b * 8) (sLabels idx))"
  have bl: "b * 112 + 112 \<le> length (sBlockData idx)" "b * 8 + 8 \<le> length (sLabels idx)" using sh by (auto simp: shape_def)
  have inv: "top_inv (SpTop sc)" "WorstI64 (SpTop sc) \<le> 2 ^ 62" using ok by (auto simp: sc_ok_def)
  obtain alive accs where k: "ScanBlock8AVX2 tgt (to_f32 qi) blk (worst32 (WorstI64 (SpTop sc))) = (alive, accs)" by force
  from specialist_blocks.block_step_eq [where tgt = tgt and block = blk and labels = labels, OF inv(1) len inv(2)] k
  have eq: "(if alive then rerank sp_InsertI64 qi blk labels (worst32 (WorstI64 (SpTop sc))) accs (SpTop sc) else SpTop sc) =
      specialist_top.insert_all (block_cands qi blk labels) (SpTop sc)" by simp
  have g: "gslice (sBlockData idx) (b * 112) (b * 112 + 112) = Some blk"
    using bl by (simp add: gslice_Some blk_def)
  note g = g rerank_lanes_eq [OF bl(2), folded labels_def]
  have "block_cands qi blk labels = dataset_cands qi (seg (sp_entries idx) b (Suc b))"
  proof -
    have "seg (sp_entries idx) b (Suc b) = map (\<lambda>p. (slot_vec (sBlockData idx) p, sLabels idx ! p)) (map (\<lambda>l. b * 8 + l) [0..<8])"
      using bl(2) by (intro nth_equalityI) (simp_all add: seg_def sp_entries_def mult.commute)
    then show ?thesis
      using bl by (simp add: block_cands_def dataset_cands_def blk_def labels_def slot_vec_lane)
  qed
  then show ?thesis
    using eq unfolding sp_InsertI64_eq
    by (cases alive) (simp_all add: leaf_scan_def g k sp_WorstF32_eq WorstF32_eq sc_frame_def sp_InsertI64_eq)
qed

lemma scanLeaf_eq:
  assumes ok: "sc_ok sc" and len: "length qi = 14" and sh: "shape idx B"
    and nd: "unat (nBlockStart nd) = s" "(unat (nLen nd) + 7) div 8 = e - s" "unat (nLen nd) \<le> 128" "s < e" "e \<le> B"
  shows "\<exists>sc'. scanLeaf tgt nd (to_f32 qi) qi idx sc = Some sc' \<and> sc_frame sc sc' \<and>
    StackNodes sc' = StackNodes sc \<and> StackBounds sc' = StackBounds sc \<and>
    SpTop sc' = search_top.insert_all (dataset_cands qi (seg (sp_entries idx) s e)) (SpTop sc)"
proof -
  have nb: "unat ((nLen nd + of_nat LANES - 1) div of_nat LANES) = e - s"
  proof -
    have "nLen nd + of_nat LANES - 1 = of_nat (unat (nLen nd) + 7)" by (simp add: LANES_def)
    moreover have "unat (of_nat (unat (nLen nd) + 7) :: u32) = unat (nLen nd) + 7" using nd(3) by (intro unat_u32) simp
    moreover have "unat (of_nat LANES :: u32) = 8" by (simp add: LANES_def)
    ultimately show ?thesis using nd(2) by (simp only: unat_div)
  qed
  define P where "P n sc' \<longleftrightarrow> sc_frame sc sc' \<and> StackNodes sc' = StackNodes sc \<and> StackBounds sc' = StackBounds sc \<and>
    SpTop sc' = search_top.insert_all (dataset_cands qi (seg (sp_entries idx) s (s + n))) (SpTop sc)" for n sc'
  have "\<exists>sc'. ofold (\<lambda>b. leaf_scan tgt (to_f32 qi) qi idx (unat (nBlockStart nd + of_nat b))) [0..<e - s] sc = Some sc' \<and>
      P (length [0..<e - s]) sc'"
  proof (rule ofold_prefix_rule)
    show "P 0 sc" by (simp add: P_def seg_def dataset_cands_def)
    fix n sc1 assume n: "n < length [0..<e - s]" and P: "P n sc1"
    have ok1: "sc_ok sc1" using P sc_ok_insert [OF ok] unfolding P_def by blast
    have b: "s + n < B" "s + n < 2 ^ 32" using n nd(5) sh by (auto simp: shape_def)
    have "nBlockStart nd + of_nat n = of_nat (s + n)" using nd(1) by auto
    then have u: "unat (nBlockStart nd + of_nat n) = s + n" using b(2) by (simp only: unat_u32)
    from leaf_scan_eq [OF ok1 len sh b(1), of tgt] obtain sc2 where
      2: "leaf_scan tgt (to_f32 qi) qi idx (s + n) sc1 = Some sc2" "sc_frame sc1 sc2" "StackNodes sc2 = StackNodes sc1"
        "StackBounds sc2 = StackBounds sc1"
        "SpTop sc2 = search_top.insert_all (dataset_cands qi (seg (sp_entries idx) (s + n) (Suc (s + n)))) (SpTop sc1)" by blast
    have "seg (sp_entries idx) s (s + Suc n) = seg (sp_entries idx) s (s + n) @ seg (sp_entries idx) (s + n) (Suc (s + n))"
      using seg_split [of s "s + n" "s + Suc n"] by simp
    then have "P (Suc n) sc2" using P 2 by (auto simp: P_def dataset_cands_def intro: sc_frame_trans)
    then show "\<exists>sc'. leaf_scan tgt (to_f32 qi) qi idx (unat (nBlockStart nd + of_nat ([0..<e - s] ! n))) sc1 = Some sc' \<and> P (Suc n) sc'"
      using n u 2(1) by simp
  qed
  then show ?thesis using nd(4) by (auto simp: scanLeaf_def nb P_def)
qed

subsection \<open>Descending a tree\<close>

definition stack_of :: "nat \<Rightarrow> SearchScratch \<Rightarrow> (u32 \<times> fl) list" where
  \<comment> \<open>the entries in use, the top first\<close>
  "stack_of n sc = rev (take n (zip (StackNodes sc) (StackBounds sc)))"

lemma stack_of_0 [simp]: "stack_of 0 sc = []"
  by (simp add: stack_of_def)

lemma stack_of_Suc:
  "sc_ok sc \<Longrightarrow> n < TreeStackCap \<Longrightarrow> stack_of (Suc n) sc = (StackNodes sc ! n, StackBounds sc ! n) # stack_of n sc"
  by (simp add: stack_of_def sc_ok_def take_Suc_conv_app_nth)

lemma push_node_eq:
  assumes "sc_ok sc" "n < TreeStackCap"
  shows "\<exists>sc'. push_node n i b sc = Some (Suc n, sc') \<and> stack_of (Suc n) sc' = (i, b) # stack_of n sc \<and>
    sc_ok sc' \<and> sc_frame sc sc' \<and> SpTop sc' = SpTop sc"
proof -
  define sc' where "sc' = sc\<lparr>StackNodes := (StackNodes sc)[n := i], StackBounds := (StackBounds sc)[n := b]\<rparr>"
  have "sc_ok sc'" "sc_frame sc sc'" "SpTop sc' = SpTop sc" using assms(1) by (simp_all add: sc_ok_def sc'_def sc_frame_def)
  moreover from this have "stack_of (Suc n) sc' = (i, b) # stack_of n sc'" using assms(2) assms(1)
    by (subst stack_of_Suc) (simp_all add: sc'_def sc_ok_def)
  moreover have "stack_of n sc' = stack_of n sc" by (simp add: stack_of_def sc'_def zip_update flip: take_zip)
  moreover have "push_node n i b sc = Some (Suc n, sc')"
    using assms by (simp add: push_node_def put_Some sc_ok_def sc'_def)
  ultimately show ?thesis by auto
qed

text \<open>An entry of the stack is a tree and its bound, low enough for the room that is left.\<close>

fun stack_inv :: "target \<Rightarrow> i16 list \<Rightarrow> SpecialistIndex \<Rightarrow> (u32 \<times> fl) list \<Rightarrow> (nat \<times> nat) list \<Rightarrow> bool" where
  "stack_inv tgt qi idx [] rs \<longleftrightarrow> rs = []"
| "stack_inv tgt qi idx ((c, b) # st) rs \<longleftrightarrow>
     (\<exists>h s e rs'. rs = (s, e) # rs' \<and> kd_tree (sNodes idx) (sp_entries idx) h (unat c) s e \<and>
        b = bound_of tgt qi (sNodes idx ! unat c) \<and> h + length st \<le> TreeStackCap \<and> stack_inv tgt qi idx st rs')"

definition cands_of :: "i16 list \<Rightarrow> SpecialistIndex \<Rightarrow> (nat \<times> nat) list \<Rightarrow> (int \<times> u8) list" where
  "cands_of qi idx rs = concat (map (\<lambda>(s, e). dataset_cands qi (seg (sp_entries idx) s e)) rs)"

lemma cands_of_simps [simp]:
  "cands_of qi idx [] = []"
  "cands_of qi idx ((s, e) # rs) = dataset_cands qi (seg (sp_entries idx) s e) @ cands_of qi idx rs"
  by (simp_all add: cands_of_def)

definition scans_all :: "i16 list \<Rightarrow> SpecialistIndex \<Rightarrow> SearchScratch \<Rightarrow> (nat \<times> nat) list \<Rightarrow> SearchScratch option \<Rightarrow> bool" where
  \<comment> \<open>the run ends with the top five that inserting the slots of these ranges gives\<close>
  "scans_all qi idx sc rs r \<longleftrightarrow> (\<exists>sc' cs. r = Some sc' \<and> sc_frame sc sc' \<and>
     SpTop sc' = search_top.insert_all cs (SpTop sc) \<and> mset cs = mset (cands_of qi idx rs))"

lemma scanned_step:
  assumes "scans_all qi idx sc1 rs r" "sc_frame sc sc1"
    "SpTop sc1 = search_top.insert_all (dataset_cands qi (seg (sp_entries idx) s e)) (SpTop sc)"
  shows "scans_all qi idx sc ((s, e) # rs) r"
proof -
  obtain sc' cs where 1: "r = Some sc'" "sc_frame sc1 sc'" "SpTop sc' = search_top.insert_all cs (SpTop sc1)"
    "mset cs = mset (cands_of qi idx rs)" using assms(1) by (auto simp: scans_all_def)
  have "SpTop sc' = search_top.insert_all (dataset_cands qi (seg (sp_entries idx) s e) @ cs) (SpTop sc)" using 1(3) assms(3) by simp
  moreover have "mset (dataset_cands qi (seg (sp_entries idx) s e) @ cs) = mset (cands_of qi idx ((s, e) # rs))" using 1(4) by simp
  ultimately show ?thesis using 1(1) sc_frame_trans [OF assms(2) 1(2)] unfolding scans_all_def by blast
qed

lemma scanned_cong: "scans_all qi idx sc rs r \<Longrightarrow> mset (cands_of qi idx rs) = mset (cands_of qi idx rs') \<Longrightarrow> scans_all qi idx sc rs' r"
  by (auto simp: scans_all_def)

lemma skip_tree:
  \<comment> \<open>a tree whose bound has reached the threshold holds nothing that would be kept\<close>
  assumes t: "kd_tree (sNodes idx) (sp_entries idx) h i s e" and q: "quantized qi" and ok: "sc_ok sc"
    and f: "\<not> flt (bound_of tgt qi (sNodes idx ! i)) (sp_WorstF32 (SpTop sc))"
  shows "SpTop sc = search_top.insert_all (dataset_cands qi (seg (sp_entries idx) s e)) (SpTop sc)"
proof -
  have c: "covers (sNodes idx ! i) (seg (sp_entries idx) s e)" using kd_tree_range [OF t] by simp
  have wo: "top_inv (SpTop sc)" "WorstI64 (SpTop sc) \<le> 2 ^ 62" using ok by (auto simp: sc_ok_def)
  have "WorstI64 (SpTop sc) \<le> sq_dist qi (fst x)" if x: "x \<in> set (seg (sp_entries idx) s e)" for x
  proof (cases "0 < WorstI64 (SpTop sc)")
    case True
    obtain r where r: "bound_of tgt qi (sNodes idx ! i) = Fin r" using covers_bound(1) [OF c q] by blast
    obtain y where y: "worst32 (WorstI64 (SpTop sc)) = Fin y" using worst32_Fin [OF True wo(2)] by blast
    have "fle (worst32 (WorstI64 (SpTop sc))) (bound_of tgt qi (sNodes idx ! i))"
      using f r y by (simp add: sp_WorstF32_eq WorstF32_eq)
    from covers_bound(2) [OF c q wo(2) this x] show ?thesis .
  next
    case False
    then show ?thesis using sq_dist_nonneg [of qi "fst x"] by simp
  qed
  then show ?thesis
    using wo(1) by (subst search_top.insert_all_skip) (auto simp: dataset_cands_def)
qed
lemma scanned_start:
  "scans_all qi idx sc1 rs r \<Longrightarrow> sc_frame sc sc1 \<Longrightarrow> SpTop sc1 = SpTop sc \<Longrightarrow> scans_all qi idx sc rs r"
  by (auto simp: scans_all_def intro: sc_frame_trans)

lemma length_stack_of: "sc_ok sc \<Longrightarrow> n \<le> TreeStackCap \<Longrightarrow> length (stack_of n sc) = n"
  by (simp add: stack_of_def sc_ok_def)

lemma unat_sint: "sint w = int l \<Longrightarrow> unat w = l" for w :: "32 word"
proof -
  assume s: "sint w = int l"
  have "w = of_int (sint w)" by simp
  then have "w = of_nat l" unfolding s by simp
  moreover have "l < 2 ^ 32" using s sint_range_size [of w] by (simp add: word_size)
  ultimately show ?thesis by simp
qed

definition work :: "(nat \<times> nat) list \<Rightarrow> nat" where
  "work rs = (\<Sum>(s, e)\<leftarrow>rs. 2 * (e - s) - 1)"

lemma work_simps [simp]: "work [] = 0" "work ((s, e) # rs) = (2 * (e - s) - 1) + work rs"
  by (simp_all add: work_def)

definition resume :: "target \<Rightarrow> i16 list \<Rightarrow> SpecialistIndex \<Rightarrow> nat \<Rightarrow> SearchScratch \<Rightarrow> SearchScratch option" where
  "resume tgt qi idx n sc =
     (if n = 0 then Some sc
      else do {
        c \<leftarrow> get (StackNodes sc) (n - 1);
        b \<leftarrow> get (StackBounds sc) (n - 1);
        kd_loop tgt (to_f32 qi) qi idx (n - 1) c b sc
      })"

lemma kd_loop_resume:
  "kd_loop tgt (to_f32 qi) qi idx n c b sc = do {
     (n, down, sc) \<leftarrow> visit tgt (to_f32 qi) qi idx n c b sc;
     (case down of Some (c, b) \<Rightarrow> kd_loop tgt (to_f32 qi) qi idx n c b sc | None \<Rightarrow> resume tgt qi idx n sc)
   }"
  unfolding resume_def by (rule kd_loop.simps)

text \<open>The round at an inner node, for its two children in the order of their bounds.\<close>

lemma inner_round:
  assumes q: "quantized qi" and ok: "sc_ok sc" and n: "n < TreeStackCap"
    and near: "kd_tree (sNodes idx) (sp_entries idx) h (unat c1) s1 e1" and far: "kd_tree (sNodes idx) (sp_entries idx) h (unat c2) s2 e2"
    and h: "Suc h + n \<le> TreeStackCap" and st: "stack_inv tgt qi idx (stack_of n sc) rs"
    and loop: "\<And>n c b sc rs'. work rs' \<le> work ((s1, e1) # (s2, e2) # rs) \<Longrightarrow> sc_ok sc \<Longrightarrow> n \<le> TreeStackCap \<Longrightarrow>
      stack_inv tgt qi idx ((c, b) # stack_of n sc) rs' \<Longrightarrow> scans_all qi idx sc rs' (kd_loop tgt (to_f32 qi) qi idx n c b sc)"
    and rest: "\<And>n sc rs'. work rs' \<le> work ((s1, e1) # (s2, e2) # rs) \<Longrightarrow> sc_ok sc \<Longrightarrow> n \<le> TreeStackCap \<Longrightarrow>
      stack_inv tgt qi idx (stack_of n sc) rs' \<Longrightarrow> scans_all qi idx sc rs' (resume tgt qi idx n sc)"
    and nb: "nb = bound_of tgt qi (sNodes idx ! unat c1)" and fb: "fb = bound_of tgt qi (sNodes idx ! unat c2)"
    and worst: "worst = sp_WorstF32 (SpTop sc)"
    and push: "(if flt fb worst \<and> n < TreeStackCap then push_node n c2 fb sc else Some (n, sc)) = Some (n1, sc1)"
  shows "scans_all qi idx sc ((s1, e1) # (s2, e2) # rs)
    (if flt nb worst then kd_loop tgt (to_f32 qi) qi idx n1 c1 nb sc1 else resume tgt qi idx n1 sc1)"
proof -
  have ln: "length (stack_of n sc) = n" using length_stack_of ok n by simp
  note skip = skip_tree [OF _ q ok, folded worst]
  have sw: "scans_all qi idx sc ((s2, e2) # (s1, e1) # rs) r \<Longrightarrow> scans_all qi idx sc ((s1, e1) # (s2, e2) # rs) r" for r
    by (erule scanned_cong) simp
  show ?thesis
  proof (cases "flt fb worst")
    case True
    from push_node_eq [OF ok n, of c2 fb] push True n have
      p: "n1 = Suc n" "stack_of (Suc n) sc1 = (c2, fb) # stack_of n sc" "sc_ok sc1" "sc_frame sc sc1" "SpTop sc1 = SpTop sc" by auto
    have st1: "stack_inv tgt qi idx (stack_of n1 sc1) ((s2, e2) # rs)" using far h st ln unfolding p(1,2) by (auto simp: fb)
    show ?thesis
    proof (cases "flt nb worst")
      case True
      have "stack_inv tgt qi idx ((c1, nb) # stack_of n1 sc1) ((s1, e1) # (s2, e2) # rs)"
        using near h st1 ln by (auto simp: nb p(1,2))
      from loop [OF order_refl p(3) _ this] n p(1) have "scans_all qi idx sc1 ((s1, e1) # (s2, e2) # rs) (kd_loop tgt (to_f32 qi) qi idx n1 c1 nb sc1)" by simp
      then show ?thesis using True scanned_start p(4,5) by simp
    next
      case False
      from rest [OF _ p(3) _ st1] n p(1) have "scans_all qi idx sc1 ((s2, e2) # rs) (resume tgt qi idx n1 sc1)" by simp
      then have "scans_all qi idx sc ((s2, e2) # rs) (resume tgt qi idx n1 sc1)" using scanned_start p(4,5) by simp
      from scanned_step [OF this sc_frame_refl skip [OF near False [unfolded nb]]] show ?thesis using False by simp
    qed
  next
    case fF: False
    then have p: "n1 = n" "sc1 = sc" using push by auto
    show ?thesis
    proof (cases "flt nb worst")
      case True
      have "stack_inv tgt qi idx ((c1, nb) # stack_of n sc) ((s1, e1) # rs)" using near h st ln by (auto simp: nb)
      from loop [OF _ ok _ this] n have "scans_all qi idx sc ((s1, e1) # rs) (kd_loop tgt (to_f32 qi) qi idx n c1 nb sc)" by simp
      from sw [OF scanned_step [OF this sc_frame_refl skip [OF far fF [unfolded fb]]]] show ?thesis using True p by simp
    next
      case False
      from rest [OF _ ok _ st] n have "scans_all qi idx sc rs (resume tgt qi idx n sc)" by simp
      from scanned_step [OF scanned_step [OF this sc_frame_refl skip [OF far fF [unfolded fb]]] sc_frame_refl skip [OF near False [unfolded nb]]]
      show ?thesis using False p by simp
    qed
  qed
qed

theorem kd_loop_scanned:
  assumes q: "quantized qi" and sh: "shape idx B"
    and "sc_ok sc" "n \<le> TreeStackCap" "stack_inv tgt qi idx ((c, b) # stack_of n sc) rs"
  shows "scans_all qi idx sc rs (kd_loop tgt (to_f32 qi) qi idx n c b sc)"
  using assms(3-)
proof (induction "work rs" arbitrary: rs n c b sc rule: less_induct)
  case less
  note ok = less.prems(1) and n = less.prems(2)
  have len: "length qi = 14" using q by (simp add: quantized_def)
  have ln: "length (stack_of n sc) = n" using length_stack_of ok n by simp
  from less.prems(3) obtain h s e rs' where rs: "rs = (s, e) # rs'" and t: "kd_tree (sNodes idx) (sp_entries idx) h (unat c) s e"
    and b: "b = bound_of tgt qi (sNodes idx ! unat c)" and h: "h + n \<le> TreeStackCap" and st: "stack_inv tgt qi idx (stack_of n sc) rs'"
    by (auto simp: ln)
  have ts: "unat c < length (sNodes idx)" "s < e" "8 * e \<le> length (sp_entries idx)" using kd_tree_range [OF t] by auto
  have le: "length (sp_entries idx) = 8 * B" using sh by (simp add: sp_entries_def shape_def)
  have rest: "scans_all qi idx sc1 rs1 (resume tgt qi idx n1 sc1)"
    if "work rs1 < work rs" "sc_ok sc1" "n1 \<le> TreeStackCap" "stack_inv tgt qi idx (stack_of n1 sc1) rs1" for n1 sc1 rs1
  proof (cases n1)
    case 0
    then show ?thesis using that(4) by (auto simp: resume_def scans_all_def intro!: exI [of _ "[]"])
  next
    case (Suc k)
    then have k: "k < TreeStackCap" using that(3) by simp
    then have "scans_all qi idx sc1 rs1 (kd_loop tgt (to_f32 qi) qi idx k (StackNodes sc1 ! k) (StackBounds sc1 ! k) sc1)"
      using less.hyps [OF that(1,2)] that(4) stack_of_Suc [OF that(2) k] Suc by simp
    then show ?thesis using Suc k that(2) by (simp add: resume_def get_Some sc_ok_def)
  qed
  define worst where "worst = sp_WorstF32 (SpTop sc)"
  show ?case
  proof (cases "flt b worst")
    case False
    have "scans_all qi idx sc rs' (resume tgt qi idx n sc)" using rest [OF _ ok n st] ts(2) by (simp add: rs)
    from scanned_step [OF this sc_frame_refl skip_tree [OF t q ok False [unfolded b worst_def]]] False show ?thesis
      by (subst kd_loop_resume) (simp add: visit_def rs worst_def Let_def)
  next
    case True
    have nd: "get (sNodes idx) (unat c) = Some (sNodes idx ! unat c)" using ts(1) by (simp add: get_Some)
    from t consider
        (leaf) "is_leaf (sNodes idx ! unat c)" "unat (nBlockStart (sNodes idx ! unat c)) = s"
          "(unat (nLen (sNodes idx ! unat c)) + 7) div 8 = e - s" "unat (nLen (sNodes idx ! unat c)) \<le> 128"
      | (inner) l r h' m where "h = Suc h'" "sint (nLeft (sNodes idx ! unat c)) = int l" "sint (nRight (sNodes idx ! unat c)) = int r"
          "kd_tree (sNodes idx) (sp_entries idx) h' l s m" "kd_tree (sNodes idx) (sp_entries idx) h' r m e"
      by (rule kd_treeE) auto
    then show ?thesis
    proof cases
      case leaf
      have "e \<le> B" using ts(3) le by simp
      from scanLeaf_eq [OF ok len sh leaf(2,3,4) ts(2) this, of tgt] obtain sc1 where
        1: "scanLeaf tgt (sNodes idx ! unat c) (to_f32 qi) qi idx sc = Some sc1" "sc_frame sc sc1"
          "StackNodes sc1 = StackNodes sc" "StackBounds sc1 = StackBounds sc"
          "SpTop sc1 = search_top.insert_all (dataset_cands qi (seg (sp_entries idx) s e)) (SpTop sc)" by blast
      have ok1: "sc_ok sc1" using sc_ok_insert [OF ok 1(5,2)] .
      have "stack_of n sc1 = stack_of n sc" using 1(3,4) by (simp add: stack_of_def)
      then have "scans_all qi idx sc1 rs' (resume tgt qi idx n sc1)" using rest [OF _ ok1 n] st ts(2) by (simp add: rs)
      from scanned_step [OF this 1(2,5)] True leaf(1) 1(1) nd show ?thesis
        by (subst kd_loop_resume) (simp add: visit_def rs worst_def Let_def)
    next
      case (inner l r h' m)
      define nd where "nd = sNodes idx ! unat c"
      have lr: "unat (nLeft nd) = l" "unat (nRight nd) = r" "nat (sint (nLeft nd)) = l" "nat (sint (nRight nd)) = r" "\<not> is_leaf nd"
        using inner(2,3) unat_sint by (simp_all add: nd_def is_leaf_def)
      have T: "kd_tree (sNodes idx) (sp_entries idx) h' (unat (nLeft nd)) s m" "kd_tree (sNodes idx) (sp_entries idx) h' (unat (nRight nd)) m e"
        using inner(4,5) by (simp_all add: lr)
      have sm: "s < m" "m < e" "l < length (sNodes idx)" "r < length (sNodes idx)"
        using kd_tree_range [OF inner(4)] kd_tree_range [OF inner(5)] by auto
      have h': "Suc h' + n \<le> TreeStackCap" using h inner(1) by simp
      have n': "n < TreeStackCap" using h' by simp
      define lb rb where "lb = bound_of tgt qi (sNodes idx ! unat (nLeft nd))" and "rb = bound_of tgt qi (sNodes idx ! unat (nRight nd))"
      have nbs: "node_bound tgt (to_f32 qi) idx l = Some lb" "node_bound tgt (to_f32 qi) idx r = Some rb"
        using sm by (simp_all add: node_bound_def get_Some bound_of_def lb_def rb_def lr)
      define c1 c2 nb fb where "c1 = (if fle lb rb then nLeft nd else nRight nd)" and "c2 = (if fle lb rb then nRight nd else nLeft nd)"
        and "nb = (if fle lb rb then lb else rb)" and "fb = (if fle lb rb then rb else lb)"
      define s1 e1 s2 e2 where "s1 = (if fle lb rb then s else m)" and "e1 = (if fle lb rb then m else e)"
        and "s2 = (if fle lb rb then m else s)" and "e2 = (if fle lb rb then e else m)"
      have near: "kd_tree (sNodes idx) (sp_entries idx) h' (unat c1) s1 e1" "kd_tree (sNodes idx) (sp_entries idx) h' (unat c2) s2 e2"
        "nb = bound_of tgt qi (sNodes idx ! unat c1)" "fb = bound_of tgt qi (sNodes idx ! unat c2)"
        using T by (simp_all add: c1_def c2_def s1_def s2_def e1_def e2_def nb_def fb_def lb_def rb_def)
      obtain n1 sc1 where push: "(if flt fb worst \<and> n < TreeStackCap then push_node n c2 fb sc else Some (n, sc)) = Some (n1, sc1)"
        using push_node_eq [OF ok n', of c2 fb] n' by (cases "flt fb worst") auto
      have v: "visit tgt (to_f32 qi) qi idx n c b sc = Some (n1, if flt nb worst then Some (c1, nb) else None, sc1)"
        using True push lr nbs \<open>get (sNodes idx) (unat c) = Some (sNodes idx ! unat c)\<close>
        by (simp add: visit_def nd_def [symmetric] worst_def [symmetric] Let_def c1_def c2_def nb_def fb_def split: if_splits)
      have w: "work ((s1, e1) # (s2, e2) # rs') < work rs" using sm(1,2) unfolding rs s1_def s2_def e1_def e2_def work_simps by (cases "fle lb rb"; simp only: if_True if_False; linarith)
      have "scans_all qi idx sc ((s1, e1) # (s2, e2) # rs')
          (if flt nb worst then kd_loop tgt (to_f32 qi) qi idx n1 c1 nb sc1 else resume tgt qi idx n1 sc1)"
      proof (rule inner_round [OF q ok n' near(1,2) h' st _ _ near(3,4) worst_def push])
        show "scans_all qi idx sc rs2 (kd_loop tgt (to_f32 qi) qi idx n c b sc)"
          if "work rs2 \<le> work ((s1, e1) # (s2, e2) # rs')" "sc_ok sc" "n \<le> TreeStackCap" "stack_inv tgt qi idx ((c, b) # stack_of n sc) rs2"
          for n c b sc rs2
          using less.hyps [of rs2] that w by simp
        show "scans_all qi idx sc rs2 (resume tgt qi idx n sc)"
          if "work rs2 \<le> work ((s1, e1) # (s2, e2) # rs')" "sc_ok sc" "n \<le> TreeStackCap" "stack_inv tgt qi idx (stack_of n sc) rs2"
          for n sc rs2
          using rest [of rs2] that w by simp
      qed
      moreover have "mset (cands_of qi idx ((s1, e1) # (s2, e2) # rs')) = mset (cands_of qi idx rs)"
        using sm seg_split [of s m e "sp_entries idx"] by (simp add: rs s1_def s2_def e1_def e2_def dataset_cands_def)
      ultimately have "scans_all qi idx sc rs (if flt nb worst then kd_loop tgt (to_f32 qi) qi idx n1 c1 nb sc1 else resume tgt qi idx n1 sc1)"
        by (rule scanned_cong)
      then show ?thesis unfolding kd_loop_resume [of tgt qi idx n c b sc] v by (cases "flt nb worst") simp_all
    qed
  qed
qed

subsection \<open>The order of the partitions\<close>

lemma bound_shift_eq:
  "j < length bs \<Longrightarrow> \<exists>p. bound_shift cur j bs = (p, take (Suc p) bs @ drop p (take j bs) @ drop (Suc j) bs) \<and> p \<le> j \<and>
     (\<forall>k. p \<le> k \<longrightarrow> k < j \<longrightarrow> flt (fst cur) (fst (bs ! k))) \<and> (p = 0 \<or> \<not> flt (fst cur) (fst (bs ! (p - 1))))"
proof (induction j arbitrary: bs)
  case 0
  then show ?case by (cases bs) simp_all
next
  case (Suc j)
  show ?case
  proof (cases "flt (fst cur) (fst (bs ! j))")
    case True
    let ?bs = "bs[Suc j := bs ! j]"
    obtain p where p: "bound_shift cur j ?bs = (p, take (Suc p) ?bs @ drop p (take j ?bs) @ drop (Suc j) ?bs)" "p \<le> j"
      "\<forall>k. p \<le> k \<longrightarrow> k < j \<longrightarrow> flt (fst cur) (fst (?bs ! k))" "p = 0 \<or> \<not> flt (fst cur) (fst (?bs ! (p - 1)))"
      using Suc.IH [of ?bs] Suc.prems by auto
    have "drop (Suc j) ?bs = bs ! j # drop (Suc (Suc j)) bs"
      using Suc.prems by (simp add: drop_update_swap Cons_nth_drop_Suc [symmetric])
    moreover have "drop p (take (Suc j) bs) = drop p (take j bs) @ [bs ! j]"
      using Suc.prems p(2) by (simp add: take_Suc_conv_app_nth)
    moreover have "take (Suc p) ?bs = take (Suc p) bs" "take j ?bs = take j bs" using p(2) by simp_all
    ultimately have "bound_shift cur (Suc j) bs = (p, take (Suc p) bs @ drop p (take (Suc j) bs) @ drop (Suc (Suc j)) bs)"
      using True p(1) by simp
    moreover have "\<forall>k. p \<le> k \<longrightarrow> k < Suc j \<longrightarrow> flt (fst cur) (fst (bs ! k))" using p(3) True by (auto simp: less_Suc_eq)
    moreover have "p = 0 \<or> \<not> flt (fst cur) (fst (bs ! (p - 1)))" using p(2,4) by (cases p) auto
    ultimately show ?thesis using p(2) by (intro exI [of _ p]) simp
  next
    case False
    moreover have "take (Suc (Suc j)) bs @ drop (Suc (Suc j)) bs = bs" by simp
    ultimately show ?thesis by (intro exI [of _ "Suc j"]) (simp add: append_assoc)
  qed
qed

definition fin_bounds :: "(fl \<times> u32) list \<Rightarrow> bool" where
  "fin_bounds bs \<longleftrightarrow> (\<forall>e \<in> set bs. \<exists>r. fst e = Fin r)"

definition ordered :: "(fl \<times> u32) list \<Rightarrow> bool" where
  "ordered bs \<longleftrightarrow> sorted_wrt (\<lambda>a b. fle (fst a) (fst b)) bs"

lemma insert_bound:
  assumes i: "i < length bs" and fin: "fin_bounds bs" and ord: "ordered (take i bs)"
  shows "\<exists>bs'. (let cur = bs ! i; (p, bs) = bound_shift cur i bs in bs[p := cur]) = bs' \<and> mset bs' = mset bs \<and>
    length bs' = length bs \<and> ordered (take (Suc i) bs')"
proof -
  define cur where "cur = bs ! i"
  obtain p where p: "bound_shift cur i bs = (p, take (Suc p) bs @ drop p (take i bs) @ drop (Suc i) bs)" "p \<le> i"
    "\<And>k. p \<le> k \<Longrightarrow> k < i \<Longrightarrow> flt (fst cur) (fst (bs ! k))" "p = 0 \<or> \<not> flt (fst cur) (fst (bs ! (p - 1)))"
    using bound_shift_eq [OF i, of cur] by blast
  define A B where "A = take p bs" and "B = drop p (take i bs)"
  have t: "take (Suc p) bs = A @ [bs ! p]" "length A = p" using p(2) i by (simp_all add: A_def take_Suc_conv_app_nth)
  have r: "(take (Suc p) bs @ drop p (take i bs) @ drop (Suc i) bs)[p := cur] = A @ cur # B @ drop (Suc i) bs"
    unfolding t(1) B_def [symmetric] using t(2) by (simp add: list_update_append)
  have ti: "take i bs = A @ B" using p(2) by (simp add: A_def B_def take_drop flip: take_add) (metis append_take_drop_id drop_take le_add_diff_inverse take_add)
  have bs: "bs = A @ B @ cur # drop (Suc i) bs"
    using i ti unfolding cur_def by (metis append.assoc id_take_nth_drop)
  have lAB: "length A + length B = i" using arg_cong [OF ti, of length] i by simp
  have f: "\<exists>r. fst (bs ! k) = Fin r" if "k < length bs" for k using fin that by (simp add: fin_bounds_def)
  have Bk: "B ! k = bs ! (p + k)" if "k < length B" for k
  proof -
    have "(A @ B) ! (p + k) = B ! k" using t(2) by (simp add: nth_append)
    then show ?thesis using that lAB t(2) unfolding ti [symmetric] by simp
  qed
  have gB: "fle (fst cur) (fst y)" if "y \<in> set B" for y
  proof -
    obtain k where k: "k < length B" "y = B ! k" using \<open>y \<in> set B\<close> by (auto simp: in_set_conv_nth)
    then have "flt (fst cur) (fst y)" using p(3) [of "p + k"] lAB t(2) by (simp add: Bk)
    moreover obtain a b where "fst cur = Fin a" "fst y = Fin b"
      using f [of i] f [of "p + k"] i k lAB t(2) unfolding cur_def by (metis Bk add_less_cancel_left less_trans)
    ultimately show ?thesis by simp
  qed
  have gA: "fle (fst x) (fst cur)" if "x \<in> set A" for x
  proof -
    have "p \<noteq> 0" using that t(2) by auto
    obtain k where k: "k < p" "x = A ! k" using \<open>x \<in> set A\<close> t(2) by (metis in_set_conv_nth)
    have x: "x = bs ! k" using k by (simp add: A_def)
    have "fle (fst (bs ! k)) (fst (bs ! (p - 1)))"
    proof (cases "k = p - 1")
      case True
      then show ?thesis using f [of k] k p(2) i by force
    next
      case False
      then have "k < p - 1" "p - 1 < length (take i bs)" using k p(2) i by auto
      from sorted_wrt_nth_less [OF ord [unfolded ordered_def] this] show ?thesis using k p(2) by simp
    qed
    moreover obtain a b c where "fst (bs ! k) = Fin a" "fst (bs ! (p - 1)) = Fin b" "fst cur = Fin c"
      using f [of k] f [of "p - 1"] f [of i] k p(2) i unfolding cur_def by force
    ultimately show ?thesis using p(4) \<open>p \<noteq> 0\<close> by (simp add: x)
  qed
  have "sorted_wrt (\<lambda>a b. fle (fst a) (fst b)) (A @ B)" using ord by (simp add: ordered_def ti)
  then have "ordered (A @ cur # B)" using gA gB by (auto simp: ordered_def sorted_wrt_append)
  moreover have "take (Suc i) (A @ cur # B @ drop (Suc i) bs) = A @ cur # B" using lAB by (simp add: Suc_diff_le flip: lAB)
  moreover have "mset (A @ cur # B @ drop (Suc i) bs) = mset bs" by (subst (2) bs) simp
  moreover have "length (A @ cur # B @ drop (Suc i) bs) = length bs" by (subst (2) bs) simp
  ultimately show ?thesis unfolding Let_def cur_def [symmetric] p(1) prod.case r by auto
qed

lemma sort_bounds_ok:
  assumes "fin_bounds bs"
  shows "mset (sort_bounds bs) = mset bs \<and> ordered (sort_bounds bs)"
proof (cases "bs = []")
  case True
  then show ?thesis by (simp add: sort_bounds_def ordered_def)
next
  case False
  define f where "f i bounds = (let cur = bounds ! i; (p, bounds) = bound_shift cur i bounds in bounds[p := cur])" for i and bounds :: "(fl \<times> u32) list"
  define P where "P i b \<longleftrightarrow> mset b = mset bs \<and> length b = length bs \<and> ordered (take (Suc i) b)" for i b
  have "P (length [1..<length bs]) (fold f [1..<length bs] bs)"
  proof (rule fold_prefix_rule)
    show "P 0 bs" using False by (cases bs) (simp_all add: P_def ordered_def)
    fix i b assume i: "i < length [1..<length bs]" and P: "P i b"
    have "fin_bounds b" using assms P mset_eq_setD [of b bs] by (simp add: P_def fin_bounds_def)
    moreover have "Suc i < length b" using i P by (simp add: P_def)
    ultimately have "\<exists>bs'. f (Suc i) b = bs' \<and> mset bs' = mset b \<and> length bs' = length b \<and> ordered (take (Suc (Suc i)) bs')"
      unfolding f_def using P by (intro insert_bound) (simp_all add: P_def)
    then show "P (Suc i) (f ([1..<length bs] ! i) b)" using P i by (auto simp: P_def)
  qed
  moreover have "sort_bounds bs = fold f [1..<length bs] bs" unfolding sort_bounds_def f_def [abs_def] ..
  moreover have "Suc (length [1..<length bs]) = length bs" using False by (simp add: Suc_diff_le flip: length_greater_0_conv)
  ultimately show ?thesis unfolding P_def by (metis take_all_iff order_refl)
qed

subsection \<open>The whole index\<close>

definition part_at :: "SpecialistIndex \<Rightarrow> nat \<Rightarrow> nat \<Rightarrow> Partition \<Rightarrow> bool" where
  \<comment> \<open>the tree of a partition covers the blocks from \<open>s\<close> up to \<open>e\<close>\<close>
  "part_at idx s e p \<longleftrightarrow> kd_tree (sNodes idx) (sp_entries idx) 25 (unat (pRoot p)) s e \<and>
     pMin p = nMin (sNodes idx ! unat (pRoot p)) \<and> pMax p = nMax (sNodes idx ! unat (pRoot p))"

lemma parts_ok_nth:
  assumes "parts_ok (sNodes idx) (sp_entries idx) 25 ps s e"
  shows "\<exists>rs. length rs = length ps \<and> (\<forall>i<length ps. part_at idx (fst (rs ! i)) (snd (rs ! i)) (ps ! i)) \<and>
    concat (map (\<lambda>(s, e). seg (sp_entries idx) s e) rs) = seg (sp_entries idx) s e \<and> s \<le> e"
  using assms
proof (induction ps arbitrary: s)
  case Nil
  then show ?case by (simp add: seg_def)
next
  case (Cons p ps)
  then obtain m where m: "part_at idx s m p" "parts_ok (sNodes idx) (sp_entries idx) 25 ps m e" by (auto simp: part_at_def)
  from Cons.IH [OF m(2)] obtain rs where rs: "length rs = length ps"
    "\<forall>i<length ps. part_at idx (fst (rs ! i)) (snd (rs ! i)) (ps ! i)"
    "concat (map (\<lambda>(s, e). seg (sp_entries idx) s e) rs) = seg (sp_entries idx) m e" "m \<le> e" by blast
  have "s < m" using m(1) kd_tree_range by (auto simp: part_at_def)
  then have "concat (map (\<lambda>(s, e). seg (sp_entries idx) s e) ((s, m) # rs)) = seg (sp_entries idx) s e" "s \<le> e"
    using rs(3,4) seg_split [of s m e "sp_entries idx"] by simp_all
  moreover have "\<forall>i<length (p # ps). part_at idx (fst (((s, m) # rs) ! i)) (snd (((s, m) # rs) ! i)) ((p # ps) ! i)"
    using m(1) rs(2) by (simp add: All_less_Suc2)
  ultimately show ?case using rs(1) by (intro exI [of _ "(s, m) # rs"]) simp
qed

lemma part_at_bound: "part_at idx s e p \<Longrightarrow> part_bound tgt (to_f32 qi) p = bound_of tgt qi (sNodes idx ! unat (pRoot p))"
  by (simp add: part_at_def part_bound_def bound_of_def)

lemma part_bound_Fin: "part_at idx s e p \<Longrightarrow> quantized qi \<Longrightarrow> \<exists>r. part_bound tgt (to_f32 qi) p = Fin r"
  using covers_bound(1) kd_tree_range by (metis part_at_bound part_at_def)

lemma search_part:
  assumes p: "part_at idx s e p" and q: "quantized qi" and sh: "shape idx B" and ok: "sc_ok sc"
  shows "scans_all qi idx sc [(s, e)] (searchKDTree tgt (pRoot p) (part_bound tgt (to_f32 qi) p) (to_f32 qi) qi idx sc)"
  unfolding searchKDTree_def using p
  by (intro kd_loop_scanned [OF q sh ok]) (auto simp: part_at_bound part_at_def TreeStackCap_def)

lemma skip_part:
  assumes p: "part_at idx s e p" and q: "quantized qi" and ok: "sc_ok sc"
    and f: "\<not> flt (part_bound tgt (to_f32 qi) p) (sp_WorstF32 (SpTop sc))"
  shows "SpTop sc = search_top.insert_all (dataset_cands qi (seg (sp_entries idx) s e)) (SpTop sc)"
  using skip_tree [OF _ q ok] p f unfolding part_at_bound [OF p] part_at_def by blast

lemma fle_flt: "fle a b \<Longrightarrow> \<not> flt b a"
  by (rule fle_not_flt)

lemma walk_scanned:
  assumes q: "quantized qi" and sh: "shape idx B" and "sc_ok sc" "ordered bs" "fin_bounds bs"
    and "\<forall>x \<in> set bs. \<exists>i. x = (part_bound tgt (to_f32 qi) (sPartitions idx ! i), of_nat i) \<and> i < length (sPartitions idx)"
    and "\<forall>i<length (sPartitions idx). part_at idx (fst (rs ! i)) (snd (rs ! i)) (sPartitions idx ! i)"
    and "length (sPartitions idx) \<le> 256"
  shows "scans_all qi idx sc (map (\<lambda>x. rs ! unat (snd x)) bs) (walk tgt (to_f32 qi) qi idx bs sc)"
  using assms(3-)
proof (induction bs arbitrary: sc)
  case Nil
  then show ?case by (auto simp: scans_all_def intro!: exI [of _ "[]"])
next
  case (Cons x bs)
  obtain i where i: "x = (part_bound tgt (to_f32 qi) (sPartitions idx ! i), of_nat i)" "i < length (sPartitions idx)" using Cons.prems(4) by auto
  have u: "unat (snd x) = i" using i Cons.prems(6) by simp
  have p: "part_at idx (fst (rs ! i)) (snd (rs ! i)) (sPartitions idx ! i)" using Cons.prems(5) i(2) by simp
  show ?case
  proof (cases "fle (sp_WorstF32 (SpTop sc)) (fst x)")
    case True
    have "scans_all qi idx sc (map (\<lambda>x. rs ! unat (snd x)) ys) (Some sc)" if "set ys \<subseteq> set (x # bs)" for ys
      using that
    proof (induction ys)
      case Nil
      then show ?case by (auto simp: scans_all_def intro!: exI [of _ "[]"])
    next
      case (Cons y ys)
      obtain j where j: "y = (part_bound tgt (to_f32 qi) (sPartitions idx ! j), of_nat j)" "j < length (sPartitions idx)"
        using Cons.prems \<open>\<forall>x \<in> set (x # bs). \<exists>i. x = (part_bound tgt (to_f32 qi) (sPartitions idx ! i), of_nat i) \<and> i < length (sPartitions idx)\<close>
        by (meson list.set_intros(1) subsetD)
      have uj: "unat (snd y) = j" using j \<open>length (sPartitions idx) \<le> 256\<close> by simp
      have "fle (fst x) (fst y)"
        using Cons.prems \<open>ordered (x # bs)\<close> \<open>fin_bounds (x # bs)\<close> by (fastforce simp: ordered_def fin_bounds_def)
      then have "fle (sp_WorstF32 (SpTop sc)) (fst y)"
        using True \<open>fin_bounds (x # bs)\<close> Cons.prems by (cases "sp_WorstF32 (SpTop sc)") (fastforce simp: fin_bounds_def)+
      then have "\<not> flt (part_bound tgt (to_f32 qi) (sPartitions idx ! j)) (sp_WorstF32 (SpTop sc))"
        using fle_flt j(1) by fastforce
      moreover have "part_at idx (fst (rs ! j)) (snd (rs ! j)) (sPartitions idx ! j)"
        using j(2) \<open>\<forall>i<length (sPartitions idx). part_at idx (fst (rs ! i)) (snd (rs ! i)) (sPartitions idx ! i)\<close> by blast
      ultimately have "scans_all qi idx sc ((fst (rs ! j), snd (rs ! j)) # map (\<lambda>x. rs ! unat (snd x)) ys) (Some sc)"
        using Cons by (intro scanned_step [OF _ sc_frame_refl] skip_part [OF _ q \<open>sc_ok sc\<close>]) auto
      then show ?case by (simp add: uj)
    qed
    from this [OF order_refl] True show ?thesis by simp
  next
    case False
    have "scans_all qi idx sc [(fst (rs ! i), snd (rs ! i))] (searchKDTree tgt (pRoot (sPartitions idx ! i)) (fst x) (to_f32 qi) qi idx sc)"
      using search_part [OF p q sh Cons.prems(1)] by (simp add: i(1))
    then obtain sc1 cs where 1: "searchKDTree tgt (pRoot (sPartitions idx ! i)) (fst x) (to_f32 qi) qi idx sc = Some sc1" "sc_frame sc sc1"
      "SpTop sc1 = search_top.insert_all cs (SpTop sc)" "mset cs = mset (cands_of qi idx [rs ! i])" by (auto simp: scans_all_def)
    have "sc_ok sc1" using sc_ok_insert [OF Cons.prems(1) 1(3,2)] .
    from Cons.IH [OF this] Cons.prems obtain sc2 cs2 where
      2: "walk tgt (to_f32 qi) qi idx bs sc1 = Some sc2" "sc_frame sc1 sc2" "SpTop sc2 = search_top.insert_all cs2 (SpTop sc1)"
      "mset cs2 = mset (cands_of qi idx (map (\<lambda>x. rs ! unat (snd x)) bs))" by (auto simp: scans_all_def ordered_def fin_bounds_def)
    have "walk tgt (to_f32 qi) qi idx (x # bs) sc = Some sc2"
      using False 1(1) 2(1) i(2) u by (simp add: get_Some)
    moreover have "SpTop sc2 = search_top.insert_all (cs @ cs2) (SpTop sc)" using 1(3) 2(3) by simp
    moreover have "mset (cs @ cs2) = mset (cands_of qi idx (map (\<lambda>x. rs ! unat (snd x)) (x # bs)))"
      using 1(4) 2(4) u by (cases "rs ! i") simp
    ultimately show ?thesis using sc_frame_trans [OF 1(2) 2(2)] unfolding scans_all_def by blast
  qed
qed
definition others :: "SpecialistIndex \<Rightarrow> int \<Rightarrow> nat list" where
  "others idx same = filter (\<lambda>i. int i \<noteq> same) [0..<length (sPartitions idx)]"

lemma collect_bounds_eq:
  assumes "length (sPartitions idx) \<le> 256" "length (PartBounds sc) = MaxPartitions"
  shows "collect_bounds tgt qf idx same sc = Some (length (others idx same),
    sc\<lparr>PartBounds := map (\<lambda>i. (part_bound tgt qf (sPartitions idx ! i), of_nat i)) (others idx same) @
      drop (length (others idx same)) (PartBounds sc)\<rparr>)"
proof -
  define b where "b i = (part_bound tgt qf (sPartitions idx ! i), of_nat i :: u32)" for i
  define oth where "oth k = filter (\<lambda>i. int i \<noteq> same) [0..<k]" for k
  define f where "f i = (\<lambda>(nOther, sc :: SearchScratch).
        if int i = same then Some (nOther, sc)
        else do {
          pb \<leftarrow> put (PartBounds sc) nOther (part_bound tgt qf (sPartitions idx ! i), of_nat i);
          Some (nOther + 1, sc\<lparr>PartBounds := pb\<rparr>)
        })" for i
  have lo: "length (oth k) \<le> k" for k using length_filter_le [of _ "[0..<k]"] by (simp add: oth_def)
  have "k \<le> length (sPartitions idx) \<Longrightarrow> ofold f [0..<k] (0, sc) =
      Some (length (oth k), sc\<lparr>PartBounds := map b (oth k) @ drop (length (oth k)) (PartBounds sc)\<rparr>)" for k
  proof (induction k)
    case 0
    then show ?case by (simp add: oth_def)
  next
    case (Suc k)
    have "length (oth k) < length (PartBounds sc)" using lo [of k] Suc.prems assms by (simp add: MaxPartitions_def)
    then have d: "drop (length (oth k)) (PartBounds sc) = PartBounds sc ! length (oth k) # drop (Suc (length (oth k))) (PartBounds sc)"
      by (simp add: Cons_nth_drop_Suc)
    have IH: "ofold f [0..<k] (0, sc) = Some (length (oth k), sc\<lparr>PartBounds := map b (oth k) @ drop (length (oth k)) (PartBounds sc)\<rparr>)"
      using Suc by simp
    have e: "ofold f [0..<Suc k] (0, sc) = f k (length (oth k), sc\<lparr>PartBounds := map b (oth k) @ drop (length (oth k)) (PartBounds sc)\<rparr>)"
      by (simp add: ofold_append IH split: bind_split)
    show ?case
    proof (cases "int k = same")
      case True
      then have "oth (Suc k) = oth k" by (simp add: oth_def)
      then show ?thesis unfolding e using True by (simp add: f_def)
    next
      case False
      then have "oth (Suc k) = oth k @ [k]" by (simp add: oth_def)
      then show ?thesis unfolding e d using False by (simp add: f_def put_def list_update_append b_def)
    qed
  qed
  from this [OF order_refl] show ?thesis unfolding collect_bounds_def f_def [abs_def] oth_def others_def b_def [abs_def] by simp
qed

lemma PartitionByKey_range: "PartitionByKey idx k = - 1 \<or> (\<exists>i<length (sPartitions idx). PartitionByKey idx k = int i)"
  by (auto simp: PartitionByKey_def find_Some_iff split: option.splits)

definition same_list :: "int \<Rightarrow> nat list" where
  "same_list same = (if 0 \<le> same then [nat same] else [])"

lemma same_others: "same = - 1 \<or> (\<exists>i<length (sPartitions idx). same = int i) \<Longrightarrow>
    mset (same_list same @ others idx same) = mset [0..<length (sPartitions idx)]"
proof (elim disjE exE conjE)
  assume "same = - 1"
  then show ?thesis by (simp add: same_list_def others_def)
next
  fix i assume i: "i < length (sPartitions idx)" "same = int i"
  have "set_mset (mset (same_list same @ others idx same)) = set_mset (mset [0..<length (sPartitions idx)])"
    using i by (auto simp: same_list_def others_def)
  moreover have "distinct (same_list same @ others idx same)" using i by (auto simp: same_list_def others_def)
  ultimately show ?thesis by (metis distinct_upt set_eq_iff_mset_eq_distinct set_mset_mset)
qed

definition scratch_fits :: "SearchScratch \<Rightarrow> bool" where
  "scratch_fits sc \<longleftrightarrow> length (PartBounds sc) = MaxPartitions \<and> length (StackNodes sc) = TreeStackCap \<and> length (StackBounds sc) = TreeStackCap"

theorem sp_FraudCount_eq:
  assumes wf: "sp_wf idx" and q: "quantized qi" and fits: "scratch_fits sc"
  shows "\<exists>sc' cs. sp_FraudCount tgt (to_f32 qi) qi idx sc = Some (frauds (unset @ cs), sc') \<and>
    ents (SpTop sc') = knn5 (unset @ cs) \<and> mset cs = mset (dataset_cands qi (sp_entries idx)) \<and> scratch_fits sc'"
proof -
  obtain B where B: "shape idx B" "parts_ok (sNodes idx) (sp_entries idx) 25 (sPartitions idx) 0 B" and n: "length (sPartitions idx) \<le> 256"
    using wf by (auto simp: sp_wf_def shape_def)
  from parts_ok_nth [OF B(2)] obtain rs where rs: "length rs = length (sPartitions idx)"
    "\<forall>i<length (sPartitions idx). part_at idx (fst (rs ! i)) (snd (rs ! i)) (sPartitions idx ! i)"
    "concat (map (\<lambda>(s, e). seg (sp_entries idx) s e) rs) = seg (sp_entries idx) 0 B" by blast
  have full: "seg (sp_entries idx) 0 B = sp_entries idx" using B(1) by (simp add: seg_def sp_entries_def shape_def)
  define same where "same = PartitionByKey idx (PartitionKey qi)"
  have sr: "same = - 1 \<or> (\<exists>i<length (sPartitions idx). same = int i)" unfolding same_def by (rule PartitionByKey_range)
  define sc0 where "sc0 = sc\<lparr>SpTop := sp_Reset (SpTop sc)\<rparr>"
  have ok0: "sc_ok sc0" using fits top_inv_Reset by (simp add: sc_ok_def sc0_def scratch_fits_def sp_Reset_eq) (simp add: Reset_def WorstI64_def)
  \<comment> \<open>the partition with the query's key\<close>
  have "scans_all qi idx sc0 (map ((!) rs) (same_list same)) (search_same tgt (to_f32 qi) qi idx same sc0)"
  proof (cases "0 \<le> same")
    case False
    then show ?thesis by (auto simp: scans_all_def same_list_def search_same_def intro!: exI [of _ "[]"])
  next
    case True
    then obtain i where i: "i < length (sPartitions idx)" "same = int i" using sr by auto
    have p: "part_at idx (fst (rs ! i)) (snd (rs ! i)) (sPartitions idx ! i)" using rs(2) i by blast
    have e: "search_same tgt (to_f32 qi) qi idx same sc0 = (if flt (part_bound tgt (to_f32 qi) (sPartitions idx ! i)) (sp_WorstF32 (SpTop sc0))
        then searchKDTree tgt (pRoot (sPartitions idx ! i)) (part_bound tgt (to_f32 qi) (sPartitions idx ! i)) (to_f32 qi) qi idx sc0 else Some sc0)"
      using i by (simp add: search_same_def get_Some Let_def)
    show ?thesis
    proof (cases "flt (part_bound tgt (to_f32 qi) (sPartitions idx ! i)) (sp_WorstF32 (SpTop sc0))")
      case True
      then show ?thesis using search_part [OF p q B(1) ok0] i(2) unfolding e by (simp add: same_list_def)
    next
      case False
      have "scans_all qi idx sc0 [] (Some sc0)" by (auto simp: scans_all_def intro!: exI [of _ "[]"])
      from scanned_step [OF this sc_frame_refl skip_part [OF p q ok0 False]] show ?thesis using False i(2) unfolding e by (simp add: same_list_def)
    qed
  qed
  then obtain sc1 cs1 where 1: "search_same tgt (to_f32 qi) qi idx same sc0 = Some sc1" "sc_frame sc0 sc1"
    "SpTop sc1 = search_top.insert_all cs1 (SpTop sc0)" "mset cs1 = mset (cands_of qi idx (map ((!) rs) (same_list same)))"
    by (auto simp: scans_all_def)
  have ok1: "sc_ok sc1" using sc_ok_insert [OF ok0 1(3,2)] .
  \<comment> \<open>the others, sorted\<close>
  define bs where "bs = map (\<lambda>i. (part_bound tgt (to_f32 qi) (sPartitions idx ! i), of_nat i :: u32)) (others idx same)"
  define sc2 where "sc2 = sc1\<lparr>PartBounds := bs @ drop (length (others idx same)) (PartBounds sc1)\<rparr>"
  have lb: "length bs = length (others idx same)" by (simp add: bs_def)
  have 2: "collect_bounds tgt (to_f32 qi) idx same sc1 = Some (length bs, sc2)"
    using collect_bounds_eq [OF n, of sc1 tgt "to_f32 qi" same] ok1 unfolding sc2_def bs_def by (simp add: sc_ok_def)
  have t2: "take (length bs) (PartBounds sc2) = bs" "drop (length bs) (PartBounds sc2) = drop (length bs) (PartBounds sc1)" by (simp_all add: sc2_def lb)
  have lo: "length bs \<le> length (sPartitions idx)" using length_filter_le [of "\<lambda>i. int i \<noteq> same" "[0..<length (sPartitions idx)]"] by (simp add: lb others_def)
  define bs' where "bs' = sort_bounds bs"
  have oth: "i < length (sPartitions idx)" if "i \<in> set (others idx same)" for i using that by (simp add: others_def)
  have "\<exists>r. part_bound tgt (to_f32 qi) (sPartitions idx ! i) = Fin r" if "i \<in> set (others idx same)" for i
    using part_bound_Fin [OF _ q] rs(2) oth [OF that] by blast
  then have fin: "fin_bounds bs" by (simp add: fin_bounds_def bs_def)
  have so: "mset bs' = mset bs" "ordered bs'" using sort_bounds_ok [OF fin] by (simp_all add: bs'_def)
  have sb: "set bs' = set bs" "length bs' = length bs" using mset_eq_setD [OF so(1)] mset_eq_length [OF so(1)] by simp_all
  define sc3 where "sc3 = sc2\<lparr>PartBounds := bs' @ drop (length bs) (PartBounds sc2)\<rparr>"
  have top3: "SpTop sc3 = SpTop sc1" by (simp add: sc3_def sc2_def)
  have ok3: "sc_ok sc3" using ok1 lo n sb(2) unfolding sc3_def t2(2) by (simp add: sc_ok_def sc2_def MaxPartitions_def)
  have "scans_all qi idx sc3 (map (\<lambda>x. rs ! unat (snd x)) bs') (walk tgt (to_f32 qi) qi idx bs' sc3)"
  proof (rule walk_scanned [OF q B(1) ok3 so(2) _ _ rs(2) n])
    show "fin_bounds bs'" using fin by (simp add: fin_bounds_def sb(1))
    show "\<forall>x \<in> set bs'. \<exists>i. x = (part_bound tgt (to_f32 qi) (sPartitions idx ! i), of_nat i) \<and> i < length (sPartitions idx)"
      unfolding sb(1) using oth by (auto simp: bs_def)
  qed
  then obtain sc4 cs2 where 4: "walk tgt (to_f32 qi) qi idx bs' sc3 = Some sc4" "sc_frame sc3 sc4"
    "SpTop sc4 = search_top.insert_all cs2 (SpTop sc3)" "mset cs2 = mset (cands_of qi idx (map (\<lambda>x. rs ! unat (snd x)) bs'))"
    by (auto simp: scans_all_def)
  define cs where "cs = cs1 @ cs2"
  have t4: "SpTop sc4 = search_top.insert_all cs (Reset (SpTop sc))"
    by (simp add: 4(3) top3 1(3) sc0_def sp_Reset_eq cs_def)
  have e: "ents (SpTop sc4) = knn5 (unset @ cs)" "top_inv (SpTop sc4)" unfolding t4 by (rule ents_insert_all_Reset)+
  have fc: "sp_FraudCount_top (SpTop sc4) = frauds (unset @ cs)"
    using FraudCount_frauds [OF e(2,1)] by (simp add: sp_FraudCount_top_def FraudCount_def)
  have "sp_FraudCount tgt (to_f32 qi) qi idx sc = Some (frauds (unset @ cs), sc4)"
    unfolding sp_FraudCount_def Let_def same_def [symmetric] sc0_def [symmetric] 1(1) Option.bind.simps 2 prod.case t2(1)
      bs'_def [symmetric] sc3_def [symmetric] 4(1) fc ..
  moreover have "mset cs = mset (dataset_cands qi (sp_entries idx))"
  proof -
    have cm: "mset (cands_of qi idx (map f xs)) = mset (cands_of qi idx (map f ys))" if "mset xs = mset ys" for f :: "'x \<Rightarrow> nat \<times> nat" and xs ys
    proof -
      have "mset (cands_of qi idx (map f zs)) = \<Sum>\<^sub># (image_mset (\<lambda>x. mset (dataset_cands qi (seg (sp_entries idx) (fst (f x)) (snd (f x))))) (mset zs))" for zs
        by (induction zs) (simp_all add: cands_of_def split_beta)
      then show ?thesis using that by (simp only:)
    qed
    have "unat (of_nat i :: u32) = i" if "i \<in> set (others idx same)" for i using oth [OF that] n by simp
    then have m1: "map (\<lambda>x. rs ! unat (snd x)) bs = map ((!) rs) (others idx same)" by (simp add: bs_def)
    have ca: "cands_of qi idx (xs @ ys) = cands_of qi idx xs @ cands_of qi idx ys" for xs ys by (simp add: cands_of_def)
    have "mset cs = mset (cands_of qi idx (map ((!) rs) (same_list same))) + mset (cands_of qi idx (map (\<lambda>x. rs ! unat (snd x)) bs))"
      unfolding cs_def mset_append 1(4) 4(4) using cm [OF so(1)] by simp
    also have "\<dots> = mset (cands_of qi idx (map ((!) rs) (same_list same @ others idx same)))" unfolding m1 by (simp add: ca)
    also have "\<dots> = mset (cands_of qi idx (map ((!) rs) [0..<length (sPartitions idx)]))" by (rule cm [OF same_others [OF sr]])
    also have "map ((!) rs) [0..<length (sPartitions idx)] = rs" using rs(1) by (metis map_nth)
    also have "cands_of qi idx rs = dataset_cands qi (concat (map (\<lambda>(s, e). seg (sp_entries idx) s e) rs))"
      by (induction rs) (auto simp: dataset_cands_def)
    finally show ?thesis by (simp only: rs(3) full)
  qed
  moreover have "scratch_fits sc4" using sc_ok_insert [OF ok3 4(3,2)] by (simp add: sc_ok_def scratch_fits_def)
  ultimately show ?thesis using e(1) by blast
qed

section \<open>Properties\<close>

text \<open>C9. The second index is exact: for any data set of fewer than \<open>2 ^ 32 / 112\<close> quantised vectors, \<open>Build\<close> succeeds, the search of
  the index it gives ends with a count, and the count is that of the brute force over the data set, as long as no two
  references compete for the fifth place.  Partition order, pruning, the stack of 64 entries, the vector kernel's
  early exits and the padding lanes change nothing.\<close>

theorem specialist_matches_brute_force:
  assumes "dataset_ok ds" "Count ds * 112 < 2 ^ 32" "quantized qi" "scratch_fits sc"
    and "no_tie (dataset_cands qi (labelled (Vectors ds) (DLabels ds) (Count ds)))"
  shows "\<exists>idx fc sc'. sp_Build ds = Some idx \<and> sp_FraudCount tgt (to_f32 qi) qi idx sc = Some (fc, sc') \<and>
    FraudCountBrute qi ds = Some (int (unat fc))"
proof -
  obtain idx where idx: "sp_Build ds = Some idx" "sp_wf idx"
    "mset (stored (sp_entries idx)) = mset (labelled (Vectors ds) (DLabels ds) (Count ds))"
    using sp_Build_wf [OF assms(1,2)] by blast
  obtain sc' cs where s: "sp_FraudCount tgt (to_f32 qi) qi idx sc = Some (frauds (unset @ cs), sc')"
    "mset cs = mset (dataset_cands qi (sp_entries idx))"
    using sp_FraudCount_eq [OF idx(2) assms(3,4), of tgt] by blast
  have "\<forall>e \<in> set (sp_entries idx). slot_ok e" using idx(2) by (simp add: sp_wf_def)
  from frauds_stored [OF this assms(3) s(2) idx(3) assms(5)] show ?thesis
    using idx(1) s(1) FraudCountBrute_eq [OF assms(1), of qi] by auto
qed

definition five_refs :: Dataset where
  "five_refs = \<lparr>Vectors = concat (map (\<lambda>k. replicate 14 (of_nat (1000 * k))) [1..<6]), DLabels = [1, 0, 1, 0, 0], Count = 5\<rparr>"

lemma five_refs_ok:
  "dataset_ok five_refs" "Count five_refs = 5" "quantized (replicate 14 100)" "scratch_fits new_search_scratch"
proof -
  have "set [1..<6 :: nat] = {1, 2, 3, 4, 5}" by (auto simp: numeral_eq_Suc)
  then show "dataset_ok five_refs" by (auto simp: dataset_ok_def five_refs_def upt_rec)
  show "Count five_refs = 5" "quantized (replicate 14 100)" "scratch_fits new_search_scratch"
    by (simp_all add: five_refs_def quantized_def scratch_fits_def new_search_scratch_def)
qed

lemma five_refs_no_tie: "no_tie (dataset_cands qi (labelled (Vectors five_refs) (DLabels five_refs) (Count five_refs)))"
  by (simp add: no_tie_def dataset_cands_def labelled_def five_refs_ok)

theorem specialist_matches_brute_force_witness:
  "\<exists>idx fc sc'. sp_Build five_refs = Some idx \<and>
    sp_FraudCount \<lparr>amd64 = True, fuses = True\<rparr> (to_f32 (replicate 14 100)) (replicate 14 100) idx new_search_scratch = Some (fc, sc') \<and>
    FraudCountBrute (replicate 14 100) five_refs = Some (int (unat fc))"
  by (rule specialist_matches_brute_force [OF five_refs_ok(1) _ five_refs_ok(3,4) five_refs_no_tie]) (simp add: five_refs_ok)

text \<open>The five distances the search of the second index ends with are the five smallest of the data set, ties or not.\<close>

theorem specialist_distances:
  assumes "dataset_ok ds" "Count ds * 112 < 2 ^ 32" "quantized qi" "scratch_fits sc" "5 \<le> Count ds"
  shows "\<exists>idx fc sc'. sp_Build ds = Some idx \<and> sp_FraudCount tgt (to_f32 qi) qi idx sc = Some (fc, sc') \<and>
    map fst (ents (SpTop sc')) = take 5 (sort (map fst (dataset_cands qi (labelled (Vectors ds) (DLabels ds) (Count ds)))))"
proof -
  obtain idx where idx: "sp_Build ds = Some idx" "sp_wf idx"
    "mset (stored (sp_entries idx)) = mset (labelled (Vectors ds) (DLabels ds) (Count ds))"
    using sp_Build_wf [OF assms(1,2)] by blast
  obtain sc' cs where s: "sp_FraudCount tgt (to_f32 qi) qi idx sc = Some (frauds (unset @ cs), sc')"
    "ents (SpTop sc') = knn5 (unset @ cs)" "mset cs = mset (dataset_cands qi (sp_entries idx))"
    using sp_FraudCount_eq [OF idx(2) assms(3,4), of tgt] by blast
  have "\<forall>e \<in> set (sp_entries idx). slot_ok e" using idx(2) by (simp add: sp_wf_def)
  from dists_stored [OF this assms(3) s(3) idx(3)] show ?thesis using assms(5) idx(1) s(1,2) by (auto simp: labelled_def)
qed

theorem specialist_distances_witness:
  "\<exists>idx fc sc'. sp_Build five_refs = Some idx \<and>
    sp_FraudCount \<lparr>amd64 = False, fuses = False\<rparr> (to_f32 (replicate 14 100)) (replicate 14 100) idx new_search_scratch = Some (fc, sc') \<and>
    map fst (ents (SpTop sc')) =
      take 5 (sort (map fst (dataset_cands (replicate 14 100) (labelled (Vectors five_refs) (DLabels five_refs) (Count five_refs)))))"
  by (rule specialist_distances [OF five_refs_ok(1) _ five_refs_ok(3,4)]) (simp_all add: five_refs_ok)

text \<open>C14. \<open>searchKDTree\<close> ends on every tree that \<open>Build\<close> makes, whatever the current top five: from a node
  whose tree is at most as high as the room on the stack, it leaves what inserting every slot of the tree leaves, and no
  subtree is dropped because the stack is full.\<close>

theorem tree_search_terminates:
  assumes "kd_tree (sNodes idx) (sp_entries idx) h (unat i) s e" "h \<le> TreeStackCap" "quantized qi" "shape idx B" "sc_ok sc"
  shows "\<exists>sc' cs. searchKDTree tgt i (bound_of tgt qi (sNodes idx ! unat i)) (to_f32 qi) qi idx sc = Some sc' \<and>
    SpTop sc' = search_top.insert_all cs (SpTop sc) \<and> mset cs = mset (dataset_cands qi (seg (sp_entries idx) s e))"
proof -
  have "scans_all qi idx sc [(s, e)] (searchKDTree tgt i (bound_of tgt qi (sNodes idx ! unat i)) (to_f32 qi) qi idx sc)"
    unfolding searchKDTree_def using assms(1,2) by (intro kd_loop_scanned [OF assms(3-5)]) auto
  then show ?thesis by (auto simp: scans_all_def)
qed

lemma five_refs_index:
  "\<exists>idx B p ps m. sp_Build five_refs = Some idx \<and> sp_wf idx \<and> shape idx B \<and> sPartitions idx = p # ps \<and>
    kd_tree (sNodes idx) (sp_entries idx) 25 (unat (pRoot p)) 0 m"
proof -
  have "Count five_refs * 112 < 2 ^ 32" by (simp add: five_refs_ok)
  from sp_Build_wf [OF five_refs_ok(1) this] obtain idx where idx: "sp_Build five_refs = Some idx" "sp_wf idx"
    "mset (stored (sp_entries idx)) = mset (labelled (Vectors five_refs) (DLabels five_refs) (Count five_refs))" by blast
  obtain B where B: "shape idx B" "parts_ok (sNodes idx) (sp_entries idx) 25 (sPartitions idx) 0 B"
    using idx(2) by (auto simp: sp_wf_def shape_def)
  have "length (stored (sp_entries idx)) = 5" using mset_eq_length [OF idx(3)] by (simp add: labelled_def five_refs_ok)
  then have "sp_entries idx \<noteq> []" by (auto simp: stored_def)
  then have "B \<noteq> 0" using B(1) by (cases "B = 0") (simp_all add: sp_entries_def shape_def)
  then obtain p ps where "sPartitions idx = p # ps" using B(2) by (cases "sPartitions idx") auto
  then show ?thesis using idx(1,2) B by fastforce
qed

theorem tree_search_terminates_witness:
  "\<exists>idx i s e sc' cs. sp_Build five_refs = Some idx \<and>
    searchKDTree \<lparr>amd64 = True, fuses = True\<rparr> i (bound_of \<lparr>amd64 = True, fuses = True\<rparr> (replicate 14 100) (sNodes idx ! unat i))
      (to_f32 (replicate 14 100)) (replicate 14 100) idx (new_search_scratch\<lparr>SpTop := new_Top5\<rparr>) = Some sc' \<and>
    SpTop sc' = search_top.insert_all cs new_Top5 \<and>
    mset cs = mset (dataset_cands (replicate 14 100) (seg (sp_entries idx) s e))"
proof -
  obtain idx B m and p :: Partition where idx: "sp_Build five_refs = Some idx" and B: "shape idx B"
    and t: "kd_tree (sNodes idx) (sp_entries idx) 25 (unat (pRoot p)) 0 m" using five_refs_index by blast
  have ok: "sc_ok (new_search_scratch\<lparr>SpTop := new_Top5\<rparr>)"
    using top_inv_Reset five_refs_ok(4) by (simp add: sc_ok_def scratch_fits_def new_Top5_def) (simp add: Reset_def WorstI64_def)
  from tree_search_terminates [OF t _ five_refs_ok(3) B ok, of "\<lparr>amd64 = True, fuses = True\<rparr>"]
  show ?thesis using idx unfolding TreeStackCap_def SearchScratch.select_convs SearchScratch.update_convs by simp blast
qed

end
