(* ===== verification/SpecialistCodec.thy ===== *)
theory SpecialistCodec
  imports IvfCodec SpecialistSearch
begin

text \<open>
  The file of the second index: \<open>Serialize\<close>, \<open>Load\<close> and \<open>parseInto\<close> of
  \<open>internal/specialist/index.go\<close>.  A header of 48 bytes is followed by the partition
  entries, the node entries, the blocks and the labels.  The reader returns an error
  for a wrong header, truncated blocks or labels, and panics on truncated tables.
\<close>

subsection \<open>Writing\<close>

definition Magic :: "u8 list" where
  \<comment> \<open>the bytes of \<open>SPCST001\<close>\<close>
  "Magic = [0x53, 0x50, 0x43, 0x53, 0x54, 0x30, 0x30, 0x31]"

definition Version :: nat where "Version = 1"
definition HeaderSize :: nat where "HeaderSize = 48"
definition PartEntrySize :: nat where "PartEntrySize = 72"
definition NodeEntrySize :: nat where "NodeEntrySize = 80"

definition sp_header :: "SpecialistIndex \<Rightarrow> u8 list" where
  "sp_header idx = Magic @ le_bytes 4 Version @ le_bytes 4 10000 @ le_bytes 4 (unat (sN idx)) @ le_bytes 4 (unat (sPartCount idx)) @
     le_bytes 4 (unat (sNodeCount idx)) @ le_bytes 4 (unat (sBlockCount idx)) @ replicate 16 0"

definition writeI16Array :: "i16 list \<Rightarrow> u8 list" where
  "writeI16Array src = encode 2 unat src"

definition part_bytes :: "Partition \<Rightarrow> u8 list" where
  "part_bytes p = le_bytes 4 (unat (pKey p)) @ le_bytes 4 (unat (pRoot p)) @ writeI16Array (pMin p) @ writeI16Array (pMax p)"

definition node_bytes :: "Node \<Rightarrow> u8 list" where
  "node_bytes n = le_bytes 4 (unat (nLeft n)) @ le_bytes 4 (unat (nRight n)) @ le_bytes 4 (unat (nBlockStart n)) @ le_bytes 4 (unat (nLen n)) @
     writeI16Array (nMin n) @ writeI16Array (nMax n)"

definition block_bytes :: "SpecialistIndex \<Rightarrow> u8 list option" where
  \<comment> \<open>the buffer has the size the block count says, computed in \<open>uint32\<close>; writing past it panics\<close>
  "block_bytes idx =
     (let n = unat (sBlockCount idx * 14 * of_nat LANES * 2) in
      if 2 * length (sBlockData idx) \<le> n then Some (encode 2 unat (sBlockData idx) @ replicate (n - 2 * length (sBlockData idx)) 0)
      else None)"

definition sp_writes :: "SpecialistIndex \<Rightarrow> u8 list list option" where
  "sp_writes idx = do {
     ps \<leftarrow> those (map (\<lambda>i. map_option part_bytes (get (sPartitions idx) i)) [0..<unat (sPartCount idx)]);
     ns \<leftarrow> those (map (\<lambda>i. map_option node_bytes (get (sNodes idx) i)) [0..<unat (sNodeCount idx)]);
     bs \<leftarrow> block_bytes idx;
     Some (sp_header idx # ps @ ns @ [bs, sLabels idx])
   }"

definition sp_Serialize :: "('w \<Rightarrow> u8 list \<Rightarrow> 'w option) \<Rightarrow> SpecialistIndex \<Rightarrow> 'w \<Rightarrow> 'w option" where
  \<comment> \<open>\<open>None\<close> when it panics or a write fails\<close>
  "sp_Serialize wr idx w = do { ws \<leftarrow> sp_writes idx; ofold (\<lambda>b w. wr w b) ws w }"

subsection \<open>Reading\<close>

datatype sp_error = FileTooShort nat | NotSpecialist "u8 list" | UnsupportedVersion nat | ScaleDiffers nat
  | BlocksTruncated nat | LabelsTruncated

definition readI16Array :: "u8 list \<Rightarrow> i16 list" where
  "readI16Array src = decode 2 of_nat src"

definition parse_part :: "u8 list \<Rightarrow> nat \<Rightarrow> Partition option" where
  "parse_part raw pos = do {
     k \<leftarrow> gslice raw pos (pos + 4);
     r \<leftarrow> gslice raw (pos + 4) (pos + 8);
     mn \<leftarrow> gslice raw (pos + 8) (pos + 40);
     mx \<leftarrow> gslice raw (pos + 40) (pos + 72);
     Some \<lparr>pKey = of_nat (le_nat k), pRoot = of_nat (le_nat r), pMin = readI16Array mn, pMax = readI16Array mx\<rparr>
   }"

definition parse_node :: "u8 list \<Rightarrow> nat \<Rightarrow> Node option" where
  "parse_node raw pos = do {
     l \<leftarrow> gslice raw pos (pos + 4);
     r \<leftarrow> gslice raw (pos + 4) (pos + 8);
     b \<leftarrow> gslice raw (pos + 8) (pos + 12);
     n \<leftarrow> gslice raw (pos + 12) (pos + 16);
     mn \<leftarrow> gslice raw (pos + 16) (pos + 48);
     mx \<leftarrow> gslice raw (pos + 48) (pos + 80);
     Some \<lparr>nLeft = of_nat (le_nat l), nRight = of_nat (le_nat r), nBlockStart = of_nat (le_nat b), nLen = of_nat (le_nat n),
       nMin = readI16Array mn, nMax = readI16Array mx\<rparr>
   }"

definition parse_tables :: "u8 list \<Rightarrow> (sp_error + SpecialistIndex) option" where
  "parse_tables raw =
     (let partCount = u32_at raw 20; nodeCount = u32_at raw 24; blockCount = u32_at raw 28;
          o1 = HeaderSize + partCount * PartEntrySize; o2 = o1 + nodeCount * NodeEntrySize;
          blocksLen = blockCount * 14 * LANES; o3 = o2 + blocksLen * 2; labelsLen = blockCount * LANES
      in do {
        ps \<leftarrow> those (map (\<lambda>i. parse_part raw (HeaderSize + i * PartEntrySize)) [0..<partCount]);
        ns \<leftarrow> those (map (\<lambda>i. parse_node raw (o1 + i * NodeEntrySize)) [0..<nodeCount]);
        Some (if length raw < o3 then Inl (BlocksTruncated (o3 - length raw))
          else if length raw < o3 + labelsLen then Inl LabelsTruncated
          else Inr \<lparr>sN = of_nat (u32_at raw 16), sPartCount = of_nat partCount, sNodeCount = of_nat nodeCount, sBlockCount = of_nat blockCount,
            sPartitions = ps, sNodes = ns, sBlockData = decode 2 of_nat (take (blocksLen * 2) (drop o2 raw)),
            sLabels = take labelsLen (drop o3 raw)\<rparr>)
      })"

definition parseInto :: "u8 list \<Rightarrow> (sp_error + SpecialistIndex) option" where
  "parseInto raw =
     (if length raw < HeaderSize then Some (Inl (FileTooShort (length raw)))
      else if take 8 raw \<noteq> Magic then Some (Inl (NotSpecialist (take 8 raw)))
      else if u32_at raw 8 \<noteq> Version then Some (Inl (UnsupportedVersion (u32_at raw 8)))
      else if u32_at raw 12 \<noteq> 10000 then Some (Inl (ScaleDiffers (u32_at raw 12)))
      else parse_tables raw)"

definition sp_Load :: "('e + u8 list) \<Rightarrow> ('e + (sp_error + SpecialistIndex)) option" where
  \<comment> \<open>what \<open>io.ReadAll\<close> returned, parsed\<close>
  "sp_Load all = (case all of Inl e \<Rightarrow> Some (Inl e) | Inr bs \<Rightarrow> map_option Inr (parseInto bs))"

subsection \<open>The round trip\<close>

lemma le32 [simp]: "of_nat (le_nat (le_bytes 4 (unat w))) = w" for w :: u32
proof -
  have "unat w < 256 ^ 4" using unsigned_less [of w] by simp
  then show ?thesis by (simp add: le_nat_bytes)
qed

lemma i16_back [simp]: "readI16Array (writeI16Array xs) = xs"
  by (simp add: readI16Array_def writeI16Array_def)

lemma length_part: "length (pMin p) = 16 \<Longrightarrow> length (pMax p) = 16 \<Longrightarrow> length (part_bytes p) = 72"
  and length_node: "boxed n \<Longrightarrow> length (node_bytes n) = 80"
  by (simp_all add: part_bytes_def node_bytes_def writeI16Array_def boxed_def)

lemma parse_part_at:
  assumes "length A = pos" "length (pMin p) = 16" "length (pMax p) = 16"
  shows "parse_part (A @ part_bytes p @ C) pos = Some p"
proof -
  have l: "length (writeI16Array (pMin p)) = 32" "length (writeI16Array (pMax p)) = 32" using assms by (simp_all add: writeI16Array_def)
  have "gslice (A @ part_bytes p @ C) pos (pos + 4) = Some (le_bytes 4 (unat (pKey p)))"
    "gslice (A @ part_bytes p @ C) (pos + 4) (pos + 8) = Some (le_bytes 4 (unat (pRoot p)))"
    "gslice (A @ part_bytes p @ C) (pos + 8) (pos + 40) = Some (writeI16Array (pMin p))"
    "gslice (A @ part_bytes p @ C) (pos + 40) (pos + 72) = Some (writeI16Array (pMax p))"
    using assms(1) l by (simp_all add: part_bytes_def gslice_Some)
  then show ?thesis by (simp add: parse_part_def)
qed

lemma parse_node_at:
  assumes "length A = pos" "boxed n"
  shows "parse_node (A @ node_bytes n @ C) pos = Some n"
proof -
  have l: "length (writeI16Array (nMin n)) = 32" "length (writeI16Array (nMax n)) = 32" using assms by (simp_all add: writeI16Array_def boxed_def)
  have "gslice (A @ node_bytes n @ C) pos (pos + 4) = Some (le_bytes 4 (unat (nLeft n)))"
    "gslice (A @ node_bytes n @ C) (pos + 4) (pos + 8) = Some (le_bytes 4 (unat (nRight n)))"
    "gslice (A @ node_bytes n @ C) (pos + 8) (pos + 12) = Some (le_bytes 4 (unat (nBlockStart n)))"
    "gslice (A @ node_bytes n @ C) (pos + 12) (pos + 16) = Some (le_bytes 4 (unat (nLen n)))"
    "gslice (A @ node_bytes n @ C) (pos + 16) (pos + 48) = Some (writeI16Array (nMin n))"
    "gslice (A @ node_bytes n @ C) (pos + 48) (pos + 80) = Some (writeI16Array (nMax n))"
    using assms(1) l by (simp_all add: node_bytes_def gslice_Some)
  then show ?thesis by (simp add: parse_node_def)
qed

text \<open>A table of entries of one size.\<close>

lemma parse_table:
  assumes "length A = pos" "\<And>x. x \<in> set xs \<Longrightarrow> length (g x) = k"
    and "\<And>A x C. x \<in> set xs \<Longrightarrow> length A = pos + length A - pos \<Longrightarrow> parse (A @ g x @ C) (length A) = Some x"
  shows "those (map (\<lambda>i. parse (A @ concat (map g xs) @ C) (pos + i * k)) [0..<length xs]) = Some xs"
proof -
  have "parse (A @ concat (map g xs) @ C) (pos + i * k) = Some (xs ! i)" if i: "i < length xs" for i
  proof -
    have "concat (map g xs) = concat (map g (take i xs)) @ g (xs ! i) @ concat (map g (drop (Suc i) xs))"
      by (subst id_take_nth_drop [OF i]) simp
    moreover have "length (A @ concat (map g (take i xs))) = pos + i * k"
      using assms(1) i length_concat_const [of "map g (take i xs)" k] assms(2) by (auto dest: in_set_takeD)
    ultimately show ?thesis
      using assms(3) [of "xs ! i" "A @ concat (map g (take i xs))" "concat (map g (drop (Suc i) xs)) @ C"] i by simp
  qed
  then have "those (map (\<lambda>i. parse (A @ concat (map g xs) @ C) (pos + i * k)) [0..<length xs]) = Some (map ((!) xs) [0..<length xs])"
    by (intro those_map_Some) simp
  then show ?thesis by (simp add: map_nth)
qed

definition sp_sized :: "SpecialistIndex \<Rightarrow> bool" where
  "sp_sized idx \<longleftrightarrow> (\<forall>nd \<in> set (sNodes idx). boxed nd) \<and> (\<forall>p \<in> set (sPartitions idx). length (pMin p) = 16 \<and> length (pMax p) = 16) \<and>
     unat (sPartCount idx) = length (sPartitions idx) \<and> unat (sNodeCount idx) = length (sNodes idx) \<and>
     8 * unat (sBlockCount idx) = length (sLabels idx) \<and> length (sBlockData idx) = 14 * length (sLabels idx) \<and>
     unat (sBlockCount idx) * 224 < 2 ^ 32"

lemma sp_Build_sized:
  assumes "dataset_ok ds" "Count ds * 224 < 2 ^ 32"
  shows "\<exists>idx. sp_Build ds = Some idx \<and> sp_sized idx"
proof -
  have "Count ds * 112 < 2 ^ 32" using assms(2) by simp
  from sp_Build_wf [OF assms(1) this] obtain idx where idx: "sp_Build ds = Some idx" "sp_wf idx" "unat (sBlockCount idx) \<le> Count ds" by blast
  have "unat (sBlockCount idx) * 224 < 2 ^ 32" using idx(3) assms(2) by (meson le_less_trans mult_le_mono1)
  then show ?thesis using idx(1,2) by (auto simp: sp_wf_def sp_sized_def)
qed

definition sp_file :: "SpecialistIndex \<Rightarrow> u8 list" where
  "sp_file idx = sp_header idx @ concat (map part_bytes (sPartitions idx)) @ concat (map node_bytes (sNodes idx)) @
     encode 2 unat (sBlockData idx) @ sLabels idx"

lemma sp_writes_file:
  assumes "sp_sized idx"
  shows "\<exists>ws. sp_writes idx = Some ws \<and> concat ws = sp_file idx"
proof -
  have s: "unat (sPartCount idx) = length (sPartitions idx)" "unat (sNodeCount idx) = length (sNodes idx)"
    "length (sBlockData idx) = 14 * (8 * unat (sBlockCount idx))" "unat (sBlockCount idx) * 224 < 2 ^ 32"
    using assms by (simp_all add: sp_sized_def)
  have t: "those (map (\<lambda>i. map_option f (get xs i)) [0..<length xs]) = Some (map f xs)" for f :: "'a \<Rightarrow> u8 list" and xs
  proof -
    have "those (map (\<lambda>i. map_option f (get xs i)) [0..<length xs]) = Some (map (\<lambda>i. f (xs ! i)) [0..<length xs])"
      by (intro those_map_Some) (simp add: get_Some)
    moreover have "map (\<lambda>i. f (xs ! i)) [0..<length xs] = map f xs" by (rule nth_equalityI) simp_all
    ultimately show ?thesis by simp
  qed
  have "sBlockCount idx * 14 * of_nat LANES * 2 = of_nat (unat (sBlockCount idx) * 224)" by (simp add: LANES_def)
  then have n: "unat (sBlockCount idx * 14 * of_nat LANES * 2) = unat (sBlockCount idx) * 224" using s(4) by (simp only: unat_u32)
  have "block_bytes idx = Some (encode 2 unat (sBlockData idx))"
    unfolding block_bytes_def n using s(3) by simp
  then show ?thesis unfolding sp_writes_def s(1,2) t by (simp add: sp_file_def)
qed
lemma sp_header_fields:
  "take 8 (sp_header idx @ t) = Magic" "u32_at (sp_header idx @ t) 8 = Version" "u32_at (sp_header idx @ t) 12 = 10000"
  "u32_at (sp_header idx @ t) 16 = unat (sN idx)" "u32_at (sp_header idx @ t) 20 = unat (sPartCount idx)"
  "u32_at (sp_header idx @ t) 24 = unat (sNodeCount idx)" "u32_at (sp_header idx @ t) 28 = unat (sBlockCount idx)"
proof -
  have m: "length Magic = 8" by (simp add: Magic_def)
  have "unat w < 256 ^ 4" for w :: u32 using unsigned_less [of w] by simp
  then have w: "unat w mod 256 ^ 4 = unat w" for w :: u32 by (intro mod_less)
  have r: "drop i (sp_header idx @ t) = drop i (Magic @ le_bytes 4 Version @ le_bytes 4 10000 @ le_bytes 4 (unat (sN idx)) @ le_bytes 4 (unat (sPartCount idx)) @
     le_bytes 4 (unat (sNodeCount idx)) @ le_bytes 4 (unat (sBlockCount idx)) @ replicate 16 0 @ t)" for i by (simp add: sp_header_def)
  show "take 8 (sp_header idx @ t) = Magic" by (simp add: sp_header_def m)
  show "u32_at (sp_header idx @ t) 8 = Version" "u32_at (sp_header idx @ t) 12 = 10000"
    "u32_at (sp_header idx @ t) 16 = unat (sN idx)" "u32_at (sp_header idx @ t) 20 = unat (sPartCount idx)"
    "u32_at (sp_header idx @ t) 24 = unat (sNodeCount idx)" "u32_at (sp_header idx @ t) 28 = unat (sBlockCount idx)"
    unfolding u32_at_def r by (simp_all add: m le_nat_bytes w [simplified] Version_def)
qed

lemma length_sp_header [simp]: "length (sp_header idx) = 48"
  by (simp add: sp_header_def Magic_def)

definition tables_end :: "SpecialistIndex \<Rightarrow> nat" where
  "tables_end idx = 48 + length (sPartitions idx) * 72 + length (sNodes idx) * 80"

lemma parse_tables_at:
  fixes t :: "u8 list"
  assumes sz: "sp_sized idx"
  defines "b \<equiv> unat (sBlockCount idx)"
  defines "raw \<equiv> sp_header idx @ concat (map part_bytes (sPartitions idx)) @ concat (map node_bytes (sNodes idx)) @ t"
  shows "length raw = tables_end idx + length t"
    and "parseInto raw = Some (if length t < b * 224 then Inl (BlocksTruncated (b * 224 - length t))
      else if length t < b * 232 then Inl LabelsTruncated
      else Inr (idx\<lparr>sBlockData := decode 2 of_nat (take (b * 224) t), sLabels := take (b * 8) (drop (b * 224) t)\<rparr>))"
proof -
  define P N where "P = concat (map part_bytes (sPartitions idx))" and "N = concat (map node_bytes (sNodes idx))"
  have c: "unat (sPartCount idx) = length (sPartitions idx)" "unat (sNodeCount idx) = length (sNodes idx)" using sz by (simp_all add: sp_sized_def)
  have pl: "\<And>p. p \<in> set (sPartitions idx) \<Longrightarrow> length (part_bytes p) = 72" and nl: "\<And>n. n \<in> set (sNodes idx) \<Longrightarrow> length (node_bytes n) = 80"
    using sz length_part length_node by (auto simp: sp_sized_def)
  have l: "length P = length (sPartitions idx) * 72" "length N = length (sNodes idx) * 80"
    unfolding P_def N_def using pl nl length_concat_const [of "map part_bytes (sPartitions idx)" 72] length_concat_const [of "map node_bytes (sNodes idx)" 80]
    by auto
  have raw: "raw = sp_header idx @ P @ N @ t" by (simp add: raw_def P_def N_def)
  show len: "length raw = tables_end idx + length t" by (simp add: raw l tables_end_def)
  note f = sp_header_fields [of idx "P @ N @ t", folded raw]
  have ps: "those (map (\<lambda>i. parse_part raw (48 + i * 72)) [0..<length (sPartitions idx)]) = Some (sPartitions idx)"
    unfolding raw P_def using sz
    by (intro parse_table length_sp_header pl parse_part_at) (auto simp: sp_sized_def)
  have "those (map (\<lambda>i. parse_node ((sp_header idx @ P) @ N @ t) (48 + length (sPartitions idx) * 72 + i * 80)) [0..<length (sNodes idx)]) = Some (sNodes idx)"
    unfolding N_def using sz l(1)
    by (intro parse_table nl parse_node_at) (auto simp: sp_sized_def)
  then have ns: "those (map (\<lambda>i. parse_node raw (48 + length (sPartitions idx) * 72 + i * 80)) [0..<length (sNodes idx)]) = Some (sNodes idx)"
    by (simp add: raw)
  have d: "drop (48 + length (sPartitions idx) * 72 + length (sNodes idx) * 80) raw = t"
    "drop (48 + length (sPartitions idx) * 72 + length (sNodes idx) * 80 + x) raw = drop x t" for x
    using l length_sp_header [of idx] by (simp_all add: raw)
  have r: "idx\<lparr>sBlockData := x, sLabels := y\<rparr> = \<lparr>sN = sN idx, sPartCount = sPartCount idx, sNodeCount = sNodeCount idx, sBlockCount = sBlockCount idx,
      sPartitions = sPartitions idx, sNodes = sNodes idx, sBlockData = x, sLabels = y\<rparr>" for x y by (cases idx) simp
  have "parse_tables raw = Some (if length t < b * 224 then Inl (BlocksTruncated (b * 224 - length t))
      else if length t < b * 232 then Inl LabelsTruncated
      else Inr (idx\<lparr>sBlockData := decode 2 of_nat (take (b * 224) t), sLabels := take (b * 8) (drop (b * 224) t)\<rparr>))"
    unfolding parse_tables_def f HeaderSize_def PartEntrySize_def NodeEntrySize_def LANES_def Let_def c ps ns Option.bind.simps d len tables_end_def r
    using c by (auto simp: b_def mult.commute) (simp_all add: mult.commute flip: c)
  moreover have "\<not> length raw < 48" using length_sp_header [of idx] by (simp add: raw)
  ultimately show "parseInto raw = Some (if length t < b * 224 then Inl (BlocksTruncated (b * 224 - length t))
      else if length t < b * 232 then Inl LabelsTruncated
      else Inr (idx\<lparr>sBlockData := decode 2 of_nat (take (b * 224) t), sLabels := take (b * 8) (drop (b * 224) t)\<rparr>))"
    unfolding parseInto_def f HeaderSize_def by (simp only: if_False simp_thms)
qed
lemma sp_file_split:
  assumes "sp_sized idx"
  shows "sp_file idx = sp_header idx @ concat (map part_bytes (sPartitions idx)) @ concat (map node_bytes (sNodes idx)) @
      (encode 2 unat (sBlockData idx) @ sLabels idx)"
    and "length (encode 2 unat (sBlockData idx)) = unat (sBlockCount idx) * 224" "length (sLabels idx) = unat (sBlockCount idx) * 8"
    and "length (sp_file idx) = tables_end idx + unat (sBlockCount idx) * 232"
proof -
  show f: "sp_file idx = sp_header idx @ concat (map part_bytes (sPartitions idx)) @ concat (map node_bytes (sNodes idx)) @
      (encode 2 unat (sBlockData idx) @ sLabels idx)" by (simp add: sp_file_def)
  show l: "length (encode 2 unat (sBlockData idx)) = unat (sBlockCount idx) * 224" "length (sLabels idx) = unat (sBlockCount idx) * 8"
    using assms by (simp_all add: sp_sized_def)
  show "length (sp_file idx) = tables_end idx + unat (sBlockCount idx) * 232"
    using parse_tables_at(1) [OF assms, of "encode 2 unat (sBlockData idx) @ sLabels idx"] l unfolding f by simp
qed

lemma those_None: "x \<in> set xs \<Longrightarrow> f x = None \<Longrightarrow> those (map f xs) = None"
  by (induction xs) (auto split: option.splits)

lemma cut_table:
  \<comment> \<open>a table that the data does not hold to its end\<close>
  assumes "length raw < pos + n * k" "0 < n" "\<And>q. length raw < q + k \<Longrightarrow> parse raw q = None"
  shows "those (map (\<lambda>i. parse raw (pos + i * k)) [0..<n]) = None"
proof (rule those_None)
  show "n - 1 \<in> set [0..<n]" using assms(2) by simp
  have "pos + (n - 1) * k + k = pos + n * k" using assms(2) by (cases n) simp_all
  then show "parse raw (pos + (n - 1) * k) = None" using assms(1) by (intro assms(3)) simp
qed

lemma cut_entry:
  "length raw < q + 72 \<Longrightarrow> parse_part raw q = None" "length raw < q + 80 \<Longrightarrow> parse_node raw q = None"
  by (auto simp: parse_part_def parse_node_def gslice_def split: bind_splits)

section \<open>Properties\<close>

text \<open>C37. The file of the second index: what \<open>Build\<close> returns for fewer than \<open>2 ^ 32 / 224\<close> quantised vectors, written by \<open>Serialize\<close>, is read back by
  \<open>parseInto\<close> as the same index; bytes after it are ignored.\<close>

theorem specialist_file_roundtrip:
  assumes "dataset_ok ds" "Count ds * 224 < 2 ^ 32"
  shows "\<exists>idx bytes. sp_Build ds = Some idx \<and> sp_Serialize (\<lambda>w b. Some (w @ b)) idx [] = Some bytes \<and>
    parseInto (bytes @ t) = Some (Inr idx)"
proof -
  from sp_Build_sized [OF assms] obtain idx where idx: "sp_Build ds = Some idx" "sp_sized idx" by blast
  obtain ws where ws: "sp_writes idx = Some ws" "concat ws = sp_file idx" using sp_writes_file [OF idx(2)] by blast
  have "ofold (\<lambda>b w. Some (w @ b)) bs w = Some (w @ concat bs)" for bs :: "u8 list list" and w
    by (induction bs arbitrary: w) auto
  then have s: "sp_Serialize (\<lambda>w b. Some (w @ b)) idx [] = Some (sp_file idx)" by (simp add: sp_Serialize_def ws)
  note f = sp_file_split [OF idx(2)]
  have "idx\<lparr>sBlockData := sBlockData idx, sLabels := sLabels idx\<rparr> = idx" by (cases idx) simp
  moreover have "length (encode 2 unat (sBlockData idx) @ sLabels idx @ t) = unat (sBlockCount idx) * 232 + length t"
    using f(2,3) by simp
  ultimately have "parseInto (sp_file idx @ t) = Some (Inr idx)"
    using parse_tables_at(2) [OF idx(2), of "encode 2 unat (sBlockData idx) @ sLabels idx @ t"] f(2,3) unfolding f(1) by simp
  then show ?thesis using idx(1) s by blast
qed

theorem specialist_file_roundtrip_witness:
  "\<exists>idx bytes. sp_Build five_refs = Some idx \<and> sp_Serialize (\<lambda>w b. Some (w @ b)) idx [] = Some bytes \<and>
    parseInto (bytes @ [1, 2, 3]) = Some (Inr idx)"
  by (rule specialist_file_roundtrip [OF five_refs_ok(1)]) (simp add: five_refs_ok)

text \<open>A truncated file of the second index is an error when the header, the blocks or the labels are cut, and a
  panic when the partition or node table is cut, because its entries are read without a bounds test.\<close>

theorem specialist_truncated_file:
  assumes "sp_sized idx" "n < length (sp_file idx)"
  shows "parseInto (take n (sp_file idx)) =
    (if n < 48 then Some (Inl (FileTooShort n))
     else if n < tables_end idx then None
     else if n < tables_end idx + unat (sBlockCount idx) * 224 then Some (Inl (BlocksTruncated (tables_end idx + unat (sBlockCount idx) * 224 - n)))
     else Some (Inl LabelsTruncated))"
proof -
  note f = sp_file_split [OF assms(1)]
  define raw where "raw = take n (sp_file idx)"
  have l: "length raw = n" using assms(2) by (simp add: raw_def)
  define rest where "rest = encode 2 unat (sBlockData idx) @ sLabels idx"
  consider "n < 48" | "48 \<le> n" "n < tables_end idx" | "tables_end idx \<le> n" "48 \<le> n" unfolding tables_end_def by linarith
  then show ?thesis
  proof cases
    case 1
    then show ?thesis unfolding raw_def [symmetric] parseInto_def HeaderSize_def l by simp
  next
    case 2
    have "raw = sp_header idx @ take (n - 48) (concat (map part_bytes (sPartitions idx)) @ concat (map node_bytes (sNodes idx)) @ rest)"
      unfolding raw_def f(1) rest_def using 2(1) by simp
    then have h: "take 8 raw = Magic" "u32_at raw 8 = Version" "u32_at raw 12 = 10000"
      "u32_at raw 20 = unat (sPartCount idx)" "u32_at raw 24 = unat (sNodeCount idx)"
      using sp_header_fields by metis+
    have c: "unat (sPartCount idx) = length (sPartitions idx)" "unat (sNodeCount idx) = length (sNodes idx)" using assms(1) by (simp_all add: sp_sized_def)
    have "parse_tables raw = None"
    proof (cases "n < 48 + length (sPartitions idx) * 72")
      case True
      then have "those (map (\<lambda>i. parse_part raw (48 + i * 72)) [0..<length (sPartitions idx)]) = None"
        using 2(1) l by (intro cut_table cut_entry(1)) (auto intro: Nat.gr0I)
      then show ?thesis by (simp add: parse_tables_def h c HeaderSize_def PartEntrySize_def Let_def)
    next
      case False
      then have "those (map (\<lambda>i. parse_node raw (48 + length (sPartitions idx) * 72 + i * 80)) [0..<length (sNodes idx)]) = None"
        using 2(2) l by (intro cut_table cut_entry(2)) (auto simp: tables_end_def intro: Nat.gr0I)
      then show ?thesis
        by (simp add: parse_tables_def h c HeaderSize_def PartEntrySize_def NodeEntrySize_def Let_def split: bind_split)
    qed
    then show ?thesis using 2 l unfolding raw_def [symmetric] parseInto_def h HeaderSize_def by simp
  next
    case 3
    have "length (sp_header idx @ concat (map part_bytes (sPartitions idx)) @ concat (map node_bytes (sNodes idx))) = tables_end idx"
      using parse_tables_at(1) [OF assms(1), of "[]"] by simp
    then have "raw = sp_header idx @ concat (map part_bytes (sPartitions idx)) @ concat (map node_bytes (sNodes idx)) @ take (n - tables_end idx) rest"
      using 3 unfolding raw_def f(1) rest_def [symmetric] by (simp add: add.assoc)
    moreover have "length (take (n - tables_end idx) rest) = n - tables_end idx" "n - tables_end idx < unat (sBlockCount idx) * 232"
      using assms(2) 3 f(2-4) by (simp_all add: rest_def)
    ultimately have "parseInto raw = Some (if n - tables_end idx < unat (sBlockCount idx) * 224
        then Inl (BlocksTruncated (unat (sBlockCount idx) * 224 - (n - tables_end idx))) else Inl LabelsTruncated)"
      using parse_tables_at(2) [OF assms(1), of "take (n - tables_end idx) rest"] by simp
    then show ?thesis using 3 unfolding raw_def [symmetric] by auto
  qed
qed

theorem specialist_truncated_file_witness:
  "\<exists>idx. sp_Build five_refs = Some idx \<and> parseInto (take 20 (sp_file idx)) = Some (Inl (FileTooShort 20)) \<and>
    parseInto (take 100 (sp_file idx)) = None"
proof -
  have "Count five_refs * 224 < 2 ^ 32" by (simp add: five_refs_ok)
  from sp_Build_sized [OF five_refs_ok(1) this] obtain idx where idx: "sp_Build five_refs = Some idx" "sp_sized idx" by blast
  obtain p ps where "sPartitions idx = p # ps" using five_refs_index idx(1) by auto
  then have "100 < tables_end idx" by (simp add: tables_end_def)
  then show ?thesis
    using specialist_truncated_file [OF idx(2), of 20] specialist_truncated_file [OF idx(2), of 100] sp_file_split(4) [OF idx(2)] idx(1)
    by auto
qed

end
