(* ===== verification/GoRand.thy ===== *)
theory GoRand
  imports GoFloat
begin

unbundle bit_operations_syntax

text \<open>
  The generator of \<open>math/rand/v2\<close> that the k-means trainer seeds: the permuted
  congruential generator PCG-DXSM (a 128-bit linear congruential state and a
  64-bit output), and the methods \<open>IntN\<close> and \<open>Float64\<close> of \<open>rand.Rand\<close> over it.

  The generator has full period, so every state is reached from every other:
  a power-of-two modulus, a multiplier that is one modulo four and an odd
  increment.  Its output takes every value, hence \<open>IntN\<close> always returns, stays
  below its argument, and a loop that draws until it sees a wanted value ends.
\<close>

subsection \<open>The generator\<close>

type_synonym pcg = "128 word"

definition pcg_mul :: int where
  "pcg_mul = 2549297995355413924 * 2 ^ 64 + 4865540595714422341"

definition pcg_inc :: int where
  "pcg_inc = 6364136223846793005 * 2 ^ 64 + 1442695040888963407"

definition NewPCG :: "u64 \<Rightarrow> u64 \<Rightarrow> pcg" where
  "NewPCG seed1 seed2 = push_bit 64 (ucast seed1) OR ucast seed2"

definition pcg_next :: "pcg \<Rightarrow> pcg" where
  "pcg_next s = s * word_of_int pcg_mul + word_of_int pcg_inc"

definition cheapMul :: u64 where
  "cheapMul = 0xda942042e4dd58b5"

definition dxsm :: "u64 \<Rightarrow> u64 \<Rightarrow> u64" where
  "dxsm hi lo =
     (let a = hi XOR drop_bit 32 hi;
          b = a * cheapMul;
          c = b XOR drop_bit 48 b
      in c * (lo OR 1))"

definition pcg_output :: "pcg \<Rightarrow> u64" where
  "pcg_output s = dxsm (ucast (drop_bit 64 s)) (ucast s)"

definition Uint64 :: "pcg \<Rightarrow> u64 \<times> pcg" where
  "Uint64 r = (let r' = pcg_next r in (pcg_output r', r'))"

subsection \<open>IntN and Float64\<close>

text \<open>\<open>IntN\<close> takes the high half of a 64 by 64 bit product and redraws while the low half says that
  the value would be biased; a power of two is masked.\<close>

partial_function (option) uint64n_loop :: "nat \<Rightarrow> nat \<Rightarrow> nat \<Rightarrow> nat \<Rightarrow> pcg \<Rightarrow> (nat \<times> pcg) option" where
  "uint64n_loop n thresh hi lo r =
     (if lo < thresh then
        uint64n_loop n thresh (unat (fst (Uint64 r)) * n div 2 ^ 64) (unat (fst (Uint64 r)) * n mod 2 ^ 64) (snd (Uint64 r))
      else Some (hi, r))"

definition uint64n :: "nat \<Rightarrow> pcg \<Rightarrow> (nat \<times> pcg) option" where
  "uint64n n r =
     (let (x, r') = Uint64 r in
      if n AND (n - 1) = 0 then Some (unat x AND (n - 1), r')
      else
        let hi = unat x * n div 2 ^ 64; lo = unat x * n mod 2 ^ 64 in
        if lo < n then uint64n_loop n ((2 ^ 64 - n) mod n) hi lo r'
        else Some (hi, r'))"

definition IntN :: "nat \<Rightarrow> pcg \<Rightarrow> (nat \<times> pcg) option" where
  \<comment> \<open>panics when there is nothing to choose from\<close>
  "IntN n r = (if n = 0 then None else uint64n n r)"

definition Float64 :: "pcg \<Rightarrow> fl \<times> pcg" where
  "Float64 r = (let (x, r') = Uint64 r in (fdiv F64 (fl_of_int F64 (int (unat x mod 2 ^ 53))) (Fin (2 ^ 53)), r'))"

subsection \<open>Full period\<close>

definition lcg :: "int \<Rightarrow> int" where
  "lcg x = pcg_mul * x + pcg_inc"

lemma lcg_power: "\<exists>u v. \<forall>x. (lcg ^^ (2 ^ k)) x = (1 + 2 ^ (k + 2) * u) * x + 2 ^ k * (2 * v + 1)"
proof (induction k)
  case 0
  have "pcg_mul = 1 + 2 ^ 2 * (pcg_mul div 4)" "pcg_inc = 2 * (pcg_inc div 2) + 1"
    by (simp_all add: pcg_mul_def pcg_inc_def)
  then have "lcg x = (1 + 2 ^ (0 + 2) * (pcg_mul div 4)) * x + 2 ^ 0 * (2 * (pcg_inc div 2) + 1)" for x
    unfolding lcg_def by simp
  then show ?case by (intro exI allI) simp
next
  case (Suc k)
  then obtain u v where uv: "\<And>x. (lcg ^^ (2 ^ k)) x = (1 + 2 ^ (k + 2) * u) * x + 2 ^ k * (2 * v + 1)" by blast
  define A where "A = 1 + 2 ^ (k + 2) * u"
  define C where "C = 2 ^ k * (2 * v + 1)"
  have "(lcg ^^ (2 ^ Suc k)) x = A * (A * x + C) + C" for x
  proof -
    have "(2 :: nat) ^ Suc k = 2 ^ k + 2 ^ k" by simp
    then have "(lcg ^^ (2 ^ Suc k)) x = (lcg ^^ (2 ^ k)) ((lcg ^^ (2 ^ k)) x)" by (simp only: funpow_add comp_apply)
    then show ?thesis using uv by (simp add: A_def C_def)
  qed
  moreover have "A * (A * x + C) + C = (1 + 2 ^ (Suc k + 2) * (u + 2 ^ (k + 1) * u * u)) * x +
      2 ^ Suc k * (2 * (v + 2 ^ k * u * (2 * v + 1)) + 1)" for x
    by (simp add: A_def C_def algebra_simps power_add)
  ultimately show ?case by metis
qed

lemma lcg_reaches: "\<exists>n. 2 ^ k dvd (lcg ^^ n) x - t"
proof (induction k)
  case (Suc k)
  then obtain n m where n: "(lcg ^^ n) x - t = 2 ^ k * m" by blast
  show ?case
  proof (cases "even m")
    case True
    then have "2 ^ Suc k dvd (lcg ^^ n) x - t" by (simp add: n)
    then show ?thesis by blast
  next
    case False
    obtain u v where uv: "\<And>x. (lcg ^^ (2 ^ k)) x = (1 + 2 ^ (k + 2) * u) * x + 2 ^ k * (2 * v + 1)"
      using lcg_power by blast
    define y where "y = (lcg ^^ n) x"
    have "(lcg ^^ (2 ^ k + n)) x = (1 + 2 ^ (k + 2) * u) * y + 2 ^ k * (2 * v + 1)"
      by (simp add: funpow_add uv y_def)
    then have "(lcg ^^ (2 ^ k + n)) x - t = 2 ^ k * (m + 4 * u * y + 2 * v + 1)"
      using n by (simp add: algebra_simps y_def power_add)
    moreover have "even (m + 4 * u * y + 2 * v + 1)" using False by simp
    ultimately have "2 ^ Suc k dvd (lcg ^^ (2 ^ k + n)) x - t" by simp
    then show ?thesis by blast
  qed
qed simp

lemma pcg_next_power: "(pcg_next ^^ n) (word_of_int x) = word_of_int ((lcg ^^ n) x)"
  by (induction n) (simp_all add: pcg_next_def lcg_def mult.commute)

lemma pcg_reaches: "\<exists>m \<ge> 1. (pcg_next ^^ m) s = t"
proof -
  obtain n where n: "2 ^ 128 dvd (lcg ^^ n) (uint (pcg_next s)) - uint t" using lcg_reaches by blast
  have "(word_of_int ((lcg ^^ n) (uint (pcg_next s))) :: pcg) = word_of_int (uint t)"
    using n by (simp only: word_of_int_eq_iff take_bit_eq_mod mod_eq_dvd_iff) simp
  moreover have "(pcg_next ^^ n) (pcg_next s) = word_of_int ((lcg ^^ n) (uint (pcg_next s)))"
    using pcg_next_power [of n "uint (pcg_next s)"] by simp
  ultimately have "(pcg_next ^^ Suc n) s = t" by (simp add: funpow_swap1)
  then show ?thesis by (metis One_nat_def Suc_le_mono le0)
qed

subsection \<open>Every output occurs\<close>

lemma xorshift_inverse: "64 \<le> 2 * k \<Longrightarrow> (x XOR drop_bit k x) XOR drop_bit k (x XOR drop_bit k x) = (x :: u64)"
proof -
  assume k: "64 \<le> 2 * k"
  have "drop_bit (k + k) x = 0"
    using k by (intro bit_word_eqI) (auto simp: bit_simps dest: bit_imp_le_length)
  then have "drop_bit k (x XOR drop_bit k x) = drop_bit k x" by simp
  then show ?thesis by (simp add: xor.assoc)
qed

lemma dxsm_surj: "\<exists>h. dxsm h 0 = y"
proof -
  define c where "c = y XOR drop_bit 48 y"
  define b where "b = c * 10053033838670173597"
  define h where "h = b XOR drop_bit 32 b"
  have "h XOR drop_bit 32 h = b" unfolding h_def by (rule xorshift_inverse) simp
  moreover have "10053033838670173597 * cheapMul = 1" by (simp add: cheapMul_def)
  then have "b * cheapMul = c" by (simp only: b_def mult.assoc mult_1_right)
  moreover have "c XOR drop_bit 48 c = y" unfolding c_def by (rule xorshift_inverse) simp
  ultimately show ?thesis by (intro exI [of _ h]) (simp add: dxsm_def Let_def)
qed

lemma pcg_output_surj: "\<exists>s. pcg_output s = y"
proof -
  obtain h where h: "dxsm h 0 = y" using dxsm_surj by blast
  define s :: pcg where "s = push_bit 64 (ucast h)"
  have "ucast (drop_bit 64 s) = h" "ucast s = (0 :: u64)"
    by (auto simp: s_def bit_simps intro!: bit_word_eqI dest: bit_imp_le_length)
  then have "pcg_output s = y" using h by (simp add: pcg_output_def)
  then show ?thesis by blast
qed

subsection \<open>IntN returns\<close>

text \<open>What one output makes of \<open>IntN\<close>: a value, or another draw.\<close>

definition accepted :: "nat \<Rightarrow> u64 \<Rightarrow> nat option" where
  "accepted n x =
     (if n AND (n - 1) = 0 then Some (unat x AND (n - 1))
      else if unat x * n mod 2 ^ 64 < (2 ^ 64 - n) mod n then None else Some (unat x * n div 2 ^ 64))"

lemma uint64n_loop_reaches:
  assumes "(pcg_next ^^ m) r = t" and "accepted n (pcg_output t) = Some v" and "n AND (n - 1) \<noteq> 0"
    and "p = unat (pcg_output r) * n"
  shows "\<exists>k \<le> m. \<exists>w. uint64n_loop n ((2 ^ 64 - n) mod n) (p div 2 ^ 64) (p mod 2 ^ 64) r = Some (w, (pcg_next ^^ k) r) \<and>
    accepted n (pcg_output ((pcg_next ^^ k) r)) = Some w"
  using assms
proof (induction m arbitrary: r p)
  case 0
  then have "\<not> p mod 2 ^ 64 < (2 ^ 64 - n) mod n" by (auto simp: accepted_def split: if_splits)
  then show ?case using 0 by (subst uint64n_loop.simps) (simp add: accepted_def)
next
  case (Suc m)
  show ?case
  proof (cases "p mod 2 ^ 64 < (2 ^ 64 - n) mod n")
    case False
    then show ?thesis
      using Suc.prems(3,4) by (intro exI [of _ 0]) (subst uint64n_loop.simps, simp add: accepted_def)
  next
    case True
    have "(pcg_next ^^ m) (pcg_next r) = t" using Suc.prems(1) by (simp add: funpow_swap1)
    from Suc.IH [OF this Suc.prems(2,3) refl] obtain k w where
      k: "k \<le> m" "uint64n_loop n ((2 ^ 64 - n) mod n) (unat (pcg_output (pcg_next r)) * n div 2 ^ 64)
          (unat (pcg_output (pcg_next r)) * n mod 2 ^ 64) (pcg_next r) = Some (w, (pcg_next ^^ k) (pcg_next r))"
        "accepted n (pcg_output ((pcg_next ^^ k) (pcg_next r))) = Some w" by blast
    have "uint64n_loop n ((2 ^ 64 - n) mod n) (p div 2 ^ 64) (p mod 2 ^ 64) r = Some (w, (pcg_next ^^ Suc k) r)"
      using True k(2) by (subst uint64n_loop.simps) (simp add: Uint64_def Let_def funpow_swap1)
    then show ?thesis using k(1,3) by (intro exI [of _ "Suc k"]) (simp add: funpow_swap1)
  qed
qed

lemma IntN_reaches:
  \<comment> \<open>a later state whose output is accepted bounds how long \<open>IntN\<close> can take\<close>
  assumes "0 < n" and "1 \<le> m" and "(pcg_next ^^ m) r = t" and "accepted n (pcg_output t) = Some v"
  shows "\<exists>k w. 1 \<le> k \<and> k \<le> m \<and> IntN n r = Some (w, (pcg_next ^^ k) r) \<and>
    accepted n (pcg_output ((pcg_next ^^ k) r)) = Some w"
proof (cases "n AND (n - 1) = 0")
  case True
  then show ?thesis
    using assms(1,2) by (intro exI [of _ 1] exI [of _ "unat (pcg_output (pcg_next r)) AND (n - 1)"])
      (simp add: IntN_def uint64n_def Uint64_def Let_def accepted_def)
next
  case False
  define p where "p = unat (pcg_output (pcg_next r)) * n"
  have th: "(2 ^ 64 - n) mod n < n" using assms(1) by simp
  obtain m' where m': "m = Suc m'" using assms(2) by (cases m) auto
  then have "(pcg_next ^^ m') (pcg_next r) = t" using assms(3) by (simp add: funpow_swap1)
  from uint64n_loop_reaches [OF this assms(4) False p_def] obtain k w where
    k: "k \<le> m'" "uint64n_loop n ((2 ^ 64 - n) mod n) (p div 2 ^ 64) (p mod 2 ^ 64) (pcg_next r) = Some (w, (pcg_next ^^ k) (pcg_next r))"
      "accepted n (pcg_output ((pcg_next ^^ k) (pcg_next r))) = Some w" by blast
  show ?thesis
  proof (cases "p mod 2 ^ 64 < n")
    case True
    then have "IntN n r = Some (w, (pcg_next ^^ Suc k) r)"
      using k(2) False assms(1) by (simp add: IntN_def uint64n_def Uint64_def Let_def p_def funpow_swap1)
    then show ?thesis using k(1,3) m' by (intro exI [of _ "Suc k"] exI [of _ w]) (simp add: funpow_swap1)
  next
    case large: False
    then have "IntN n r = Some (p div 2 ^ 64, (pcg_next ^^ 1) r)"
      using False assms(1) by (simp add: IntN_def uint64n_def Uint64_def Let_def p_def)
    moreover have "accepted n (pcg_output ((pcg_next ^^ 1) r)) = Some (p div 2 ^ 64)"
      using False large th by (simp add: accepted_def p_def)
    ultimately show ?thesis using assms(2) by blast
  qed
qed

subsection \<open>The values of IntN\<close>

lemma power_of_two: "0 < n \<Longrightarrow> n AND (n - 1) = 0 \<Longrightarrow> \<exists>k. n = 2 ^ k" for n :: nat
proof (induction n rule: less_induct)
  case (less n)
  show ?case
  proof (cases "even n")
    case True
    then obtain m where m: "n = 2 * m" by blast
    have "0 < m" using less.prems(1) m by simp
    have "(n AND (n - 1)) div 2 = n div 2 AND (n - 1) div 2" by (simp only: drop_bit_and [of 1, unfolded drop_bit_eq_div power_one_right])
    moreover have "(2 * m - 1) div 2 = m - 1" using \<open>0 < m\<close> by presburger
    ultimately have "m AND (m - 1) = 0" using less.prems(2) m by simp
    then obtain k where "m = 2 ^ k" using less.IH [of m] m \<open>0 < m\<close> by auto
    then have "n = 2 ^ Suc k" using m by simp
    then show ?thesis by blast
  next
    case False
    then obtain m where m: "n = 2 * m + 1" by (metis oddE)
    have "(n AND (n - 1)) div 2 = n div 2 AND (n - 1) div 2" by (simp only: drop_bit_and [of 1, unfolded drop_bit_eq_div power_one_right])
    then have "m = 0" using less.prems(2) m by simp
    then have "n = 2 ^ 0" using m by simp
    then show ?thesis by blast
  qed
qed

lemma and_power_of_two: "v AND (2 ^ k - 1) = v mod 2 ^ k" for v :: nat
  using take_bit_eq_mask [of k v] by (simp add: mask_eq_exp_minus_1 take_bit_eq_mod)

lemma accepted_less: "0 < n \<Longrightarrow> accepted n x = Some v \<Longrightarrow> v < n"
proof -
  assume n: "0 < n" and v: "accepted n x = Some v"
  show "v < n"
  proof (cases "n AND (n - 1) = 0")
    case True
    then obtain k where "n = 2 ^ k" using power_of_two n by blast
    then show ?thesis using v True using and_power_of_two by (auto simp: accepted_def)
  next
    case False
    have "unat x < 2 ^ 64" using unsigned_less [where w = x and 'a = nat] by simp
    then have "unat x * n < n * 2 ^ 64" using n by simp
    then show ?thesis using v False by (auto simp: accepted_def less_mult_imp_div_less split: if_splits)
  qed
qed

lemma accepted_surj: "v < n \<Longrightarrow> n \<le> 2 ^ 63 \<Longrightarrow> \<exists>x. accepted n x = Some v"
proof -
  assume v: "v < n" and n: "n \<le> 2 ^ 63"
  show ?thesis
  proof (cases "n AND (n - 1) = 0")
    case True
    then obtain k where "n = 2 ^ k" using power_of_two [of n] v by auto
    moreover have "unat (of_nat v :: u64) = v" using v n by simp
    ultimately have "accepted n (of_nat v) = Some v" using v True and_power_of_two [of v k] by (simp add: accepted_def)
    then show ?thesis by blast
  next
    case False
    define y where "y = ((v + 1) * 2 ^ 64 - 1) div n"
    have y: "y * n \<le> (v + 1) * 2 ^ 64 - 1" "(v + 1) * 2 ^ 64 - 1 < y * n + n"
      using v dividend_less_div_times [of n "(v + 1) * 2 ^ 64 - 1"]
      by (simp_all only: y_def div_times_less_eq_dividend) simp
    have "(v + 1) * 2 ^ 64 \<le> n * 2 ^ 64" using v by (intro mult_right_mono) auto
    moreover have "(v + 1) * 2 ^ 64 - 1 < (v + 1) * 2 ^ 64" by simp
    ultimately have "y * n < n * 2 ^ 64" using y(1) by linarith
    then have yb: "y < 2 ^ 64" by (simp only: mult.commute [of y] nat_mult_less_cancel1 nat_mult_less_cancel_disj)
    have d: "y * n div 2 ^ 64 = v" using y n by (intro div_nat_eqI) (simp_all add: algebra_simps)
    have "y * n = v * 2 ^ 64 + y * n mod 2 ^ 64" using div_mult_mod_eq [of "y * n" "2 ^ 64"] by (simp only: d)
    then have "2 ^ 64 - n \<le> y * n mod 2 ^ 64" using y(2) by simp
    moreover have "(2 ^ 64 - n) mod n \<le> 2 ^ 64 - n" by (rule mod_less_eq_dividend)
    ultimately have "\<not> y * n mod 2 ^ 64 < (2 ^ 64 - n) mod n" by linarith
    then have "accepted n (of_nat y) = Some v"
      using False yb d by (simp add: accepted_def)
    then show ?thesis by blast
  qed
qed

lemma reaches_value:
  "v < n \<Longrightarrow> n \<le> 2 ^ 63 \<Longrightarrow> \<exists>m \<ge> 1. accepted n (pcg_output ((pcg_next ^^ m) r)) = Some v"
  using accepted_surj [of v n] pcg_output_surj pcg_reaches [of r] by metis

lemma IntN_total: "0 < n \<Longrightarrow> n \<le> 2 ^ 63 \<Longrightarrow> \<exists>v r'. IntN n r = Some (v, r') \<and> v < n"
  using reaches_value [of 0 n r] IntN_reaches [of n _ r] accepted_less [of n] by metis

end
