(* ===== verification/KMeans.thy ===== *)
theory KMeans
  imports IvfCodec BruteForce GoRand
begin

text \<open>
  The k-means trainer: \<open>internal/ivf/kmeans.go\<close>.  The Go constants \<open>K\<close>,
  \<open>SampleSize\<close> and \<open>MaxIters\<close> are the definition's arguments \<open>K\<close>, \<open>sz\<close> and
  \<open>iters\<close>; \<open>SampleSize\<close> and \<open>MaxIters\<close> name their values.  A sample is the flat
  row-major slice of the code, the generator is threaded through as a value,
  and \<open>None\<close> is a panic or a loop that does not end.

  The lemmas show that training ends without a panic on every data set that has
  a vector, because the duplicate-rejecting draw ends on the modelled generator,
  and that every trained centroid is a \<open>float32\<close> number of absolute value at most
  10000: a row of the sample, or the rounded mean of one cluster, whose
  coordinate sums are exact.
\<close>

subsection \<open>Distances and rows\<close>

definition SampleSize :: nat where
  "SampleSize = 65536"

definition MaxIters :: nat where
  "MaxIters = 6"

definition rngSeed :: "u64 \<times> u64" where
  "rngSeed = (0xCAFEBABEDEADBEEF, 0xC0FFEE0123456789)"

definition sqDistF32 :: "bool \<Rightarrow> fl list \<Rightarrow> fl list \<Rightarrow> fl" where
  "sqDistF32 fused a b =
     fold (\<lambda>d s. let diff = fsub F64 (fconv F64 (a ! d)) (fconv F64 (b ! d))
                 in fmac fused F64 s diff diff) [0..<14] (Fin 0)"

definition row :: "fl list \<Rightarrow> nat \<Rightarrow> fl list option" where
  \<comment> \<open>\<open>sample[i*Dims : i*Dims+Dims]\<close>\<close>
  "row sample i = gslice sample (i * 14) (i * 14 + 14)"

definition copyVec :: "fl list \<Rightarrow> fl list option" where
  \<comment> \<open>what it writes over the fourteen components of its destination\<close>
  "copyVec src = those (map (get src) [0..<14])"

definition copy_row :: "fl list \<Rightarrow> nat \<Rightarrow> fl list option" where
  "copy_row sample i = do { src \<leftarrow> gslice sample (i * 14) (length sample); copyVec src }"

subsection \<open>drawSample\<close>

partial_function (option) fresh_id :: "nat \<Rightarrow> u32 set \<Rightarrow> pcg \<Rightarrow> (u32 \<times> pcg) option" where
  "fresh_id cnt pickedSet rng = do {
     (x, rng') \<leftarrow> IntN cnt rng;
     (if of_nat x \<in> pickedSet then fresh_id cnt pickedSet rng' else Some (of_nat x, rng'))
   }"

definition draw_ids :: "nat \<Rightarrow> nat \<Rightarrow> pcg \<Rightarrow> (u32 list \<times> pcg) option" where
  "draw_ids cnt n rng = do {
     (_, ids, rng) \<leftarrow> ofold (\<lambda>i (pickedSet, ids, rng). do {
         (new, rng) \<leftarrow> fresh_id cnt pickedSet rng;
         ids \<leftarrow> put ids i new;
         Some (insert new pickedSet, ids, rng)
       }) [0..<n] ({}, replicate n 0, rng);
     Some (ids, rng)
   }"

definition drawSample :: "i16 list \<Rightarrow> nat \<Rightarrow> nat \<Rightarrow> pcg \<Rightarrow> (fl list \<times> pcg) option" where
  "drawSample vectors cnt sz rng = do {
     (ids, rng) \<leftarrow> draw_ids cnt (min sz cnt) rng;
     rows \<leftarrow> those (map (\<lambda>i. gslice vectors (unat i * 14) (unat i * 14 + 14)) ids);
     Some (concat (map to_f32 rows), rng)
   }"

subsection \<open>initKMeansPlusPlus\<close>

definition updateNearest :: "bool \<Rightarrow> fl list \<Rightarrow> fl list \<Rightarrow> fl list \<Rightarrow> fl list option" where
  "updateNearest fused sample newCentroid d2 =
     ofold (\<lambda>i d2. do {
         v \<leftarrow> row sample i;
         let d = sqDistF32 fused v newCentroid;
         if flt d (d2 ! i) then put d2 i d else Some d2
       }) [0..<length d2] d2"

fun weighted_pick :: "fl list \<Rightarrow> fl \<Rightarrow> fl \<Rightarrow> nat \<Rightarrow> nat \<Rightarrow> nat" where
  \<comment> \<open>the first index whose running sum reaches \<open>r\<close>, or the last index\<close>
  "weighted_pick [] r acc i dflt = dflt"
| "weighted_pick (v # vs) r acc i dflt =
     (let acc = fadd F64 acc v in if fle r acc then i else weighted_pick vs r acc (Suc i) dflt)"

definition choose_next :: "fl list \<Rightarrow> nat \<Rightarrow> pcg \<Rightarrow> (nat \<times> bool \<times> pcg) option" where
  \<comment> \<open>the next centroid's row, and whether the distances must be refreshed\<close>
  "choose_next d2 n rng =
     (let total = fold (\<lambda>v t. fadd F64 t v) d2 (Fin 0) in
      if fle total (Fin 0) then do { (pick, rng) \<leftarrow> IntN n rng; Some (pick, False, rng) }
      else
        let (f, rng) = Float64 rng; r = fmul F64 f total
        in Some (weighted_pick d2 r (Fin 0) 0 (n - 1), True, rng))"

definition init_step ::
  "bool \<Rightarrow> fl list \<Rightarrow> nat \<Rightarrow> nat \<Rightarrow> fl list list \<times> fl list \<times> pcg \<Rightarrow> (fl list list \<times> fl list \<times> pcg) option" where
  "init_step fused sample n k = (\<lambda>(centroids, d2, rng). do {
     (pick, refresh, rng) \<leftarrow> choose_next d2 n rng;
     v \<leftarrow> copy_row sample pick;
     centroids \<leftarrow> put centroids k v;
     d2 \<leftarrow> (if refresh then updateNearest fused sample v d2 else Some d2);
     Some (centroids, d2, rng)
   })"

definition initKMeansPlusPlus :: "bool \<Rightarrow> nat \<Rightarrow> fl list \<Rightarrow> pcg \<Rightarrow> (fl list list \<times> pcg) option" where
  "initKMeansPlusPlus fused K sample rng = do {
     let n = length sample div 14;
     (first, rng) \<leftarrow> IntN n rng;
     v \<leftarrow> copy_row sample first;
     centroids \<leftarrow> put (replicate K (replicate 14 (Fin 0))) 0 v;
     d2 \<leftarrow> those (map (\<lambda>i. do { u \<leftarrow> row sample i; Some (sqDistF32 fused u v) }) [0..<n]);
     (centroids, _, rng) \<leftarrow> ofold (init_step fused sample n) [1..<K] (centroids, d2, rng);
     Some (centroids, rng)
   }"

subsection \<open>Lloyd's iterations and the full assignment\<close>

definition nearest_centroid :: "bool \<Rightarrow> nat \<Rightarrow> fl list list \<Rightarrow> fl list \<Rightarrow> nat" where
  \<comment> \<open>the inner loop of \<open>assignSample\<close> and \<open>AssignAll\<close>\<close>
  "nearest_centroid fused K centroids v =
     fst (fold (\<lambda>c (best, bestD). let d = sqDistF32 fused v (centroids ! c)
                                  in if flt d bestD then (c, d) else (best, bestD)) [0..<K] (0, Inf False))"

definition assignSample :: "bool \<Rightarrow> nat \<Rightarrow> fl list \<Rightarrow> fl list list \<Rightarrow> u16 list option" where
  "assignSample fused K sample centroids =
     those (map (\<lambda>i. do { v \<leftarrow> row sample i; Some (of_nat (nearest_centroid fused K centroids v)) })
       [0..<length sample div 14])"

definition add_row :: "fl list \<Rightarrow> u16 list \<Rightarrow> nat \<Rightarrow> fl list list \<times> u32 list \<Rightarrow> (fl list list \<times> u32 list) option" where
  "add_row sample assign i = (\<lambda>(tots, counts). do {
     let c = unat (assign ! i);
     v \<leftarrow> row sample i;
     old \<leftarrow> get tots c;
     tots \<leftarrow> put tots c (map (\<lambda>d. fadd F64 (old ! d) (fconv F64 (v ! d))) [0..<14]);
     m \<leftarrow> get counts c;
     counts \<leftarrow> put counts c (m + 1);
     Some (tots, counts)
   })"

definition mean_of :: "fl list \<Rightarrow> u32 \<Rightarrow> fl list" where
  "mean_of tot m =
     (let inv = fdiv F64 (Fin 1) (fl_of_int F64 (int (unat m)))
      in map (\<lambda>d. fconv F32 (fmul F64 (tot ! d) inv)) [0..<14])"

definition updateCentroids :: "nat \<Rightarrow> fl list \<Rightarrow> u16 list \<Rightarrow> fl list list \<Rightarrow> fl list list option" where
  "updateCentroids K sample assign centroids = do {
     (tots, counts) \<leftarrow> ofold (add_row sample assign) [0..<length assign]
        (replicate K (replicate 14 (Fin 0)), replicate K 0);
     Some (map (\<lambda>c. if counts ! c = 0 then centroids ! c else mean_of (tots ! c) (counts ! c)) [0..<K])
   }"

definition lloyd_step :: "bool \<Rightarrow> nat \<Rightarrow> fl list \<Rightarrow> nat \<Rightarrow> fl list list \<Rightarrow> fl list list option" where
  "lloyd_step fused K sample iter centroids = do {
     assign \<leftarrow> assignSample fused K sample centroids;
     updateCentroids K sample assign centroids
   }"

definition TrainKMeans :: "bool \<Rightarrow> nat \<Rightarrow> nat \<Rightarrow> nat \<Rightarrow> i16 list \<Rightarrow> nat \<Rightarrow> fl list list option" where
  "TrainKMeans fused K sz iters vectors cnt = do {
     let rng = NewPCG (fst rngSeed) (snd rngSeed);
     (sample, rng) \<leftarrow> drawSample vectors cnt sz rng;
     (centroids, rng) \<leftarrow> initKMeansPlusPlus fused K sample rng;
     ofold (lloyd_step fused K sample) [0..<iters] centroids
   }"

definition AssignAll :: "bool \<Rightarrow> nat \<Rightarrow> i16 list \<Rightarrow> nat \<Rightarrow> fl list list \<Rightarrow> u16 list option" where
  "AssignAll fused K vectors cnt centroids =
     those (map (\<lambda>i. do {
         v \<leftarrow> gslice vectors (i * 14) (i * 14 + 14);
         Some (of_nat (nearest_centroid fused K centroids (to_f32 v)))
       }) [0..<cnt])"

definition Inertia :: "bool \<Rightarrow> fl list \<Rightarrow> u16 list \<Rightarrow> fl list list \<Rightarrow> fl option" where
  "Inertia fused sample assign centroids =
     ofold (\<lambda>i total. do {
         v \<leftarrow> row sample i;
         c \<leftarrow> get centroids (unat (assign ! i));
         Some (fadd F64 total (sqDistF32 fused v c))
       }) [0..<length assign] (Fin 0)"

subsection \<open>Drawing a sample without replacement\<close>

lemma fresh_id_ok:
  assumes "0 < cnt" and "accepted cnt (pcg_output ((pcg_next ^^ m) rng)) = Some v" and "1 \<le> m" and "of_nat v \<notin> picked"
  shows "\<exists>x rng'. fresh_id cnt picked rng = Some (of_nat x, rng') \<and> x < cnt \<and> of_nat x \<notin> picked"
  using assms(2,3)
proof (induction m arbitrary: rng rule: less_induct)
  case (less m)
  from IntN_reaches [OF assms(1) less.prems(2) refl less.prems(1)] obtain k w where
    k: "1 \<le> k" "k \<le> m" "IntN cnt rng = Some (w, (pcg_next ^^ k) rng)" "accepted cnt (pcg_output ((pcg_next ^^ k) rng)) = Some w"
    by blast
  have w: "w < cnt" using accepted_less [OF assms(1) k(4)] .
  show ?case
  proof (cases "of_nat w \<in> picked")
    case False
    then show ?thesis using k(3) w by (subst fresh_id.simps) auto
  next
    case True
    then have "k \<noteq> m" using k(4) less.prems(1) assms(4) by auto
    then have "m - k < m" "1 \<le> m - k" using k by auto
    moreover have "(pcg_next ^^ m) rng = (pcg_next ^^ (m - k)) ((pcg_next ^^ k) rng)"
      using k(2) by (metis funpow_add comp_apply le_add_diff_inverse2)
    ultimately have "\<exists>x rng'. fresh_id cnt picked ((pcg_next ^^ k) rng) = Some (of_nat x, rng') \<and> x < cnt \<and> of_nat x \<notin> picked"
      using less.IH less.prems(1) by simp
    then show ?thesis using k(3) True by (subst fresh_id.simps) auto
  qed
qed

lemma fresh_id_total:
  assumes "card (picked :: u32 set) < cnt" and "cnt < 2 ^ 32"
  shows "\<exists>x rng'. fresh_id cnt picked rng = Some (of_nat x, rng') \<and> x < cnt \<and> of_nat x \<notin> picked"
proof -
  have "inj_on (of_nat :: nat \<Rightarrow> u32) {..<cnt}"
    using assms(2) by (intro inj_onI) (metis lessThan_iff order.strict_trans unat_u32)
  then have "card ((of_nat :: nat \<Rightarrow> u32) ` {..<cnt}) = cnt" by (simp add: card_image)
  then obtain v where v: "v < cnt" "(of_nat v :: u32) \<notin> picked"
    using assms(1) by (metis card_mono finite image_subsetI lessThan_iff linorder_not_less)
  obtain m where "1 \<le> m" "accepted cnt (pcg_output ((pcg_next ^^ m) rng)) = Some v"
    using reaches_value [of v cnt rng] v(1) assms(2) by auto
  then show ?thesis using fresh_id_ok v by (metis gr_zeroI not_less_zero)
qed

lemma draw_ids_ok:
  assumes "n \<le> cnt" and "cnt < 2 ^ 32"
  shows "\<exists>ids rng'. draw_ids cnt n rng = Some (ids, rng') \<and> length ids = n \<and> distinct ids \<and> (\<forall>i \<in> set ids. unat i < cnt)"
proof -
  define P :: "nat \<Rightarrow> u32 set \<times> u32 list \<times> pcg \<Rightarrow> bool" where
    "P i = (\<lambda>(picked, ids, rng). length ids = n \<and> picked = set (take i ids) \<and> distinct (take i ids) \<and>
       (\<forall>x \<in> set (take i ids). unat x < cnt))" for i
  have "\<exists>s. ofold (\<lambda>i (pickedSet, ids, rng). do {
         (new, rng) \<leftarrow> fresh_id cnt pickedSet rng;
         ids \<leftarrow> put ids i new;
         Some (insert new pickedSet, ids, rng)
       }) [0..<n] ({}, replicate n 0, rng) = Some s \<and> P (length [0..<n]) s"
  proof (rule ofold_prefix_rule)
    show "P 0 ({}, replicate n 0, rng)" by (simp add: P_def)
    fix i s assume i: "i < length [0..<n]" and "P i s"
    then obtain picked ids r where s: "s = (picked, ids, r)" "length ids = n" "picked = set (take i ids)"
        "distinct (take i ids)" "\<forall>x \<in> set (take i ids). unat x < cnt"
      by (cases s) (auto simp: P_def)
    have "card picked \<le> i" using s(3) card_length [of "take i ids"] by simp
    then have "card picked < cnt" using i assms(1) by simp
    from fresh_id_total [OF this assms(2)] obtain x r' where
      x: "fresh_id cnt picked r = Some (of_nat x, r')" "x < cnt" "(of_nat x :: u32) \<notin> picked" by blast
    have u: "unat (of_nat x :: u32) = x" using x(2) assms(2) by (intro unat_u32) simp
    have "take (Suc i) (ids[i := of_nat x]) = take i ids @ [of_nat x]"
      using i s(2) by (simp add: take_Suc_conv_app_nth)
    then have "P (Suc i) (insert (of_nat x) picked, ids[i := of_nat x], r')"
      using s x(2,3) u by (simp add: P_def)
    then show "\<exists>s'. (case s of (pickedSet, ids, rng) \<Rightarrow> do {
         (new, rng) \<leftarrow> fresh_id cnt pickedSet rng;
         ids \<leftarrow> put ids ([0..<n] ! i) new;
         Some (insert new pickedSet, ids, rng)
       }) = Some s' \<and> P (Suc i) s'"
      using i s(1,2) x(1) by (simp add: put_Some)
  qed
  then show ?thesis by (auto simp: draw_ids_def P_def split: prod.splits)
qed

definition int_row :: "i16 list \<Rightarrow> nat \<Rightarrow> fl list" where
  "int_row vectors i = to_f32 (vec_of vectors i)"

lemma drawSample_ok:
  assumes "length vectors = cnt * 14" and "cnt < 2 ^ 32"
  shows "\<exists>ids rng'. drawSample vectors cnt sz rng = Some (concat (map (int_row vectors) ids), rng') \<and>
    length ids = min sz cnt \<and> distinct ids \<and> (\<forall>i \<in> set ids. i < cnt)"
proof -
  obtain ids rng' where d: "draw_ids cnt (min sz cnt) rng = Some (ids, rng')" "length ids = min sz cnt" "distinct ids"
      "\<forall>i \<in> set ids. unat i < cnt"
    using draw_ids_ok [of "min sz cnt" cnt rng] assms(2) by auto
  have "those (map (\<lambda>i. gslice vectors (unat i * 14) (unat i * 14 + 14)) ids) = Some (map (\<lambda>i. vec_of vectors (unat i)) ids)"
    using d(4) assms(1) by (intro those_map_Some) (auto simp: gslice_Some vec_of_def)
  then have "drawSample vectors cnt sz rng = Some (concat (map (int_row vectors) (map unat ids)), rng')"
    by (simp add: drawSample_def d(1) int_row_def comp_def)
  moreover have "distinct (map unat ids)" using d(3) by (simp add: distinct_map inj_on_def word_unat_eq_iff)
  ultimately show ?thesis using d(2,4) by (intro exI [of _ "map unat ids"]) auto
qed

subsection \<open>Reading the rows of a sample\<close>

definition rows_ok :: "fl list list \<Rightarrow> bool" where
  \<comment> \<open>rows of fourteen integers of a quantised data set\<close>
  "rows_ok rs \<longleftrightarrow> (\<forall>v \<in> set rs. length v = 14 \<and> (\<forall>x \<in> set v. \<exists>z. x = Fin (of_int z) \<and> \<bar>z\<bar> \<le> 10000))"

lemma rows_length: "rows_ok rs \<Longrightarrow> length (concat rs) = length rs * 14"
  by (induction rs) (auto simp: rows_ok_def)

lemma drop_rows: "rows_ok rs \<Longrightarrow> drop (i * 14) (concat rs) = concat (drop i rs)"
proof (induction rs arbitrary: i)
  case (Cons v rs)
  then have "rows_ok rs" "length v = 14" by (auto simp: rows_ok_def)
  then show ?case using Cons.IH by (cases i) auto
qed simp

lemma row_concat: "rows_ok rs \<Longrightarrow> i < length rs \<Longrightarrow> row (concat rs) i = Some (rs ! i)"
proof -
  assume ok: "rows_ok rs" and i: "i < length rs"
  have l: "length (rs ! i) = 14" using ok i by (auto simp: rows_ok_def)
  have "drop i rs = rs ! i # drop (Suc i) rs" using i by (rule Cons_nth_drop_Suc [symmetric])
  moreover have "i * 14 + 14 \<le> length (concat rs)" using i by (simp add: rows_length [OF ok])
  ultimately show ?thesis by (simp add: row_def gslice_Some drop_rows [OF ok] l)
qed

lemma copy_row_concat: "rows_ok rs \<Longrightarrow> i < length rs \<Longrightarrow> copy_row (concat rs) i = Some (rs ! i)"
proof -
  assume ok: "rows_ok rs" and i: "i < length rs"
  have l: "length (rs ! i) = 14" using ok i by (auto simp: rows_ok_def)
  have d: "drop i rs = rs ! i # drop (Suc i) rs" using i by (rule Cons_nth_drop_Suc [symmetric])
  have len: "i * 14 + 14 \<le> length (concat rs)" using i by (simp add: rows_length [OF ok])
  then have "gslice (concat rs) (i * 14) (length (concat rs)) = Some (concat (drop i rs))"
    by (simp add: gslice_def flip: drop_rows [OF ok])
  moreover have "copyVec (concat (drop i rs)) = Some (map ((!) (concat (drop i rs))) [0..<14])"
    unfolding copyVec_def d using l by (intro those_map_Some) (simp add: get_Some)
  moreover have "map ((!) (concat (drop i rs))) [0..<14] = rs ! i"
    unfolding d using l by (intro nth_equalityI) (simp_all add: nth_append)
  ultimately show ?thesis by (simp add: copy_row_def)
qed

lemma int_rows_ok:
  assumes "length vectors = cnt * 14" "\<forall>x \<in> set vectors. \<bar>sint x\<bar> \<le> 10000" "\<forall>i \<in> set ids. i < cnt"
  shows "rows_ok (map (int_row vectors) ids)"
  unfolding rows_ok_def
proof (intro ballI conjI)
  fix v assume "v \<in> set (map (int_row vectors) ids)"
  then obtain i where i: "i < cnt" "v = to_f32 (vec_of vectors i)" using assms(3) by (auto simp: int_row_def)
  show "length v = 14" using i assms(1) by (simp add: to_f32_def vec_of_def)
  fix x assume "x \<in> set v"
  then obtain w where w: "w \<in> set vectors" "x = fl_of_int F32 (sint w)"
    using i(2) by (auto simp: to_f32_def vec_of_def dest: in_set_takeD in_set_dropD)
  moreover have "\<bar>sint w\<bar> \<le> 10000" using w(1) assms(2) by blast
  ultimately show "\<exists>z. x = Fin (of_int z) \<and> \<bar>z\<bar> \<le> 10000" by (intro exI [of _ "sint w"]) simp
qed

subsection \<open>The initial centroids are rows of the sample\<close>

lemma weighted_pick_less: "dflt < n \<Longrightarrow> i + length vs \<le> n \<Longrightarrow> weighted_pick vs r acc i dflt < n"
  by (induction vs arbitrary: acc i) (auto simp: Let_def)

lemma choose_next_ok:
  assumes "length d2 = n" "0 < n" "n \<le> 2 ^ 63"
  shows "\<exists>pick refresh rng'. choose_next d2 n rng = Some (pick, refresh, rng') \<and> pick < n"
proof -
  obtain v rng' where "IntN n rng = Some (v, rng')" "v < n" using IntN_total [OF assms(2,3)] by blast
  moreover have "weighted_pick d2 r (Fin 0) 0 (n - 1) < n" for r
    using assms by (intro weighted_pick_less) auto
  ultimately show ?thesis by (auto simp: choose_next_def Let_def split: prod.splits)
qed

lemma updateNearest_ok:
  assumes "rows_ok rs" "length d2 = length rs"
  shows "\<exists>d2'. updateNearest fused (concat rs) v d2 = Some d2' \<and> length d2' = length rs"
proof -
  have "\<exists>s. ofold (\<lambda>i d2. do {
         u \<leftarrow> row (concat rs) i;
         let d = sqDistF32 fused u v;
         if flt d (d2 ! i) then put d2 i d else Some d2
       }) [0..<length d2] d2 = Some s \<and> length s = length rs"
    using assms by (intro ofold_prefix_rule) (auto simp: row_concat put_Some Let_def)
  then show ?thesis by (simp add: updateNearest_def)
qed

definition from_sample :: "nat \<Rightarrow> fl list list \<Rightarrow> nat \<Rightarrow> fl list list \<Rightarrow> bool" where
  \<comment> \<open>the first \<open>k\<close> of \<open>K\<close> centroids are rows of the sample\<close>
  "from_sample K rs k centroids \<longleftrightarrow> length centroids = K \<and> (\<forall>c<k. centroids ! c \<in> set rs)"

lemma init_ok:
  assumes ok: "rows_ok rs" and n: "0 < length rs" "length rs \<le> 2 ^ 63" and K: "0 < K"
  shows "\<exists>centroids rng'. initKMeansPlusPlus fused K (concat rs) rng = Some (centroids, rng') \<and> from_sample K rs K centroids"
proof -
  let ?n = "length rs"
  have len: "length (concat rs) div 14 = ?n" by (simp add: rows_length [OF ok])
  obtain i0 rng1 where i0: "IntN ?n rng = Some (i0, rng1)" "i0 < ?n" using IntN_total [OF n] by blast
  define c0 where "c0 = (replicate K (replicate 14 (Fin 0)))[0 := rs ! i0]"
  define d0 where "d0 = map (\<lambda>i. sqDistF32 fused (rs ! i) (rs ! i0)) [0..<?n]"
  have d0: "those (map (\<lambda>i. do { u \<leftarrow> row (concat rs) i; Some (sqDistF32 fused u (rs ! i0)) }) [0..<?n]) = Some d0"
    unfolding d0_def by (rule those_map_Some) (simp add: row_concat [OF ok])
  define P :: "nat \<Rightarrow> fl list list \<times> fl list \<times> pcg \<Rightarrow> bool" where
    "P i = (\<lambda>(centroids, d2, rng). from_sample K rs (Suc i) centroids \<and> length d2 = ?n)" for i
  have "\<exists>s. ofold (init_step fused (concat rs) ?n) [1..<K] (c0, d0, rng1) = Some s \<and> P (length [1..<K]) s"
  proof (rule ofold_prefix_rule)
    show "P 0 (c0, d0, rng1)" using K i0(2) by (simp add: P_def from_sample_def c0_def d0_def)
    fix i s assume i: "i < length [1..<K]" and "P i s"
    then obtain centroids d2 r where s: "s = (centroids, d2, r)" "from_sample K rs (Suc i) centroids" "length d2 = ?n"
      by (cases s) (auto simp: P_def)
    obtain pick refresh r' where p: "choose_next d2 ?n r = Some (pick, refresh, r')" "pick < ?n"
      using choose_next_ok [OF s(3) n] by blast
    obtain d2' where d2': "(if refresh then updateNearest fused (concat rs) (rs ! pick) d2 else Some d2) = Some d2'" "length d2' = ?n"
      using updateNearest_ok [OF ok s(3)] s(3) by (cases refresh) auto
    have k: "[1..<K] ! i = Suc i" "Suc i < K" using i by auto
    have "from_sample K rs (Suc (Suc i)) (centroids[Suc i := rs ! pick])"
      using s(2) p(2) k(2) by (auto simp: from_sample_def nth_list_update less_Suc_eq)
    moreover have "init_step fused (concat rs) ?n (Suc i) s = Some (centroids[Suc i := rs ! pick], d2', r')"
      using s(2) k(2) by (simp add: init_step_def s(1) p(1) copy_row_concat [OF ok p(2)] put_Some from_sample_def d2'(1))
    ultimately show "\<exists>s'. init_step fused (concat rs) ?n ([1..<K] ! i) s = Some s' \<and> P (Suc i) s'"
      using d2'(2) unfolding k(1) by (auto simp: P_def)
  qed
  then obtain s where s: "ofold (init_step fused (concat rs) ?n) [1..<K] (c0, d0, rng1) = Some s" "P (K - 1) s" by auto
  then show ?thesis
    using K by (cases s) (auto simp: initKMeansPlusPlus_def len i0 copy_row_concat [OF ok i0(2)] put_Some d0 P_def c0_def [symmetric])
qed

subsection \<open>The mean of a cluster\<close>

lemma rnd32_10000: "\<bar>q\<bar> \<le> 10000 + 1 / 2 ^ 20 \<Longrightarrow> \<bar>rnd F32 q\<bar> \<le> 10000"
proof -
  assume q: "\<bar>q\<bar> \<le> 10000 + 1 / 2 ^ 20"
  define b :: real where "b = 10000 + 1 / 2 ^ 20"
  have "ilog2 \<bar>b\<bar> = 13" by (rule ilog2_unique) (simp_all add: b_def power_int_def)
  then have e: "rexp F32 b = - 10" by (simp add: rexp_def)
  have "b / 2 powi (- 10) = 10240000 + 1 / 1024" by (simp add: b_def power_int_def power_one_over)
  moreover have "rne (10240000 + 1 / 1024) = 10240000" by (simp add: rne_def Let_def floor_eq_iff floor_unique)
  ultimately have "rnd F32 b = 10000" by (simp add: rnd_def e b_def [symmetric]) (simp add: b_def power_int_def power_one_over)
  then show ?thesis using rnd_mono [of "\<bar>q\<bar>" b F32] q by (simp add: rnd_abs b_def)
qed

lemma mean_coordinate:
  fixes S :: int and m :: nat
  assumes m: "0 < m" "m < 2 ^ 32" and S: "\<bar>S\<bar> \<le> 10000 * int m"
  shows "\<exists>r. fconv F32 (fmul F64 (Fin (of_int S)) (fdiv F64 (Fin 1) (fl_of_int F64 (int m)))) = Fin r \<and>
    \<bar>r\<bar> \<le> 10000 \<and> \<bar>r - of_int S / of_nat m\<bar> \<le> 1 / 1000 \<and> is_f32 (Fin r)"
proof -
  define M :: real where "M = of_nat m"
  have M: "1 \<le> M" "M \<le> 2 ^ 32" using m by (simp_all add: M_def)
  define x where "x = of_int S / M"
  have "\<bar>real_of_int S\<bar> \<le> 10000 * M" using S unfolding M_def by linarith
  then have x: "\<bar>x\<bar> \<le> 10000" using M by (simp add: x_def abs_divide divide_le_eq)
  have f: "fl_of_int F64 (int m) = Fin M" using m by (simp add: M_def)
  define v where "v = rnd F64 (1 / M)"
  have v0: "1 / 2 ^ 32 \<le> 1 / M" "1 / M \<le> 1" using M by (simp_all add: field_simps)
  have "\<bar>v * M - 1\<bar> \<le> 1 / 2 ^ 53"
    using rnd64_ratio [of "1 / M"] v0 by (simp add: v_def)
  then have vM: "\<bar>v * M - 1\<bar> \<le> 1 / 2 ^ 53" .
  have dv: "fdiv F64 (Fin 1) (Fin M) = Fin v"
  proof -
    have "\<bar>1 / M\<bar> \<le> 1" using M by simp
    also have "(1 :: real) \<le> 2 ^ 1023" by (rule one_le_power) simp
    finally show ?thesis using M fround_Fin_F64 by (simp add: v_def)
  qed
  define p where "p = of_int S * v"
  have px: "p - x = x * (v * M - 1)" using M by (simp add: p_def x_def field_simps)
  have "\<bar>p - x\<bar> \<le> 10000 * (1 / 2 ^ 53)" unfolding px abs_mult using x vM by (intro mult_mono) auto
  then have p: "\<bar>p - x\<bar> \<le> 1 / 2 ^ 39" by simp
  define q where "q = rnd F64 p"
  have pl: "\<bar>p\<bar> \<le> 10001"
  proof -
    have "1 / 2 ^ 39 \<le> (1 :: real)" by simp
    then show ?thesis using p x by linarith
  qed
  have "tiny F64 \<le> 1 / 2 ^ 50"
  proof -
    have "2 powi (emin F64 - 1) \<le> (2 :: real) powi (- 50)" unfolding powi_le_iff by simp
    then show ?thesis by (simp add: tiny_def power_int_def power_one_over)
  qed
  moreover have "ulp F64 * \<bar>p\<bar> \<le> 1 / 2 ^ 53 * 10001" using pl by (simp add: ulp_F64)
  ultimately have q: "\<bar>q - p\<bar> \<le> 1 / 2 ^ 38" using rnd_err [of F64 p] by (simp add: q_def)
  have qx: "\<bar>q - x\<bar> \<le> 1 / 2 ^ 37"
  proof -
    have "1 / 2 ^ 39 + 1 / 2 ^ 38 \<le> (1 / 2 ^ 37 :: real)" by simp
    then show ?thesis using p q by linarith
  qed
  have ql: "\<bar>q\<bar> \<le> 10000 + 1 / 2 ^ 20"
  proof -
    have "1 / 2 ^ 37 \<le> (1 / 2 ^ 20 :: real)" by simp
    then show ?thesis using qx x by linarith
  qed
  have mq: "fmul F64 (Fin (of_int S)) (Fin v) = Fin q"
    using pl fround_Fin_F64 [of p] by (simp add: p_def q_def)
  define r where "r = rnd F32 q"
  have "tiny F32 \<le> 1 / 2 ^ 50"
  proof -
    have "2 powi (emin F32 - 1) \<le> (2 :: real) powi (- 50)" unfolding powi_le_iff by simp
    then show ?thesis by (simp add: tiny_def power_int_def power_one_over)
  qed
  moreover have "ulp F32 * \<bar>q\<bar> \<le> 1 / 2 ^ 24 * 10001" using ql by (simp add: ulp_F32)
  ultimately have "\<bar>r - q\<bar> \<le> 1 / 1500" using rnd_err [of F32 q] by (simp add: r_def)
  moreover have "1 / 1500 + 1 / 2 ^ 37 \<le> (1 / 1000 :: real)" by simp
  ultimately have rx: "\<bar>r - x\<bar> \<le> 1 / 1000" using qx by linarith
  have rl: "\<bar>r\<bar> \<le> 10000" using rnd32_10000 [OF ql] by (simp add: r_def)
  have "fconv F32 (Fin q) = Fin r" using ql fround_Fin_F32 [of q] by (simp add: r_def)
  moreover have "is_f32 (Fin r)" using rl by (simp add: is_f32_def r_def rnd_idem power_int_def)
  ultimately show ?thesis using rl rx unfolding f dv mq by (auto simp: x_def M_def)
qed

subsection \<open>The nearest centroid\<close>

lemma flt_trans: "flt a b \<Longrightarrow> flt b c \<Longrightarrow> flt a c" and fle_flt_trans: "fle a b \<Longrightarrow> flt b c \<Longrightarrow> flt a c"
  by (cases a; cases b; cases c; auto)+

lemma not_below_Inf: "\<not> flt x (Inf False) \<Longrightarrow> \<not> flt y (Inf False) \<Longrightarrow> \<not> flt y x"
  by (cases x; cases y) auto

lemma nearest_centroid_ok:
  fixes fused centroids v
  assumes "0 < K"
  defines "D \<equiv> \<lambda>c. sqDistF32 fused v (centroids ! c)" and "b \<equiv> nearest_centroid fused K centroids v"
  shows "b < K" "\<And>c. c < K \<Longrightarrow> \<not> flt (D c) (D b)" "\<And>c. c < b \<Longrightarrow> \<not> fle (D c) (D b)"
proof -
  define P where "P i = (\<lambda>(best, bestD). (best < i \<and> bestD = D best \<or> best = 0 \<and> bestD = Inf False) \<and>
     (\<forall>c<i. \<not> flt (D c) bestD) \<and> (\<forall>c<best. \<not> fle (D c) bestD))" for i :: nat
  define F where "F = fold (\<lambda>c (best, bestD). let d = sqDistF32 fused v (centroids ! c)
      in if flt d bestD then (c, d) else (best, bestD)) [0..<K] (0, Inf False)"
  have "P (length [0..<K]) F" unfolding F_def
  proof (rule fold_prefix_rule)
    fix i s assume i: "i < length [0..<K]" and P: "P i s"
    obtain best bestD where s: "s = (best, bestD)" by force
    have "P (Suc i) (if flt (D i) bestD then (i, D i) else (best, bestD))"
    proof (cases "flt (D i) bestD")
      case True
      have "\<not> flt (D c) (D i)" "\<not> fle (D c) (D i)" if "c < i" for c
        using P that flt_trans [OF _ True] fle_flt_trans [OF _ True] by (auto simp: P_def s)
      moreover have "\<not> flt (D i) (D i)" by (cases "D i") auto
      ultimately show ?thesis using True by (simp add: P_def less_Suc_eq)
    next
      case False
      then show ?thesis using P by (auto simp: P_def s less_Suc_eq)
    qed
    then show "P (Suc i) ((\<lambda>(best, bestD). let d = sqDistF32 fused v (centroids ! ([0..<K] ! i))
        in if flt d bestD then ([0..<K] ! i, d) else (best, bestD)) s)"
      using i by (auto simp: s D_def Let_def split: if_splits)
  qed (simp add: P_def)
  moreover obtain bestD where F: "F = (b, bestD)" by (cases F) (simp add: b_def nearest_centroid_def F_def)
  ultimately have P: "b < K \<and> bestD = D b \<or> b = 0 \<and> bestD = Inf False" "\<And>c. c < K \<Longrightarrow> \<not> flt (D c) bestD"
    "\<And>c. c < b \<Longrightarrow> \<not> fle (D c) bestD" by (auto simp: P_def)
  then show "b < K" using assms(1) by auto
  from P(1) show "\<not> flt (D c) (D b)" if "c < K" for c
  proof
    assume b: "b = 0 \<and> bestD = Inf False"
    then have "\<not> flt (D 0) (Inf False)" "\<not> flt (D c) (Inf False)" using P(2) [OF assms(1)] P(2) [OF that] by simp_all
    then show ?thesis using b not_below_Inf by simp
  qed (use P(2) that in auto)
  from P(1) show "\<not> fle (D c) (D b)" if "c < b" for c
    using P(3) that by auto
qed

subsection \<open>One iteration\<close>

definition coord :: "fl list list \<Rightarrow> nat \<Rightarrow> nat \<Rightarrow> int" where
  "coord rs j d = \<lfloor>fval (rs ! j ! d)\<rfloor>"

definition cluster_of :: "u16 list \<Rightarrow> nat \<Rightarrow> nat \<Rightarrow> nat set" where
  "cluster_of assign n c = {j. j < n \<and> unat (assign ! j) = c}"

lemma coord_eq: "rows_ok rs \<Longrightarrow> j < length rs \<Longrightarrow> d < 14 \<Longrightarrow> rs ! j ! d = Fin (of_int (coord rs j d)) \<and> \<bar>coord rs j d\<bar> \<le> 10000"
proof -
  assume a: "rows_ok rs" "j < length rs" "d < 14"
  then have "rs ! j \<in> set rs" by simp
  with a have "length (rs ! j) = 14" "\<forall>x \<in> set (rs ! j). \<exists>z. x = Fin (of_int z) \<and> \<bar>z\<bar> \<le> 10000"
    unfolding rows_ok_def by blast+
  then obtain z where "rs ! j ! d = Fin (of_int z)" "\<bar>z\<bar> \<le> 10000" using a(3) by (metis nth_mem)
  then show ?thesis by (simp add: coord_def)
qed

lemma cluster_of_Suc: "cluster_of assign (Suc n) c = (if unat (assign ! n) = c then insert n (cluster_of assign n c) else cluster_of assign n c)"
  by (auto simp: cluster_of_def less_Suc_eq)

lemma cluster_of_finite [simp]: "finite (cluster_of assign n c)" "n \<notin> cluster_of assign n c"
  by (simp_all add: cluster_of_def)

lemma card_cluster_of: "card (cluster_of assign n c) \<le> n"
  using card_mono [of "{..<n}" "cluster_of assign n c"] by (auto simp: cluster_of_def)

lemma cluster_total:
  assumes "rows_ok rs" "n \<le> length rs" "d < 14"
  shows "\<bar>\<Sum>j \<in> cluster_of assign n c. coord rs j d\<bar> \<le> 10000 * int (card (cluster_of assign n c))"
proof -
  have "\<bar>\<Sum>j \<in> cluster_of assign n c. coord rs j d\<bar> \<le> (\<Sum>j \<in> cluster_of assign n c. \<bar>coord rs j d\<bar>)" by (rule sum_abs)
  also have "\<dots> \<le> (\<Sum>j \<in> cluster_of assign n c. 10000)"
    using coord_eq [OF assms(1) _ assms(3)] assms(2) by (intro sum_mono) (auto simp: cluster_of_def)
  finally show ?thesis by simp
qed

definition totals :: "nat \<Rightarrow> fl list list \<Rightarrow> u16 list \<Rightarrow> nat \<Rightarrow> fl list list \<times> u32 list \<Rightarrow> bool" where
  \<comment> \<open>the exact coordinate sums and the sizes of the clusters of the first \<open>n\<close> rows\<close>
  "totals K rs assign n = (\<lambda>(tots, counts). length tots = K \<and> length counts = K \<and>
     (\<forall>c<K. counts ! c = of_nat (card (cluster_of assign n c)) \<and>
       (\<forall>d<14. tots ! c ! d = Fin (of_int (\<Sum>j \<in> cluster_of assign n c. coord rs j d)))))"

lemma add_row_ok:
  assumes ok: "rows_ok rs" and n: "n < length rs" "length rs < 2 ^ 32" and a: "unat (assign ! n) < K"
    and t: "totals K rs assign n st"
  shows "\<exists>st'. add_row (concat rs) assign n st = Some st' \<and> totals K rs assign (Suc n) st'"
proof -
  obtain tots counts where st: "st = (tots, counts)" by force
  define c0 where "c0 = unat (assign ! n)"
  have l: "length tots = K" "length counts = K" using t by (simp_all add: totals_def st)
  define new where "new = map (\<lambda>d. fadd F64 (tots ! c0 ! d) (fconv F64 (rs ! n ! d))) [0..<14]"
  have new: "new ! d = Fin (of_int (\<Sum>j \<in> cluster_of assign (Suc n) c0. coord rs j d))" if d: "d < 14" for d
  proof -
    define S where "S = (\<Sum>j \<in> cluster_of assign n c0. coord rs j d)"
    note r = coord_eq [OF ok n(1) d]
    have "\<bar>S\<bar> \<le> 10000 * int (card (cluster_of assign n c0))" unfolding S_def using n by (intro cluster_total [OF ok _ d]) simp
    then have S: "\<bar>S\<bar> \<le> 10000 * 2 ^ 32" using card_cluster_of [of assign n c0] n by simp
    have "tots ! c0 ! d = Fin (of_int S)" using t a d by (simp add: totals_def st S_def c0_def)
    moreover have "fconv F64 (rs ! n ! d) = Fin (of_int (coord rs n d))"
      using r fround_of_int [of "coord rs n d" F64] by simp
    moreover have "fround F64 (of_int (S + coord rs n d)) = Fin (of_int (S + coord rs n d))"
    proof (rule fround_of_int)
      have "\<bar>S + coord rs n d\<bar> \<le> \<bar>S\<bar> + \<bar>coord rs n d\<bar>" by (rule abs_triangle_ineq)
      also have "\<dots> \<le> 10000 * 2 ^ 32 + 10000" using S r by (intro add_mono) auto
      also have "\<dots> \<le> (2 ^ nat (prec F64) :: int)" by simp
      finally show "\<bar>S + coord rs n d\<bar> \<le> 2 ^ nat (prec F64)" .
    qed
    ultimately have "new ! d = Fin (of_int (S + coord rs n d))" using d by (simp add: new_def)
    then show ?thesis by (simp add: cluster_of_Suc S_def c0_def add.commute)
  qed
  have "add_row (concat rs) assign n st = Some (tots[c0 := new], counts[c0 := counts ! c0 + 1])"
    using a l by (simp add: add_row_def st row_concat [OF ok n(1)] c0_def [symmetric] get_Some put_Some new_def Let_def)
  moreover have "totals K rs assign (Suc n) (tots[c0 := new], counts[c0 := counts ! c0 + 1])"
    unfolding totals_def prod.case
  proof (intro conjI allI impI)
    fix c assume c: "c < K"
    show "counts[c0 := counts ! c0 + 1] ! c = of_nat (card (cluster_of assign (Suc n) c))"
      using t c l by (auto simp: totals_def st cluster_of_Suc nth_list_update c0_def)
    fix d :: nat assume "d < 14"
    then show "tots[c0 := new] ! c ! d = Fin (of_int (\<Sum>j \<in> cluster_of assign (Suc n) c. coord rs j d))"
      using t c l new [of d] by (cases "c = c0") (auto simp: totals_def st cluster_of_Suc c0_def)
  qed (use l in auto)
  ultimately show ?thesis by blast
qed

definition near_mean :: "fl list list \<Rightarrow> nat set \<Rightarrow> fl list \<Rightarrow> bool" where
  \<comment> \<open>a centroid of \<open>float32\<close> numbers within a thousandth of the mean of its members\<close>
  "near_mean rs M v \<longleftrightarrow> length v = 14 \<and> (\<forall>d<14. \<exists>r. v ! d = Fin r \<and> \<bar>r\<bar> \<le> 10000 \<and>
     \<bar>r - of_int (\<Sum>j \<in> M. coord rs j d) / of_nat (card M)\<bar> \<le> 1 / 1000 \<and> is_f32 (Fin r))"

lemma updateCentroids_ok:
  assumes ok: "rows_ok rs" and n: "length rs < 2 ^ 32" "length assign = length rs" and a: "\<forall>x \<in> set assign. unat x < K"
  shows "\<exists>cs. updateCentroids K (concat rs) assign centroids = Some cs \<and> length cs = K \<and>
    (\<forall>c<K. let M = cluster_of assign (length rs) c in if M = {} then cs ! c = centroids ! c else near_mean rs M (cs ! c))"
proof -
  have "\<exists>st. ofold (add_row (concat rs) assign) [0..<length assign] (replicate K (replicate 14 (Fin 0)), replicate K 0) = Some st \<and>
      totals K rs assign (length [0..<length assign]) st"
  proof (rule ofold_prefix_rule)
    show "totals K rs assign 0 (replicate K (replicate 14 (Fin 0)), replicate K 0)"
      by (simp add: totals_def cluster_of_def)
    fix i st assume i: "i < length [0..<length assign]" and t: "totals K rs assign i st"
    then show "\<exists>st'. add_row (concat rs) assign ([0..<length assign] ! i) st = Some st' \<and> totals K rs assign (Suc i) st'"
      using add_row_ok [OF ok _ n(1) _ t] n(2) a by simp
  qed
  then obtain tots counts where st:
      "ofold (add_row (concat rs) assign) [0..<length assign] (replicate K (replicate 14 (Fin 0)), replicate K 0) = Some (tots, counts)"
      "totals K rs assign (length rs) (tots, counts)" using n(2) by auto
  define cs where "cs = map (\<lambda>c. if counts ! c = 0 then centroids ! c else mean_of (tots ! c) (counts ! c)) [0..<K]"
  have "let M = cluster_of assign (length rs) c in if M = {} then cs ! c = centroids ! c else near_mean rs M (cs ! c)"
    if c: "c < K" for c
  proof -
    define M where "M = cluster_of assign (length rs) c"
    have m: "card M < 2 ^ 32" using card_cluster_of [of assign "length rs" c] n(1) by (simp add: M_def)
    have cnt: "counts ! c = of_nat (card M)" "unat (counts ! c) = card M"
      using st(2) c m by (simp_all add: totals_def M_def)
    have empty: "counts ! c = 0 \<longleftrightarrow> M = {}" using cnt(2) by (auto simp: unat_eq_0 M_def)
    have "near_mean rs M (mean_of (tots ! c) (counts ! c))" if "M \<noteq> {}"
      unfolding near_mean_def
    proof (intro conjI allI impI)
      fix d :: nat assume d: "d < 14"
      have "tots ! c ! d = Fin (of_int (\<Sum>j \<in> M. coord rs j d))" using st(2) c d by (simp add: totals_def M_def)
      moreover have "0 < card M" using that by (simp add: card_gt_0_iff M_def)
      moreover have "\<bar>\<Sum>j \<in> M. coord rs j d\<bar> \<le> 10000 * int (card M)" unfolding M_def by (rule cluster_total [OF ok order_refl d])
      ultimately show "\<exists>r. mean_of (tots ! c) (counts ! c) ! d = Fin r \<and> \<bar>r\<bar> \<le> 10000 \<and>
          \<bar>r - of_int (\<Sum>j \<in> M. coord rs j d) / of_nat (card M)\<bar> \<le> 1 / 1000 \<and> is_f32 (Fin r)"
        using mean_coordinate [of "card M" "\<Sum>j \<in> M. coord rs j d"] m d by (simp add: mean_of_def Let_def cnt(2) del: fmul.simps fdiv.simps fconv.simps)
    qed (simp add: mean_of_def Let_def)
    then show ?thesis using c empty by (simp add: cs_def M_def [symmetric] Let_def)
  qed
  moreover have "updateCentroids K (concat rs) assign centroids = Some cs" "length cs = K"
    by (simp_all add: updateCentroids_def st(1) cs_def)
  ultimately show ?thesis by blast
qed

subsection \<open>The whole training\<close>

definition nearest_ok :: "bool \<Rightarrow> nat \<Rightarrow> fl list list \<Rightarrow> fl list \<Rightarrow> nat \<Rightarrow> bool" where
  \<comment> \<open>no centroid is at a smaller computed distance, and none of a lower number at the same\<close>
  "nearest_ok fused K centroids v b \<longleftrightarrow> b < K \<and>
     (\<forall>c<K. \<not> flt (sqDistF32 fused v (centroids ! c)) (sqDistF32 fused v (centroids ! b))) \<and>
     (\<forall>c<b. \<not> fle (sqDistF32 fused v (centroids ! c)) (sqDistF32 fused v (centroids ! b)))"

lemma nearest_u16: "0 < K \<Longrightarrow> K \<le> 65536 \<Longrightarrow> nearest_ok fused K centroids v (unat (of_nat (nearest_centroid fused K centroids v) :: u16))"
  using nearest_centroid_ok [where K = K and fused = fused and centroids = centroids and v = v] by (simp add: nearest_ok_def)

lemma assignSample_ok:
  assumes "rows_ok rs" "0 < K" "K \<le> 65536"
  shows "\<exists>assign. assignSample fused K (concat rs) centroids = Some assign \<and> length assign = length rs \<and>
    (\<forall>i<length rs. nearest_ok fused K centroids (rs ! i) (unat (assign ! i)))"
proof -
  have "those (map (\<lambda>i. do { v \<leftarrow> row (concat rs) i; Some (of_nat (nearest_centroid fused K centroids v)) }) [0..<length rs]) =
      Some (map (\<lambda>i. of_nat (nearest_centroid fused K centroids (rs ! i)) :: u16) [0..<length rs])"
    by (rule those_map_Some) (simp add: row_concat [OF assms(1)])
  then show ?thesis using nearest_u16 [OF assms(2,3)] by (simp add: assignSample_def rows_length [OF assms(1)])
qed

lemma AssignAll_ok:
  assumes "length vectors = cnt * 14" "0 < K" "K \<le> 65536"
  shows "\<exists>assign. AssignAll fused K vectors cnt centroids = Some assign \<and> length assign = cnt \<and>
    (\<forall>i<cnt. nearest_ok fused K centroids (int_row vectors i) (unat (assign ! i)))"
proof -
  have "AssignAll fused K vectors cnt centroids =
      Some (map (\<lambda>i. of_nat (nearest_centroid fused K centroids (int_row vectors i))) [0..<cnt])"
    unfolding AssignAll_def using assms(1)
    by (intro those_map_Some) (simp add: gslice_Some int_row_def vec_of_def)
  then show ?thesis using nearest_u16 [OF assms(2,3)] by simp
qed

definition centroids_ok :: "nat \<Rightarrow> fl list list \<Rightarrow> bool" where
  "centroids_ok K centroids \<longleftrightarrow> length centroids = K \<and>
     (\<forall>c<K. length (centroids ! c) = 14 \<and> (\<forall>d<14. centroid_ok (centroids ! c ! d) \<and> is_f32 (centroids ! c ! d)))"

lemma row_centroid: "rows_ok rs \<Longrightarrow> v \<in> set rs \<Longrightarrow> length v = 14 \<and> (\<forall>d<14. centroid_ok (v ! d) \<and> is_f32 (v ! d))"
proof (intro conjI allI impI)
  assume ok: "rows_ok rs" and v: "v \<in> set rs"
  then show l: "length v = 14" by (simp add: rows_ok_def)
  fix d :: nat assume "d < 14"
  then have "v ! d \<in> set v" using l by simp
  then obtain z where z: "v ! d = Fin (of_int z)" "\<bar>z\<bar> \<le> 10000" using ok v unfolding rows_ok_def by blast
  have "\<bar>real_of_int z\<bar> \<le> 10000" using z(2) by linarith
  then show "centroid_ok (v ! d)" "is_f32 (v ! d)"
    using z rnd_of_int [of z F32] by (auto simp: centroid_ok_def is_f32_def power_int_def)
qed

lemma near_mean_centroid: "near_mean rs M v \<Longrightarrow> length v = 14 \<and> (\<forall>d<14. centroid_ok (v ! d) \<and> is_f32 (v ! d))"
  by (fastforce simp: near_mean_def centroid_ok_def)

lemma lloyd_step_ok:
  assumes "rows_ok rs" "length rs < 2 ^ 32" "0 < K" "K \<le> 65536"
  shows "\<exists>assign cs. assignSample fused K (concat rs) centroids = Some assign \<and> length assign = length rs \<and>
    (\<forall>i<length rs. nearest_ok fused K centroids (rs ! i) (unat (assign ! i))) \<and>
    lloyd_step fused K (concat rs) i centroids = Some cs \<and> length cs = K \<and>
    (\<forall>c<K. let M = cluster_of assign (length rs) c in if M = {} then cs ! c = centroids ! c else near_mean rs M (cs ! c))"
proof -
  obtain assign where a: "assignSample fused K (concat rs) centroids = Some assign" "length assign = length rs"
      "\<forall>i<length rs. nearest_ok fused K centroids (rs ! i) (unat (assign ! i))"
    using assignSample_ok [OF assms(1,3,4)] by blast
  then have "\<forall>x \<in> set assign. unat x < K" by (auto simp: in_set_conv_nth nearest_ok_def)
  from updateCentroids_ok [OF assms(1,2) a(2) this] show ?thesis using a by (simp add: lloyd_step_def)
qed

lemma lloyd_keeps_ok:
  assumes "rows_ok rs" "length rs < 2 ^ 32" "0 < K" "K \<le> 65536" "centroids_ok K centroids"
  shows "\<exists>cs. lloyd_step fused K (concat rs) i centroids = Some cs \<and> centroids_ok K cs"
proof -
  obtain assign cs where s: "lloyd_step fused K (concat rs) i centroids = Some cs" "length cs = K"
      "\<And>c. c < K \<Longrightarrow> let M = cluster_of assign (length rs) c in if M = {} then cs ! c = centroids ! c else near_mean rs M (cs ! c)"
    using lloyd_step_ok [OF assms(1-4)] by blast
  have "length (cs ! c) = 14 \<and> (\<forall>d<14. centroid_ok (cs ! c ! d) \<and> is_f32 (cs ! c ! d))" if "c < K" for c
    using s(3) [OF that] assms(5) that near_mean_centroid by (auto simp: Let_def centroids_ok_def split: if_splits)
  then show ?thesis using s(1,2) by (auto simp: centroids_ok_def)
qed

lemma TrainKMeans_ok:
  assumes v: "length vectors = cnt * 14" "\<forall>x \<in> set vectors. \<bar>sint x\<bar> \<le> 10000" "0 < cnt" "cnt < 2 ^ 32"
    and K: "0 < K" "K \<le> 65536" and sz: "0 < sz"
  shows "\<exists>centroids. TrainKMeans fused K sz iters vectors cnt = Some centroids \<and> centroids_ok K centroids"
proof -
  define rng where "rng = NewPCG (fst rngSeed) (snd rngSeed)"
  obtain ids rng1 where d: "drawSample vectors cnt sz rng = Some (concat (map (int_row vectors) ids), rng1)"
      "length ids = min sz cnt" "\<forall>i \<in> set ids. i < cnt"
    using drawSample_ok [OF v(1,4)] by blast
  define rs where "rs = map (int_row vectors) ids"
  have ok: "rows_ok rs" unfolding rs_def by (rule int_rows_ok [OF v(1,2) d(3)])
  have len: "0 < length rs" "length rs < 2 ^ 32" using d(2) v(3,4) sz by (simp_all add: rs_def)
  then have "length rs \<le> 2 ^ 63" by simp
  from init_ok [OF ok len(1) this K(1)] obtain cs0 rng2 where
    i: "initKMeansPlusPlus fused K (concat rs) rng1 = Some (cs0, rng2)" "from_sample K rs K cs0" by blast
  have "centroids_ok K cs0" using i(2) row_centroid [OF ok] by (simp add: from_sample_def centroids_ok_def)
  then have "\<exists>cs. ofold (lloyd_step fused K (concat rs)) [0..<iters] cs0 = Some cs \<and> centroids_ok K cs"
    using lloyd_keeps_ok [OF ok len(2) K] by (intro ofold_prefix_rule)
  then show ?thesis using d(1) i(1) by (simp add: TrainKMeans_def Let_def rng_def [symmetric] rs_def)
qed

lemma trained_build_input:
  assumes "dataset_ok ds" "0 < Count ds" "Count ds < 2 ^ 32" "0 < K" "K < 65536" "0 < sz"
  shows "\<exists>centroids assign. TrainKMeans fused K sz iters (Vectors ds) (Count ds) = Some centroids \<and>
    AssignAll fused K (Vectors ds) (Count ds) centroids = Some assign \<and>
    build_input K (DLabels ds) (Vectors ds) (Count ds) centroids assign \<and>
    (\<forall>x \<in> set (soa_centroids K centroids). is_f32 x)"
proof -
  have v: "length (Vectors ds) = Count ds * 14" "\<forall>x \<in> set (Vectors ds). \<bar>sint x\<bar> \<le> 10000"
    using assms(1) by (auto simp: dataset_ok_def)
  have K: "K \<le> 65536" using assms(5) by simp
  obtain cs where cs: "TrainKMeans fused K sz iters (Vectors ds) (Count ds) = Some cs" "centroids_ok K cs"
    using TrainKMeans_ok [OF v assms(2,3,4) K assms(6)] by blast
  obtain assign where a: "AssignAll fused K (Vectors ds) (Count ds) cs = Some assign" "length assign = Count ds"
      "\<forall>i<Count ds. nearest_ok fused K cs (int_row (Vectors ds) i) (unat (assign ! i))"
    using AssignAll_ok [OF v(1) assms(4) K] by blast
  have "\<forall>x \<in> set assign. unat x < K" using a(2,3) by (auto simp: in_set_conv_nth nearest_ok_def)
  then have "build_input K (DLabels ds) (Vectors ds) (Count ds) cs assign"
    using assms v a(2) cs(2) by (auto simp: build_input_def dataset_ok_def centroids_ok_def)
  moreover have "\<forall>x \<in> set (soa_centroids K cs). is_f32 x"
    by (rule soa_is_f32) (use cs(2) in \<open>simp add: centroids_ok_def\<close>)
  ultimately show ?thesis using cs(1) a(1) by blast
qed

section \<open>Properties\<close>

text \<open>C10. Training ends and never panics: for a quantised data set with at least one vector and fewer than \<open>2 ^ 32\<close>, any number of
  clusters up to 65536 and any number of iterations, the draw of the sample, the seeding and Lloyd's
  iterations return that many centroids, all \<open>float32\<close> numbers of absolute value at most 10000, and
  \<open>AssignAll\<close> gives every vector the lowest-numbered of its nearest centroids.\<close>

theorem training_succeeds:
  assumes "length vectors = cnt * 14" "\<forall>x \<in> set vectors. \<bar>sint x\<bar> \<le> 10000" "0 < cnt" "cnt < 2 ^ 32"
    and "0 < K" "K \<le> 65536" and "0 < sz"
  shows "\<exists>centroids assign. TrainKMeans fused K sz iters vectors cnt = Some centroids \<and> centroids_ok K centroids \<and>
    AssignAll fused K vectors cnt centroids = Some assign \<and> length assign = cnt \<and>
    (\<forall>i<cnt. nearest_ok fused K centroids (int_row vectors i) (unat (assign ! i)))"
  using TrainKMeans_ok [OF assms] AssignAll_ok [OF assms(1,5,6)] by blast

theorem training_succeeds_witness:
  "\<exists>centroids assign. TrainKMeans True 4096 SampleSize MaxIters (replicate 28 100) 2 = Some centroids \<and>
    centroids_ok 4096 centroids \<and> AssignAll True 4096 (replicate 28 100) 2 centroids = Some assign \<and> length assign = 2"
  using training_succeeds [of "replicate 28 100" 2 4096 SampleSize True MaxIters]
  by (auto simp: SampleSize_def)

text \<open>C38. One iteration of Lloyd's algorithm on a sample of quantised vectors: every row is assigned to the
  lowest-numbered of its nearest centroids, a cluster without rows keeps its centroid, and every coordinate
  of another centroid becomes a \<open>float32\<close> within a thousandth of the mean of the rows assigned to it.\<close>

theorem lloyd_iteration:
  assumes "rows_ok rs" "length rs < 2 ^ 32" "0 < K" "K \<le> 65536"
  shows "\<exists>assign cs. assignSample fused K (concat rs) centroids = Some assign \<and> length assign = length rs \<and>
    (\<forall>i<length rs. nearest_ok fused K centroids (rs ! i) (unat (assign ! i))) \<and>
    lloyd_step fused K (concat rs) i centroids = Some cs \<and> length cs = K \<and>
    (\<forall>c<K. let M = cluster_of assign (length rs) c in if M = {} then cs ! c = centroids ! c else near_mean rs M (cs ! c))"
  using assms by (rule lloyd_step_ok)

theorem lloyd_iteration_witness:
  "\<exists>cs. lloyd_step False 1 (concat [replicate 14 (Fin 0), replicate 14 (Fin 3)]) 0 [replicate 14 (Fin 9)] = Some cs \<and>
    near_mean [replicate 14 (Fin 0), replicate 14 (Fin 3)] {0, 1} (cs ! 0)"
proof -
  let ?rs = "[replicate 14 (Fin 0), replicate 14 (Fin 3)]"
  have z: "Fin 0 = Fin (of_int 0)" "Fin 3 = Fin (of_int 3)" by simp_all
  have "\<exists>z. Fin 0 = Fin (of_int z) \<and> \<bar>z\<bar> \<le> 10000" "\<exists>z. Fin 3 = Fin (of_int z) \<and> \<bar>z\<bar> \<le> 10000"
    by (intro exI [of _ 0] conjI z(1), simp) (intro exI [of _ 3] conjI z(2), simp)
  then have ok: "rows_ok ?rs" by (auto simp: rows_ok_def)
  have len: "length ?rs = 2" by simp
  obtain assign cs where
    s: "\<forall>i<2. nearest_ok False 1 [replicate 14 (Fin 9)] (?rs ! i) (unat (assign ! i))"
      "lloyd_step False 1 (concat ?rs) 0 [replicate 14 (Fin 9)] = Some cs"
      "let M = cluster_of assign 2 0 in if M = {} then cs ! 0 = [replicate 14 (Fin 9)] ! 0 else near_mean ?rs M (cs ! 0)"
    using lloyd_iteration [OF ok, of 1 False "[replicate 14 (Fin 9)]" 0, unfolded len] by (auto simp del: concat.simps)
  have "unat (assign ! 0) = 0" "unat (assign ! 1) = 0" using s(1) by (simp_all add: nearest_ok_def)
  then have "cluster_of assign 2 0 = {0, 1}" by (auto simp: cluster_of_def less_2_cases_iff)
  then show ?thesis using s(2,3) by auto
qed

end
