(* ===== verification/Startup.thy ===== *)
theory Startup
  imports KMeans Server
begin

text \<open>
  From the reference file to a server that is ready: \<open>cmd/build-index/main.go\<close>, the
  warm-up of \<open>internal/api/warmup.go\<close> and the start of \<open>cmd/api/main.go\<close>.  Files are
  their contents; logging, memory settings and the sockets are not modelled.

  The end of the chain is the property that matters: the index that the tool builds
  from a reference file, written, mapped back and put in service, is searched exactly.
\<close>

subsection \<open>build-index\<close>

datatype build_error = LoadFailed load_error | BuildFailed string

definition build_index ::
  "bool \<Rightarrow> nat \<Rightarrow> nat \<Rightarrow> nat \<Rightarrow> ioerr \<times> string \<Rightarrow> ioerr \<times> string \<Rightarrow> (build_error + u8 list) option" where
  \<comment> \<open>the bytes of the output file\<close>
  "build_index fused K sz iters pass1 pass2 = do {
     r \<leftarrow> LoadFromGzipJSON fused pass1 pass2;
     (case r of
        Inl err \<Rightarrow> Some (Inl (LoadFailed err))
      | Inr ds \<Rightarrow> do {
          centroids \<leftarrow> TrainKMeans fused K sz iters (Vectors ds) (Count ds);
          assign \<leftarrow> AssignAll fused K (Vectors ds) (Count ds) centroids;
          built \<leftarrow> Build fused K (DLabels ds) (Vectors ds) (Count ds) centroids assign;
          (case built of
             Inl err \<Rightarrow> Some (Inl (BuildFailed err))
           | Inr idx \<Rightarrow> map_option Inr (Serialize (\<lambda>w b. Some (w @ b)) idx []))
        })
   }"

subsection \<open>Warm-up\<close>

definition warmupIters :: nat where
  "warmupIters = 2000"

definition warm_query :: "pcg \<Rightarrow> (i16 list \<times> pcg) option" where
  "warm_query rng =
     ofold (\<lambda>d (qi, rng). do {
         (x, rng) \<leftarrow> IntN (nat (2 * sint QuantScale)) rng;
         Some (qi @ [word_of_int (int x - sint QuantScale)], rng)
       }) [0..<14] ([], rng)"

definition Warmup :: "target \<Rightarrow> nat \<Rightarrow> IVFIndex option \<Rightarrow> int \<Rightarrow> unit option" where
  \<comment> \<open>searches are made for their effect on the caches: all that is left is that it returns\<close>
  "Warmup tgt K index n =
     (case index of
        None \<Rightarrow> Some ()
      | Some idx \<Rightarrow>
          if n \<le> 0 then Some ()
          else do {
            _ \<leftarrow> ofold (\<lambda>i (scratch, rng). do {
                (qi, rng) \<leftarrow> warm_query rng;
                (_, scratch) \<leftarrow> FraudCountIVF tgt (to_f32 qi) qi idx scratch;
                Some (scratch, rng)
              }) [0..<nat n] (new_scratch K, NewPCG 0xC0FFEE 0xCAFE);
            Some ()
          })"

subsection \<open>The start of the server\<close>

definition start_up :: "target \<Rightarrow> nat \<Rightarrow> u8 list option \<Rightarrow> hstate \<Rightarrow> (idx_error + hstate) option" where
  \<comment> \<open>the contents of the index file, if there is one; the error ends the process\<close>
  "start_up tgt K index_file h =
     (case index_file of
        None \<Rightarrow> Some (Inr (MarkReady h))
      | Some data \<Rightarrow> do {
          r \<leftarrow> LoadMmap (fuses tgt) data;
          (case r of
             Inl err \<Rightarrow> Some (Inl err)
           | Inr idx \<Rightarrow> do {
               _ \<leftarrow> Warmup tgt K (Some idx) (int warmupIters);
               Some (Inr (SetIndex idx h))
             })
        })"

subsection \<open>The warm-up returns\<close>

lemma warm_query_ok: "\<exists>qi rng'. warm_query rng = Some (qi, rng') \<and> quantized qi"
proof -
  have S: "nat (2 * sint QuantScale) = 20000" "sint QuantScale = 10000" by (simp_all add: QuantScale_def)
  define P :: "nat \<Rightarrow> i16 list \<times> pcg \<Rightarrow> bool" where
    "P i = (\<lambda>(qi, rng). length qi = i \<and> (\<forall>x \<in> set qi. \<bar>sint x\<bar> \<le> 10000))" for i
  have "\<exists>s. ofold (\<lambda>d (qi, rng). do {
         (x, rng) \<leftarrow> IntN (nat (2 * sint QuantScale)) rng;
         Some (qi @ [word_of_int (int x - sint QuantScale)], rng)
       }) [0..<14] ([], rng) = Some s \<and> P (length [0..<14]) s"
  proof (rule ofold_prefix_rule)
    fix i s assume P: "P i s"
    obtain qi r where s: "s = (qi, r)" by force
    obtain x r' where x: "IntN 20000 r = Some (x, r')" "x < 20000" using IntN_total [of 20000 r] by auto
    have "sint (word_of_int (int x - 10000) :: i16) = int x - 10000" using x(2) by (intro sint_word_of_int_i16) auto
    then have "P (Suc i) (qi @ [word_of_int (int x - 10000)], r')" using P x(2) by (auto simp: P_def s)
    then show "\<exists>s'. (case s of (qi, rng) \<Rightarrow> do {
         (x, rng) \<leftarrow> IntN (nat (2 * sint QuantScale)) rng;
         Some (qi @ [word_of_int (int x - sint QuantScale)], rng)
       }) = Some s' \<and> P (Suc i) s'" by (simp add: s S x(1))
  qed (simp add: P_def)
  then show ?thesis by (auto simp: warm_query_def P_def quantized_def)
qed

lemma Warmup_returns:
  assumes fits: "index_fits tgt K idx" and K: "64 dvd K"
  shows "Warmup tgt K (Some idx) n = Some ()"
proof -
  have "scr_shape idx (new_scratch K)" using fits K by (auto simp: scr_shape_def new_scratch_def index_fits_def)
  then have "\<exists>s. ofold (\<lambda>i (scratch, rng). do {
        (qi, rng) \<leftarrow> warm_query rng;
        (_, scratch) \<leftarrow> FraudCountIVF tgt (to_f32 qi) qi idx scratch;
        Some (scratch, rng)
      }) [0..<nat n] (new_scratch K, NewPCG 0xC0FFEE 0xCAFE) = Some s \<and> scr_shape idx (fst s)"
  proof (intro ofold_prefix_rule [where P = "\<lambda>_ (s :: IVFScratch \<times> pcg). scr_shape idx (fst s)"])
    fix i and s :: "IVFScratch \<times> pcg" assume P: "scr_shape idx (fst s)"
    obtain scr r where s: "s = (scr, r)" by force
    obtain qi r' where q: "warm_query r = Some (qi, r')" "quantized qi" using warm_query_ok by blast
    have "search_ok tgt qi idx" using fits q(2) by (auto simp: index_fits_def search_ok_def)
    moreover have "scr_shape idx scr" using P by (simp add: s)
    ultimately obtain ids scr' where
      "FraudCountIVF tgt (to_f32 qi) qi idx scr = Some (frauds (unset @ cands qi idx ids), scr')" "search_state qi idx ids scr'"
      using FraudCountIVF_scans by metis
    then show "\<exists>s'. (case s of (scratch, rng) \<Rightarrow> do {
        (qi, rng) \<leftarrow> warm_query rng;
        (_, scratch) \<leftarrow> FraudCountIVF tgt (to_f32 qi) qi idx scratch;
        Some (scratch, rng)
      }) = Some s' \<and> scr_shape idx (fst s')" by (simp add: s q(1) search_state_def)
  qed simp
  then show ?thesis by (auto simp: Warmup_def)
qed

subsection \<open>From the file to the index in service\<close>

definition file_dataset :: "(cell list \<times> bool) list \<Rightarrow> Dataset" where
  "file_dataset es = \<lparr>Vectors = concat (map (map cell_val \<circ> fst) es), DLabels = map (\<lambda>x. if snd x then 1 else 0) es, Count = length es\<rparr>"

lemma cell_val_range: "cell_ok c \<Longrightarrow> \<bar>sint (cell_val c)\<bar> \<le> 10000"
proof (cases c)
  case (Weight n k)
  moreover assume "cell_ok c"
  ultimately have k: "k \<le> 10000" by (cases n) simp
  then have "sint (word_of_int (int k) :: i16) = int k" by (intro sint_word_of_int_i16) auto
  then show ?thesis using Weight k by simp
qed (simp add: SentinelInt_def)

lemma file_dataset_ok: "list_all entry_ok es \<Longrightarrow> dataset_ok (file_dataset es)"
proof -
  assume ok: "list_all entry_ok es"
  have "length (concat (map (map cell_val \<circ> fst) es)) = length es * 14"
    using ok by (induction es) (auto simp: entry_ok_def)
  moreover have "\<bar>sint x\<bar> \<le> 10000" if "x \<in> set (concat (map (map cell_val \<circ> fst) es))" for x
    using that ok by (auto simp: list_all_iff entry_ok_def cell_val_range)
  ultimately show ?thesis by (auto simp: dataset_ok_def file_dataset_def)
qed

lemma built_index:
  assumes ds: "dataset_ok ds" "0 < Count ds" "Count ds < 2 ^ 32" and K: "0 < K" "K < 65536" and sz: "0 < sz"
  shows "\<exists>centroids assign idx bytes. TrainKMeans fused K sz iters (Vectors ds) (Count ds) = Some centroids \<and>
    AssignAll fused K (Vectors ds) (Count ds) centroids = Some assign \<and>
    Build fused K (DLabels ds) (Vectors ds) (Count ds) centroids assign = Some (Inr idx) \<and>
    Serialize (\<lambda>w b. Some (w @ b)) idx [] = Some bytes \<and> LoadMmap fused bytes = Some (Inr idx) \<and>
    wf_index idx \<and> unat (ixK idx) = K \<and> mset (members idx) = mset (labelled (Vectors ds) (DLabels ds) (Count ds))"
proof -
  obtain centroids assign where t: "TrainKMeans fused K sz iters (Vectors ds) (Count ds) = Some centroids"
      "AssignAll fused K (Vectors ds) (Count ds) centroids = Some assign"
      "build_input K (DLabels ds) (Vectors ds) (Count ds) centroids assign" "\<forall>x \<in> set (soa_centroids K centroids). is_f32 x"
    using trained_build_input [OF ds K sz] by blast
  from Build_wf [OF t(3)] obtain idx where
    b: "Build fused K (DLabels ds) (Vectors ds) (Count ds) centroids assign = Some (Inr idx)" "wf_index idx"
      "unat (ixK idx) = K" "mset (members idx) = mset (labelled (Vectors ds) (DLabels ds) (Count ds))" by blast
  have "labelled (Vectors ds) (DLabels ds) (Count ds) \<noteq> []" using ds(2) by (simp add: labelled_def)
  then have "members idx \<noteq> []" using b(4) by auto
  from mapped_reader.read_built [OF b(1,2) this t(4)] show ?thesis using t(1,2) b by blast
qed

section \<open>Properties\<close>

text \<open>C1. From the reference file to the answer.  For a well-formed file of at least one reference and
  fewer than \<open>2 ^ 32\<close>, and a number of clusters below 65536 that is a multiple of 64, \<open>build-index\<close> writes an index file; a server started on that file warms up, comes up ready with an index
  and in a valid state; and for every quantized query without a tie at the fifth place, and every scratch
  the pool can hold, the full sweep of that index counts the frauds that the brute force counts among the
  references of the file.\<close>

theorem end_to_end:
  assumes "list_all entry_ok es" "es \<noteq> []" "length es < 2 ^ 32" "64 dvd K" "0 < K" "K < 65536" "0 < sz"
  shows "\<exists>bytes idx. build_index (fuses tgt) K sz iters (EOF, CHR ''['' # render_file es) (EOF, CHR ''['' # render_file es) =
      Some (Inr bytes) \<and>
    start_up tgt K (Some bytes) (NewHandler cap) = Some (Inr (SetIndex idx (NewHandler cap))) \<and>
    server_ok tgt K (SetIndex idx (NewHandler cap)) \<and>
    (\<forall>q scr. quantized q \<and> scratch_fits K scr \<and>
        no_tie (dataset_cands q (labelled (Vectors (file_dataset es)) (DLabels (file_dataset es)) (length es))) \<longrightarrow>
      (\<exists>fc scr'. FraudCountFull K tgt (to_f32 q) q idx scr = Some (fc, scr') \<and>
        FraudCountBrute q (file_dataset es) = Some (int (unat fc))))"
proof -
  define ds where "ds = file_dataset es"
  have ds: "dataset_ok ds" "Count ds = length es" using file_dataset_ok [OF assms(1)] by (simp_all add: ds_def file_dataset_def)
  have load: "LoadFromGzipJSON (fuses tgt) (EOF, CHR ''['' # render_file es) (EOF, CHR ''['' # render_file es) = Some (Inr ds)"
    unfolding ds_def file_dataset_def by (rule file_loads [OF assms(1)])
  obtain centroids assign idx bytes where b:
    "TrainKMeans (fuses tgt) K sz iters (Vectors ds) (Count ds) = Some centroids"
    "AssignAll (fuses tgt) K (Vectors ds) (Count ds) centroids = Some assign"
    "Build (fuses tgt) K (DLabels ds) (Vectors ds) (Count ds) centroids assign = Some (Inr idx)"
    "Serialize (\<lambda>w b. Some (w @ b)) idx [] = Some bytes" "LoadMmap (fuses tgt) bytes = Some (Inr idx)"
    "wf_index idx" "unat (ixK idx) = K" "mset (members idx) = mset (labelled (Vectors ds) (DLabels ds) (Count ds))"
    using built_index [of ds K sz "fuses tgt" iters] ds assms by auto
  have dvd: "K mod 16 = 0" using assms(4) by presburger
  then have fits: "index_fits tgt K idx" using b(6,7) assms(6) by (simp add: index_fits_def)
  have "build_index (fuses tgt) K sz iters (EOF, CHR ''['' # render_file es) (EOF, CHR ''['' # render_file es) = Some (Inr bytes)"
    by (simp add: build_index_def load b(1-4))
  moreover have "start_up tgt K (Some bytes) (NewHandler cap) = Some (Inr (SetIndex idx (NewHandler cap)))"
    by (simp add: start_up_def b(5) Warmup_returns [OF fits assms(4)])
  moreover have "server_ok tgt K (SetIndex idx (NewHandler cap))"
    by (rule server_ok_SetIndex [OF server_ok_init [OF assms(4)] fits])
  moreover have "\<exists>fc scr'. FraudCountFull K tgt (to_f32 q) q idx scr = Some (fc, scr') \<and>
        FraudCountBrute q ds = Some (int (unat fc))"
    if q: "quantized q" "scratch_fits K scr" "no_tie (dataset_cands q (labelled (Vectors ds) (DLabels ds) (Count ds)))" for q scr
  proof -
    have ok: "search_ok tgt q idx" "scr_shape idx scr"
      using fits q(1,2) dvd by (auto simp: search_ok_def index_fits_def scratch_fits_def scr_shape_def)
    from FraudCountFull_eq [OF ok] obtain scr' cs where
      r: "FraudCountFull K tgt (to_f32 q) q idx scr = Some (frauds (unset @ cs), scr')"
      "mset cs = mset (cands q idx [0..<unat (ixK idx)])" unfolding b(7) by blast
    from r(2) have "frauds (unset @ cs) = frauds (dataset_cands q (labelled (Vectors ds) (DLabels ds) (Count ds)))"
      using frauds_exact [OF b(6) q(1) _ b(8) q(3)] by blast
    then show ?thesis using r(1) FraudCountBrute_eq [OF ds(1)] by simp
  qed
  ultimately show ?thesis unfolding ds(2) ds_def [symmetric] by blast
qed

theorem end_to_end_witness:
  "\<exists>bytes idx fc scr'. build_index True 64 28 25 (EOF, CHR ''['' # render_file [(sample_cells, True)])
       (EOF, CHR ''['' # render_file [(sample_cells, True)]) = Some (Inr bytes) \<and>
    start_up \<lparr>amd64 = True, fuses = True\<rparr> 64 (Some bytes) (NewHandler 2) = Some (Inr (SetIndex idx (NewHandler 2))) \<and>
    FraudCountFull 64 \<lparr>amd64 = True, fuses = True\<rparr> (to_f32 (replicate 14 300)) (replicate 14 300) idx (new_scratch 64) = Some (fc, scr') \<and>
    FraudCountBrute (replicate 14 300) (file_dataset [(sample_cells, True)]) = Some (int (unat fc))"
proof -
  let ?es = "[(sample_cells, True)]" and ?q = "replicate 14 300 :: i16 list"
  have n: "?es \<noteq> []" "length ?es < 2 ^ 32" "64 dvd (64 :: nat)" "0 < (64 :: nat)" "(64 :: nat) < 65536" "0 < (28 :: nat)" by simp_all
  have "quantized ?q" by (simp add: quantized_def)
  moreover have "scratch_fits 64 (new_scratch 64)" by (rule new_scratch_fits) simp
  moreover have "no_tie (dataset_cands ?q (labelled (Vectors (file_dataset ?es)) (DLabels (file_dataset ?es)) (length ?es)))"
    by (simp add: no_tie_def dataset_cands_def labelled_def)
  moreover obtain bytes idx where
    "build_index True 64 28 25 (EOF, CHR ''['' # render_file ?es) (EOF, CHR ''['' # render_file ?es) = Some (Inr bytes)"
    "start_up \<lparr>amd64 = True, fuses = True\<rparr> 64 (Some bytes) (NewHandler 2) = Some (Inr (SetIndex idx (NewHandler 2)))"
    "\<forall>q scr. quantized q \<and> scratch_fits 64 scr \<and>
        no_tie (dataset_cands q (labelled (Vectors (file_dataset ?es)) (DLabels (file_dataset ?es)) (length ?es))) \<longrightarrow>
      (\<exists>fc scr'. FraudCountFull 64 \<lparr>amd64 = True, fuses = True\<rparr> (to_f32 q) q idx scr = Some (fc, scr') \<and>
        FraudCountBrute q (file_dataset ?es) = Some (int (unat fc)))"
    using end_to_end [OF sample_file_ok n, of "\<lparr>amd64 = True, fuses = True\<rparr>" 25 2] unfolding target.simps by blast
  ultimately show ?thesis by blast
qed

end
