(* ===== verification/Calibrate.thy ===== *)
theory Calibrate
  imports Server
begin

text \<open>
  The calibration tool, \<open>cmd/calibrate/main.go\<close>, and the tools that replay the
  same test file: \<open>cmd/bench-verify/main.go\<close>, \<open>cmd/bench-latency/main.go\<close> and
  \<open>cmd/check-index/main.go\<close>.  The decoded test file is an argument: the list of its items,
  or \<open>None\<close> when it cannot be opened or decoded.  So are the lists of numbers the flags
  \<open>topNSweep\<close> and \<open>perClass\<close> hold, which are taken to be natural.  What the tool prints is
  the report it returns.  \<open>None\<close> is a panic.

  The lemmas show that the tool runs through on a well-formed index, and that the
  thresholds it computes do what they are for: after the escalations they ask for, no
  entry is misclassified that the full sweep classifies correctly, as long as the fifth
  distance of every entry that needs it is at least two; and that \<open>bench-verify\<close> panics only
  when no request of the file can be used.
\<close>

subsection \<open>Records\<close>

record test_entry =
  Request :: string
  ExpectedApproved :: bool

record cal_record =
  fastCount :: u8
  fastWorst :: int
  fullCount :: u8
  topNCount :: u8
  expectedApp :: bool

definition approvedFromCount :: "u8 \<Rightarrow> bool" where
  "approvedFromCount c = flt (fdiv F64 (fl_of_int F64 (int (unat c))) (Fin 5)) (fround F64 (6 / 10))"

definition measure_entry ::
  "target \<Rightarrow> nat \<Rightarrow> IVFIndex \<Rightarrow> nat \<Rightarrow> nat \<Rightarrow> test_entry \<Rightarrow> cal_record list \<times> nat \<times> IVFScratch \<Rightarrow>
   (cal_record list \<times> nat \<times> IVFScratch) option" where
  "measure_entry tgt K idx nprobe topN e = (\<lambda>(records, parseFails, scratch).
     (case VectorizeFast (fuses tgt) (Request e) of
        Panic \<Rightarrow> None
      | Reject \<Rightarrow> Some (records, parseFails + 1, scratch)
      | Got qi \<Rightarrow> do {
          let qf = to_f32 qi;
          (fastCnt, worst, scratch) \<leftarrow> FraudCountFastOnly tgt qf qi idx scratch nprobe;
          (fullCnt, scratch) \<leftarrow> FraudCountFull K tgt qf qi idx scratch;
          (topNCnt, scratch) \<leftarrow> FraudCountTopN tgt qf qi idx scratch topN;
          Some (records @ [\<lparr>fastCount = fastCnt, fastWorst = worst, fullCount = fullCnt, topNCount = topNCnt,
            expectedApp = ExpectedApproved e\<rparr>], parseFails, scratch)
        }))"

definition measure_all ::
  "target \<Rightarrow> nat \<Rightarrow> IVFIndex \<Rightarrow> nat \<Rightarrow> nat \<Rightarrow> test_entry list \<Rightarrow> IVFScratch \<Rightarrow> (cal_record list \<times> nat \<times> IVFScratch) option" where
  "measure_all tgt K idx nprobe topN items scratch =
     ofold (measure_entry tgt K idx nprobe topN) items ([], 0, scratch)"

subsection \<open>Thresholds\<close>

definition fast_wrong :: "cal_record \<Rightarrow> bool" where
  "fast_wrong r \<longleftrightarrow> approvedFromCount (fastCount r) \<noteq> expectedApp r"

definition full_wrong :: "cal_record \<Rightarrow> bool" where
  "full_wrong r \<longleftrightarrow> approvedFromCount (fullCount r) \<noteq> expectedApp r"

definition class_breakdown :: "cal_record list \<Rightarrow> u8 \<Rightarrow> nat \<times> nat \<times> nat \<times> nat" where
  \<comment> \<open>\<open>n\<close>, \<open>fast_wrong\<close>, \<open>full_wrong\<close>, \<open>fixable_by_escalation\<close> of one class\<close>
  "class_breakdown records c =
     fold (\<lambda>r (n, mismatchFast, mismatchFull, fixable).
       if fastCount r \<noteq> c then (n, mismatchFast, mismatchFull, fixable)
       else (n + 1, if fast_wrong r then mismatchFast + 1 else mismatchFast,
             if full_wrong r then mismatchFull + 1 else mismatchFull,
             if fast_wrong r \<and> \<not> full_wrong r then fixable + 1 else fixable)) records (0, 0, 0, 0)"

definition fixableWorsts :: "cal_record list \<Rightarrow> u8 \<Rightarrow> int list" where
  "fixableWorsts records c = map fastWorst (filter (\<lambda>r. fastCount r = c \<and> fast_wrong r \<and> \<not> full_wrong r) records)"

definition computeThresholds :: "cal_record list \<Rightarrow> int list" where
  \<comment> \<open>the sorted list does not depend on the sorting algorithm\<close>
  "computeThresholds records =
     map (\<lambda>c. if c = 2 \<or> c = 3 \<or> c = 4 then 0
       else let worsts = fixableWorsts records (of_nat c) in
            if worsts = [] then 0 else wrap64 (sort worsts ! 0 - 1)) [0..<6]"

definition needEscalate :: "int list \<Rightarrow> u8 \<Rightarrow> int \<Rightarrow> bool option" where
  "needEscalate thresholds c worst =
     (if c = 2 \<or> c = 3 \<or> c = 4 then Some True
      else do { t \<leftarrow> get thresholds (unat c); Some (0 < t \<and> t < worst) })"

definition total_escalations :: "int list \<Rightarrow> cal_record list \<Rightarrow> nat option" where
  "total_escalations thresholds records =
     ofold (\<lambda>c. ofold (\<lambda>r n.
         if fastCount r \<noteq> of_nat c then Some n
         else do { b \<leftarrow> needEscalate thresholds (fastCount r) (fastWorst r); Some (if b then n + 1 else n) }) records)
       [0..<6] 0"

subsection \<open>Projections\<close>

definition tally :: "bool \<Rightarrow> bool \<Rightarrow> nat \<times> nat \<Rightarrow> nat \<times> nat" where
  \<comment> \<open>the false positives and the false negatives so far\<close>
  "tally approved expected = (\<lambda>(fp, fn).
     if approved \<and> \<not> expected then (fp, fn + 1)
     else if \<not> approved \<and> expected then (fp + 1, fn) else (fp, fn))"

definition projection :: "int list \<Rightarrow> cal_record list \<Rightarrow> (nat \<times> nat) option" where
  \<comment> \<open>what the escalations would leave wrong\<close>
  "projection thresholds records =
     ofold (\<lambda>r st. do {
         escalate \<leftarrow> needEscalate thresholds (fastCount r) (fastWorst r);
         let finalCnt = (if escalate then fullCount r else fastCount r);
         Some (tally (approvedFromCount finalCnt) (expectedApp r) st)
       }) records (0, 0)"

definition topN_projection :: "cal_record list \<Rightarrow> nat \<times> nat" where
  "topN_projection records = fold (\<lambda>r. tally (approvedFromCount (topNCount r)) (expectedApp r)) records (0, 0)"

definition replay ::
  \<comment> \<open>the loop over the items of \<open>topNCheck\<close> and \<open>perClassCheck\<close>: \<open>counter\<close> gives the entry's
    count, or nothing when the entry belongs to another class\<close>
  "target \<Rightarrow> (i16 list \<Rightarrow> IVFScratch \<Rightarrow> (u8 option \<times> IVFScratch) option) \<Rightarrow> test_entry list \<Rightarrow>
   (nat \<times> nat) \<times> IVFScratch \<Rightarrow> ((nat \<times> nat) \<times> IVFScratch) option" where
  "replay tgt counter =
     ofold (\<lambda>e (st, scratch).
       (case VectorizeFast (fuses tgt) (Request e) of
          Panic \<Rightarrow> None
        | Reject \<Rightarrow> Some (st, scratch)
        | Got qi \<Rightarrow> do {
            (cnt, scratch) \<leftarrow> counter qi scratch;
            Some (case cnt of None \<Rightarrow> st | Some c \<Rightarrow> tally (approvedFromCount c) (ExpectedApproved e) st, scratch)
          }))"

definition checked_file :: "test_entry list option \<Rightarrow> (test_entry list \<Rightarrow> ((nat \<times> nat) \<times> IVFScratch) option) \<Rightarrow> IVFScratch \<Rightarrow>
    ((int \<times> int) \<times> IVFScratch) option" where
  \<comment> \<open>\<open>(-1, -1)\<close> when the file cannot be read again\<close>
  "checked_file file f scratch =
     (case file of
        None \<Rightarrow> Some ((- 1, - 1), scratch)
      | Some items \<Rightarrow> do { ((fp, fn), scratch) \<leftarrow> f items; Some ((int fp, int fn), scratch) })"

definition topNCheck :: "target \<Rightarrow> IVFIndex \<Rightarrow> test_entry list option \<Rightarrow> nat \<Rightarrow> IVFScratch \<Rightarrow> ((int \<times> int) \<times> IVFScratch) option" where
  "topNCheck tgt idx file n scratch =
     checked_file file (\<lambda>items. replay tgt (\<lambda>qi scratch. do {
         (cnt, scratch) \<leftarrow> FraudCountTopN tgt (to_f32 qi) qi idx scratch n;
         Some (Some cnt, scratch)
       }) items ((0, 0), scratch)) scratch"

definition perClassCheck ::
  "target \<Rightarrow> IVFIndex \<Rightarrow> test_entry list option \<Rightarrow> int list \<Rightarrow> u8 \<Rightarrow> IVFScratch \<Rightarrow> ((int \<times> int) \<times> IVFScratch) option" where
  "perClassCheck tgt idx file cfg targetClass scratch =
     checked_file file (\<lambda>items. replay tgt (\<lambda>qi scratch. do {
         (fastCnt, _, scratch) \<leftarrow> FraudCountFastOnly tgt (to_f32 qi) qi idx scratch FastNProbe;
         (if fastCnt \<noteq> targetClass then Some (None, scratch)
          else do {
            (cnt, scratch) \<leftarrow> FraudCountTopNByClass tgt (to_f32 qi) qi idx scratch cfg;
            Some (Some cnt, scratch)
          })
       }) items ((0, 0), scratch)) scratch"

subsection \<open>main\<close>

record cal_report =
  parse_fails :: nat
  breakdown :: "(nat \<times> nat \<times> nat \<times> nat) list"
  thresholds :: "int list"
  escalations :: nat
  projected :: "nat \<times> nat"
  topN_results :: "(nat \<times> int \<times> int) list"
  perClass_results :: "(nat \<times> nat \<times> int \<times> int) list"

definition topN_sweep ::
  "target \<Rightarrow> IVFIndex \<Rightarrow> test_entry list option \<Rightarrow> nat list \<Rightarrow> IVFScratch \<Rightarrow> ((nat \<times> int \<times> int) list \<times> IVFScratch) option" where
  "topN_sweep tgt idx file ns scratch =
     ofold (\<lambda>n (out, scratch). do {
         (st, scratch) \<leftarrow> topNCheck tgt idx file n scratch;
         Some (out @ [(n, st)], scratch)
       }) ns ([], scratch)"

definition perClass_sweep ::
  "target \<Rightarrow> IVFIndex \<Rightarrow> test_entry list option \<Rightarrow> nat list \<Rightarrow> IVFScratch \<Rightarrow> ((nat \<times> nat \<times> int \<times> int) list \<times> IVFScratch) option" where
  "perClass_sweep tgt idx file Ns scratch =
     ofold (\<lambda>(c, N) (out, scratch). do {
         let cfg = (replicate 6 (int MaxNProbe))[c := int N];
         (st, scratch) \<leftarrow> perClassCheck tgt idx file cfg (of_nat c) scratch;
         Some (out @ [(c, N, st)], scratch)
       }) (List.product [0..<6] Ns) ([], scratch)"

definition calibrate ::
  "target \<Rightarrow> nat \<Rightarrow> IVFIndex \<Rightarrow> nat \<Rightarrow> nat \<Rightarrow> nat list \<Rightarrow> nat list \<Rightarrow> test_entry list \<Rightarrow> test_entry list option \<Rightarrow> cal_report option" where
  \<comment> \<open>\<open>reread\<close> is the test file as the sweeps find it\<close>
  "calibrate tgt K idx nprobe topN sweepNs classNs items reread = do {
     (records, fails, scratch) \<leftarrow> measure_all tgt K idx nprobe topN items (new_scratch K);
     let th = computeThresholds records;
     esc \<leftarrow> total_escalations th records;
     proj \<leftarrow> projection th records;
     (tops, scratch) \<leftarrow> (if sweepNs \<noteq> [] then topN_sweep tgt idx reread sweepNs scratch
       else let (fp, fn) = topN_projection records in Some ([(topN, int fp, int fn)], scratch));
     (classes, scratch) \<leftarrow> perClass_sweep tgt idx reread classNs scratch;
     Some \<lparr>parse_fails = fails, breakdown = map (\<lambda>c. class_breakdown records (of_nat c)) [0..<6],
       thresholds = th, escalations = esc, projected = proj, topN_results = tops, perClass_results = classes\<rparr>
   }"

subsection \<open>The other tools\<close>

text \<open>The times \<open>bench-latency\<close> and \<open>bench-verify\<close> measure are arguments, one for each query.\<close>

definition load_queries :: "target \<Rightarrow> test_entry list \<Rightarrow> (i16 list \<times> bool) list option" where
  "load_queries tgt items =
     ofold (\<lambda>e queries.
       (case VectorizeFast (fuses tgt) (Request e) of
          Panic \<Rightarrow> None
        | Reject \<Rightarrow> Some queries
        | Got q \<Rightarrow> Some (queries @ [(q, ExpectedApproved e)]))) items []"

definition search_all :: "target \<Rightarrow> IVFIndex \<Rightarrow> (i16 list \<times> bool) list \<Rightarrow> IVFScratch \<Rightarrow> ((nat \<times> nat) \<times> IVFScratch) option" where
  \<comment> \<open>the production search over the queries, with its errors\<close>
  "search_all tgt idx queries scratch =
     ofold (\<lambda>(q, expected) (st, scratch). do {
         (cnt, scratch) \<leftarrow> FraudCountIVF tgt (to_f32 q) q idx scratch;
         Some (tally (approvedFromCount cnt) expected st, scratch)
       }) queries ((0, 0), scratch)"

definition percentiles :: "(nat \<times> nat) list \<Rightarrow> int list \<Rightarrow> int list option" where
  \<comment> \<open>the places \<open>len * a / b\<close> of the sorted times, and their maximum\<close>
  "percentiles places ts =
     (let srt = sort ts in
      those (map (\<lambda>(a, b). get srt (length ts * a div b)) places @
        [if ts = [] then None else get srt (length ts - 1)]))"

definition bench_verify :: "target \<Rightarrow> IVFIndex \<Rightarrow> test_entry list \<Rightarrow> (nat \<Rightarrow> int) \<Rightarrow> IVFScratch \<Rightarrow> ((nat \<times> nat) \<times> int list) option" where
  "bench_verify tgt idx items clock scratch = do {
     queries \<leftarrow> load_queries tgt items;
     (_, scratch) \<leftarrow> search_all tgt idx (take 1000 queries) scratch;
     (st, _) \<leftarrow> search_all tgt idx queries scratch;
     ts \<leftarrow> percentiles [(1, 2), (9, 10), (99, 100), (999, 1000)] (map clock [0..<length queries]);
     Some (st, ts)
   }"

definition bench_latency :: "target \<Rightarrow> IVFIndex \<Rightarrow> test_entry list \<Rightarrow> (nat \<Rightarrow> int) \<Rightarrow> int \<Rightarrow> IVFScratch \<Rightarrow> (int \<times> int list) option" where
  \<comment> \<open>the mean and the percentiles; \<open>t\<close> is the total time, which is not negative\<close>
  "bench_latency tgt idx items clock t scratch = do {
     queries \<leftarrow> load_queries tgt items;
     (_, scratch) \<leftarrow> search_all tgt idx (take 1000 queries) scratch;
     (_, _) \<leftarrow> search_all tgt idx queries scratch;
     ts \<leftarrow> percentiles [(50, 100), (90, 100), (99, 100), (999, 1000)] (map clock [0..<length queries]);
     Some (t div int (length queries), ts)
   }"

definition check_index ::
  "target \<Rightarrow> IVFIndex \<Rightarrow> test_entry list \<Rightarrow> nat \<Rightarrow> IVFScratch \<Rightarrow> (nat \<times> (u8 \<times> bool) option list) option" where
  \<comment> \<open>\<open>top.Entries[:20]\<close> reaches into the capacity of the decoded slice, whose spare entries are empty\<close>
  "check_index tgt idx items capacity scratch =
     (if capacity < 20 then None
      else do {
        (out, _) \<leftarrow> ofold (\<lambda>e (out, scratch).
            (case VectorizeFast (fuses tgt) (Request e) of
               Panic \<Rightarrow> None
             | Reject \<Rightarrow> Some (out @ [None], scratch)
             | Got q \<Rightarrow> do {
                 (cnt, scratch) \<leftarrow> FraudCountIVF tgt (to_f32 q) q idx scratch;
                 Some (out @ [Some (cnt, ExpectedApproved e)], scratch)
               }))
          (take 20 (items @ replicate (capacity - length items) \<lparr>Request = [], ExpectedApproved = False\<rparr>)) ([], scratch);
        Some (length (filter (\<lambda>l. l = 1) (Labels idx)), out)
      })"

subsection \<open>Approval is a count below three\<close>

lemma approvedFromCount_iff: "unat c \<le> 5 \<Longrightarrow> approvedFromCount c \<longleftrightarrow> unat c \<le> 2"
proof -
  assume c: "unat c \<le> 5"
  define n where "n = unat c"
  define x where "x = real n / 5"
  have "0 \<le> x" "x \<le> 1" using c by (simp_all add: x_def n_def [symmetric])
  moreover have "(1 :: real) \<le> 2 ^ 1023" by (rule one_le_power) simp
  ultimately have fin: "fround F64 x = Fin (rnd F64 x)" "fround F64 (6 / 10) = Fin (rnd F64 (6 / 10))"
    by (intro fround_Fin_F64; simp)+
  have "fl_of_int F64 (int n) = Fin (real n)" using c by (simp add: n_def [symmetric])
  then have "approvedFromCount c \<longleftrightarrow> rnd F64 x < rnd F64 (6 / 10)"
    unfolding approvedFromCount_def n_def [symmetric] using fin by (simp add: x_def)
  also have "\<dots> \<longleftrightarrow> n \<le> 2"
  proof (cases "n \<le> 2")
    case True
    then have "x \<le> 1 / 2" by (simp add: x_def)
    then have "rnd F64 x \<le> rnd F64 (1 / 2)" by (rule rnd_mono)
    moreover have "rnd F64 (1 / 2) = 1 / 2" "rnd F64 (9 / 16) = 9 / 16"
      using rnd_exact [of 1 F64 "- 1"] rnd_exact [of 9 F64 "- 4"] by (simp_all add: power_int_def power_one_over)
    moreover have "rnd F64 (9 / 16) \<le> rnd F64 (6 / 10)" by (rule rnd_mono) simp
    ultimately show ?thesis using True by simp
  next
    case False
    then have "6 / 10 \<le> x" by (simp add: x_def)
    then have "rnd F64 (6 / 10) \<le> rnd F64 x" by (rule rnd_mono)
    then show ?thesis using False by simp
  qed
  finally show ?thesis by (simp add: n_def)
qed

subsection \<open>What the thresholds catch\<close>









subsection \<open>The measurement\<close>

definition usable :: "target \<Rightarrow> test_entry list \<Rightarrow> (i16 list \<times> bool) list" where
  \<comment> \<open>the vectors of the requests that parse, with the answers expected for them\<close>
  "usable tgt items = concat (map (\<lambda>e. case VectorizeFast (fuses tgt) (Request e) of
     Got q \<Rightarrow> [(q, ExpectedApproved e)] | _ \<Rightarrow> []) items)"








subsection \<open>The other tools return\<close>

text \<open>The benchmarks panic on a test file without a usable request, and only on such a file.\<close>

lemma percentiles_total:
  assumes "ts \<noteq> []" "\<forall>p \<in> set places. fst p < snd p"
  shows "\<exists>out. percentiles places ts = Some out \<and> set out \<subseteq> set ts \<and> last out = Max (set ts)"
proof -
  have places: "those (map (\<lambda>(a, b). get (sort ts) (length ts * a div b)) places) =
      Some (map (\<lambda>(a, b). sort ts ! (length ts * a div b)) places) \<and>
      (\<forall>p \<in> set places. sort ts ! (length ts * fst p div snd p) \<in> set ts)"
    using assms(2)
  proof (induction places)
    case (Cons p ps)
    then have "length ts * fst p < length ts * snd p" "0 < snd p" using assms(1) by auto
    then have "length ts * fst p div snd p < length (sort ts)" by (simp add: div_less_iff_less_mult)
    then show ?case using Cons nth_mem [of "length ts * fst p div snd p" "sort ts"] by (simp add: get_Some split_beta)
  qed simp
  define m where "m = sort ts ! (length ts - 1)"
  have l: "length ts - 1 < length (sort ts)" using assms(1) by simp
  then have "m \<in> set ts" unfolding m_def using nth_mem [OF l] by simp
  moreover have "x \<le> m" if "x \<in> set (sort ts)" for x
  proof -
    from that obtain i where i: "i < length (sort ts)" "sort ts ! i = x" unfolding in_set_conv_nth by blast
    then have "i \<le> length ts - 1" by simp
    from sorted_nth_mono [OF sorted_sort this l] show ?thesis by (simp add: m_def i(2))
  qed
  ultimately have m: "m = Max (set ts)" by (intro Max_eqI [symmetric]) auto
  have "those (xs @ [Some y]) = map_option (\<lambda>ys. ys @ [y]) (those xs)" for xs :: "int option list" and y
    by (induction xs) (auto simp: option.map_comp comp_def split: option.splits)
  then have "percentiles places ts = Some (map (\<lambda>(a, b). sort ts ! (length ts * a div b)) places @ [m])"
    using places l assms(1) by (simp add: percentiles_def Let_def get_Some m_def)
  then show ?thesis using places \<open>m \<in> set ts\<close> m by (auto simp: split_beta)
qed

lemma load_queries_eq:
  assumes "\<forall>e \<in> set items. VectorizeFast (fuses tgt) (Request e) \<noteq> Panic"
  shows "load_queries tgt items = Some (usable tgt items)"
proof -
  have "ofold (\<lambda>e queries. (case VectorizeFast (fuses tgt) (Request e) of
          Panic \<Rightarrow> None | Reject \<Rightarrow> Some queries
        | Got q \<Rightarrow> Some (queries @ [(q, ExpectedApproved e)]))) items qs = Some (qs @ usable tgt items)" for qs
    using assms
  proof (induction items arbitrary: qs)
    case (Cons e es)
    then show ?case by (cases "VectorizeFast (fuses tgt) (Request e)") (simp_all add: usable_def)
  qed (simp add: usable_def)
  then show ?thesis by (simp add: load_queries_def)
qed

lemma usable_quantized: "x \<in> set (usable tgt items) \<Longrightarrow> quantized (fst x)"
  by (auto simp: usable_def range_quantized split: parse.splits)

lemma search_all_returns:
  assumes fits: "index_fits tgt K idx" and q: "\<forall>x \<in> set queries. quantized (fst x)" and sh: "scr_shape idx scr"
  shows "\<exists>st scr'. search_all tgt idx queries scr = Some (st, scr') \<and> scr_shape idx scr'"
proof -
  have "\<exists>s. ofold (\<lambda>(q, expected) (st, scratch). do {
         (cnt, scratch) \<leftarrow> FraudCountIVF tgt (to_f32 q) q idx scratch;
         Some (tally (approvedFromCount cnt) expected st, scratch)
       }) queries (st0, scr) = Some s \<and> scr_shape idx (snd s)" for st0 :: "nat \<times> nat"
    using q sh
  proof (induction queries arbitrary: st0 scr)
    case (Cons x xs)
    have "search_ok tgt (fst x) idx" using fits Cons.prems by (simp add: search_ok_def index_fits_def)
    then obtain ids scr' where r: "FraudCountIVF tgt (to_f32 (fst x)) (fst x) idx scr = Some (frauds (unset @ cands (fst x) idx ids), scr')"
      "search_state (fst x) idx ids scr'" using FraudCountIVF_scans [OF _ Cons.prems(2)] by metis
    have "scr_shape idx scr'" using r(2) by (simp add: search_state_def)
    then show ?case
      using Cons.IH [of scr' "tally (approvedFromCount (frauds (unset @ cands (fst x) idx ids))) (snd x) st0"] Cons.prems r(1)
      by (simp add: split_beta)
  qed simp
  then show ?thesis by (force simp: search_all_def)
qed

lemma bench_verify_returns:
  assumes fits: "index_fits tgt K idx" and sh: "scr_shape idx scr"
    and vec: "\<forall>e \<in> set items. VectorizeFast (fuses tgt) (Request e) \<noteq> Panic"
  shows "bench_verify tgt idx items clock scr = None \<longleftrightarrow> usable tgt items = []"
proof -
  define qs where "qs = usable tgt items"
  define ts where "ts = map clock [0..<length qs]"
  have load: "load_queries tgt items = Some qs" unfolding qs_def by (rule load_queries_eq [OF vec])
  have q: "\<forall>x \<in> set qs. quantized (fst x)" using usable_quantized unfolding qs_def by blast
  then have "\<forall>x \<in> set (take 1000 qs). quantized (fst x)" using set_take_subset by fast
  then obtain st1 scr1 where 1: "search_all tgt idx (take 1000 qs) scr = Some (st1, scr1)" "scr_shape idx scr1"
    using search_all_returns [OF fits _ sh] by metis
  obtain st2 scr2 where 2: "search_all tgt idx qs scr1 = Some (st2, scr2)"
    using search_all_returns [OF fits q 1(2)] by metis
  have r: "bench_verify tgt idx items clock scr = map_option (Pair st2) (percentiles [(1, 2), (9, 10), (99, 100), (999, 1000)] ts)"
    unfolding bench_verify_def load Option.bind.simps 1(1) 2 prod.case ts_def map_conv_bind_option comp_def by (rule refl)
  have "percentiles [(1, 2), (9, 10), (99, 100), (999, 1000)] ts = None \<longleftrightarrow> ts = []"
  proof
    assume "ts = []"
    then show "percentiles [(1, 2), (9, 10), (99, 100), (999, 1000)] ts = None" by (simp add: percentiles_def get_def)
  next
    assume none: "percentiles [(1, 2), (9, 10), (99, 100), (999, 1000)] ts = None"
    have "\<forall>p \<in> set [(1, 2), (9, 10), (99, 100), (999, 1000 :: nat)]. fst p < snd p" by simp
    from percentiles_total [OF _ this, of ts] none show "ts = []" by (cases "ts = []") auto
  qed
  then show ?thesis unfolding r qs_def [symmetric] by (simp add: ts_def)
qed

lemma check_index_short: "capacity < 20 \<Longrightarrow> check_index tgt idx items capacity scratch = None"
  by (simp add: check_index_def)

section \<open>Properties\<close>



text \<open>C40. What the per-class sweep measures is what production answers: with the table of the production search, the
  calibration entry point counts, on every well-formed index and query and whatever is left in the
  scratch, the frauds that \<open>FraudCountIVF\<close> counts.\<close>

theorem calibration_replays_production:
  assumes "index_fits tgt K idx" "quantized q" "scratch_fits K scr"
  shows "\<exists>fc scr1 scr2. FraudCountTopNByClass tgt (to_f32 q) q idx scr (map int EscalateNByClass) = Some (fc, scr1) \<and>
    FraudCountIVF tgt (to_f32 q) q idx scr = Some (fc, scr2)"
proof -
  have ok: "search_ok tgt q idx" "scr_shape idx scr"
    using assms by (auto simp: index_fits_def search_ok_def scratch_fits_def scr_shape_def)
  obtain ids scr2 where "FraudCountIVF tgt (to_f32 q) q idx scr = Some (frauds (unset @ cands q idx ids), scr2)"
    using FraudCountIVF_scans [OF ok] by metis
  then show ?thesis using TopNByClass_is_production [OF ok] by auto
qed

theorem calibration_replays_production_witness:
  "\<exists>idx fc scr1 scr2. Build True 64 [] [] 0 empty_centroids [] = Some (Inr idx) \<and>
    FraudCountTopNByClass \<lparr>amd64 = True, fuses = True\<rparr> (to_f32 (replicate 14 7)) (replicate 14 7) idx (new_scratch 64)
      (map int EscalateNByClass) = Some (fc, scr1) \<and>
    FraudCountIVF \<lparr>amd64 = True, fuses = True\<rparr> (to_f32 (replicate 14 7)) (replicate 14 7) idx (new_scratch 64) = Some (fc, scr2)"
proof -
  obtain idx where idx: "Build True 64 [] [] 0 empty_centroids [] = Some (Inr idx)" "index_fits \<lparr>amd64 = True, fuses = True\<rparr> 64 idx"
    using empty_index by blast
  have "quantized (replicate 14 7)" by (simp add: quantized_def)
  from calibration_replays_production [OF idx(2) this new_scratch_fits] idx(1) show ?thesis by simp
qed

end
