(* ===== verification/Spec2Isabelle.thy ===== *)
theory Spec2Isabelle
  imports FdPass SpecialistCodec Startup Calibrate
begin

text \<open>
  A verification of \<open>rinha-de-backend-2026\<close>, a fraud-scoring service written in Go.  A transaction is
  posted as JSON, turned into a vector of fourteen quantised dimensions, and scored by how many of its
  five nearest neighbours among three million labelled references are frauds; below three it is approved.

  \<^bold>\<open>How the program works.\<close>  \<open>cmd/build-index\<close> reads the gzipped reference file (\<open>internal/dataset\<close>), trains
  centroids (\<open>internal/ivf/kmeans.go\<close>), assigns every reference to a cluster, packs the clusters into blocks
  of eight (\<open>internal/ivf/index.go\<close>) and writes the index file.  \<open>cmd/api\<close> maps that file
  (\<open>mmap_linux.go\<close>), warms up and serves connections (\<open>internal/api\<close>): the raw HTTP loop frames requests, the
  handler sheds load and calls the vectoriser (\<open>internal/vector\<close>) and the search (\<open>internal/search\<close>), which
  prunes with bounds computed by the kernels of \<open>internal/kernel\<close> and keeps the best five.  \<open>cmd/lb\<close>
  accepts clients and passes their descriptors to the servers (\<open>internal/fdpass\<close>).
  \<open>internal/specialist\<close> is a second, tree-shaped index.  \<open>cmd/calibrate\<close> derives the thresholds of the
  search from a test file; three more tools replay that file.

  \<^bold>\<open>The theories\<close>, in the order of their imports:
    \<^item> \<open>Prelude\<close>: Go integers as words, 64-bit wrap-around, checked slice access, folds that can panic.
    \<^item> \<open>GoFloat\<close>, \<open>DistError\<close>: IEEE arithmetic and the rounding analysis of distances.
    \<^item> \<open>TopFive\<close>: \<open>search/top5.go\<close>, its copy in \<open>specialist/search.go\<close> and \<open>bruteInsert\<close>, three
      instances of the interface \<open>top_store\<close>.
    \<^item> \<open>Kernel\<close>: \<open>internal/kernel\<close>, portable and AVX2, instances of \<open>scan_kernel\<close>; \<open>block_search\<close> joins a
      kernel with a store.
    \<^item> \<open>GoSort\<close>: \<open>sort.SliceStable\<close> with a comparison that may read the slice being sorted.
    \<^item> \<open>IvfIndex\<close>, \<open>Centroid\<close>, \<open>IvfSearch\<close>, \<open>BruteForce\<close>: the cluster index, the choice of clusters, the
      searches of \<open>search/ivf.go\<close> and \<open>fast.go\<close>, and \<open>search/bruteforce.go\<close>.
    \<^item> \<open>Quantize\<close>, \<open>DatasetScan\<close>, \<open>Vectorize\<close>: quantisation, the loader of \<open>dataset.go\<close>, the body scanner of
      \<open>vector/fast.go\<close>.
    \<^item> \<open>RawHttp\<close>, \<open>Server\<close>: \<open>api/rawhttp.go\<close> with the interface \<open>http_router\<close>, and \<open>api/server.go\<close>, which
      provides it.
    \<^item> \<open>IvfCodec\<close>: the index file, written, and read in two ways, both instances of \<open>index_reader\<close>.
    \<^item> \<open>Specialist\<close>, \<open>SpecialistSearch\<close>, \<open>SpecialistCodec\<close>: the second index, its search, its file.
    \<^item> \<open>GoRand\<close>, \<open>KMeans\<close>: the generator of \<open>math/rand/v2\<close> and the trainer.
    \<^item> \<open>FdPass\<close>: \<open>cmd/lb\<close>, \<open>fdpass/recv_linux.go\<close>, \<open>ServeFDChannel\<close> and the accept loop of \<open>ListenRaw\<close>.
    \<^item> \<open>Calibrate\<close>: \<open>cmd/calibrate\<close>, \<open>cmd/bench-verify\<close>, \<open>cmd/bench-latency\<close>, \<open>cmd/check-index\<close>.
    \<^item> \<open>Startup\<close>: \<open>cmd/build-index\<close>, \<open>api/warmup.go\<close>, the start of \<open>cmd/api\<close>.
    \<^item> this theory: the properties of the search as a whole, and sample data for their witnesses.

  \<^bold>\<open>Conventions.\<close>  A definition has the name of its Go function or type; a loop body or a block that is used on
  its own has a name of its own.  \<open>None\<close> is a panic or a loop that does not end, \<open>Inl\<close> an error return.
  Mutated arguments are returned updated.  \<open>tgt\<close> is the build target: whether the assembly is used, and
  whether the compiler fuses multiply and add; the properties hold for all four.  The constant \<open>ivf.K\<close> is an
  argument.

  \<^bold>\<open>What is shown.\<close>
    \<^item> From the file to the answer: a reference file goes through \<open>build-index\<close>, the index file and the start
      of the server, and the full sweep of that index counts what the brute force counts, ties for the
      fifth place apart (\<open>Startup.end_to_end\<close>).
    \<^item> The searches: every pruning step is a no-op on a well-formed index, so a search is determined by the
      clusters it scans; the production search is total, scans the clusters it claims, and is exact under a
      condition that is stated.  The tree search is exact whenever no references tie for the fifth place, and
      its stack never overflows.
    \<^item> Numbers: bounds of the rounding errors of scores, kernels, radii, parsed decimals and quantisation, and
      that the safety margins of the code cover them.
    \<^item> Round trips: loader, vectoriser, both index files.
    \<^item> The server: for requests sent one at a time, or in bursts that fit the first buffer, the connection loop
      refines a specification that answers a list of requests, whatever the chunks; every response is framed;
      slots and buffers are bounded; a transaction posted to a ready handler with a free slot is answered with
      the count of the search.  Balancer and servers: every connection handed over is taken once, and adopted
      unless the kernel refuses its descriptor.
    \<^item> Training ends, on a generator proved to have full period, and each Lloyd iteration assigns to a nearest
      centroid and moves centroids to the means.  Calibration leaves no more errors than the exact
      neighbours have, on a test file without panics and ties.
    \<^item> Where the code fails: panics on malformed bodies, lengths and files, misread numbers, descriptors that
      are lost or spin.  Some of these are properties, others lemmas of their theory.

  \<^bold>\<open>Bounds.\<close>  Distances are at most \<open>14 * 65535\<^sup>2\<close>, below the \<open>2 ^ 62\<close> of an empty place.  The margin of the
  kernels, \<open>65536\<close>, exceeds the rounding of fourteen squares.  Trees of fewer than \<open>2 ^ 32 div 112\<close> references
  have a height of at most \<open>25\<close>, which the stack of \<open>64\<close> holds.  The generator has period \<open>2 ^ 128\<close>.  No
  definition runs on fuel (a counter so named is the bound of a \<open>for\<close> loop): loops that may not end are partial functions, and that they end is proved
  (\<open>kd_loop\<close>, \<open>uint64n_loop\<close>, \<open>fresh_id\<close>); the argument \<open>w\<close> of the connection loop is the number of
  responses the peer accepts before it closes.  Round robin holds for \<open>2 ^ 32\<close> connections, after which the
  counter wraps.

  \<^bold>\<open>Not modelled.\<close>  System calls: opening, mapping, advising and unmapping files, creating and tuning sockets;
  what they return is an argument where the code looks at it.  Decompression and the decoding of the test file's
  JSON are library code whose result is an argument.  Garbage-collector and scheduler settings, logging and the
  clock do not change what is computed; measured times are arguments.  The memory model of goroutines is not:
  the shedder and the receivers are step relations over atomic steps.  Signed zeros and NaN payloads have no
  counterpart, as \<open>GoFloat\<close> explains.
\<close>

section \<open>Sample data\<close>

text \<open>A data set of six vectors in 64 clusters, and the buffers of one request, for the witnesses.\<close>

definition sample_vectors :: "i16 list" where
  "sample_vectors = concat (map (\<lambda>i. replicate 14 (word_of_int (100 * i))) [1, 2, 3, 4, 5, 6])"

definition sample_labels :: "u8 list" where
  "sample_labels = [1, 0, 1, 1, 0, 0]"

definition sample_assign :: "u16 list" where
  "sample_assign = [0, 5, 0, 63, 5, 5]"

definition sample_centroids :: "fl list list" where
  "sample_centroids = replicate 64 (replicate 14 (Fin 250))"

definition sample_query :: "i16 list" where
  "sample_query = replicate 14 20"

definition sample_target :: target where
  "sample_target = \<lparr>amd64 = True, fuses = False\<rparr>"

lemma sample_build_input:
  "build_input 64 sample_labels sample_vectors 6 sample_centroids sample_assign"
proof -
  have "\<forall>x \<in> set sample_vectors. \<bar>sint x\<bar> \<le> 10000" by (simp add: sample_vectors_def)
  moreover have "\<forall>a \<in> set sample_assign. unat a < 64" by (simp add: sample_assign_def)
  moreover have "\<forall>l \<in> set sample_labels. l \<le> 1" by (simp add: sample_labels_def)
  ultimately show ?thesis
    by (simp add: build_input_def sample_centroids_def centroid_ok_def)
      (simp add: sample_vectors_def sample_assign_def sample_labels_def)
qed

lemma sample_query_quantized: "quantized sample_query"
  by (simp add: quantized_def sample_query_def)

lemma sample_shape:
  "length (CentroidDists (new_scratch 64)) = 64" "length (Picked (new_scratch 64)) = MaxNProbe"
  "64 \<le> 64 * length (Scanned (new_scratch 64))"
  by (simp_all add: new_scratch_def)

lemma sample_no_tie: "no_tie (dataset_cands sample_query (labelled sample_vectors sample_labels 6))"
  by code_simp

section \<open>The search\<close>

text \<open>C2. An index built from a data set is searched exactly: the full sweep
  (\<open>FraudCountFull\<close>) and the brute force return the same fraud count, on every build
  target, whenever no two references compete for the fifth place.\<close>

theorem full_search_matches_brute_force:
  assumes "build_input K src vectors n centroids assign" and "amd64 tgt \<longrightarrow> K mod 16 = 0" and "quantized q"
    and "length (CentroidDists scr) = K" "length (Picked scr) = MaxNProbe" "K \<le> 64 * length (Scanned scr)"
    and "no_tie (dataset_cands q (labelled vectors src n))"
  shows "\<exists>idx fc scr'. Build fused K src vectors n centroids assign = Some (Inr idx) \<and>
    FraudCountFull K tgt (to_f32 q) q idx scr = Some (fc, scr') \<and>
    FraudCountBrute q \<lparr>Vectors = vectors, DLabels = src, Count = n\<rparr> = Some (int (unat fc))"
proof -
  obtain idx where idx: "Build fused K src vectors n centroids assign = Some (Inr idx)" "wf_index idx"
    "unat (ixK idx) = K" "mset (members idx) = mset (labelled vectors src n)"
    using Build_wf [OF assms(1)] by blast
  have ok: "search_ok tgt q idx" "scr_shape idx scr"
    using assms idx by (auto simp: search_ok_def scr_shape_def build_input_def)
  from FraudCountFull_eq [OF ok] obtain scr' cs where
    "FraudCountFull K tgt (to_f32 q) q idx scr = Some (frauds (unset @ cs), scr')"
    "mset cs = mset (cands q idx [0..<unat (ixK idx)])" unfolding idx(3) by blast
  moreover from this(2) have "frauds (unset @ cs) = frauds (dataset_cands q (labelled vectors src n))"
    using frauds_exact idx(2,4) assms(3,7) by blast
  moreover have "dataset_ok \<lparr>Vectors = vectors, DLabels = src, Count = n\<rparr>"
    using assms(1) by (auto simp: build_input_def dataset_ok_def)
  ultimately show ?thesis using idx(1) FraudCountBrute_eq by fastforce
qed

theorem full_search_matches_brute_force_witness:
  "\<exists>idx fc scr'. Build False 64 sample_labels sample_vectors 6 sample_centroids sample_assign = Some (Inr idx) \<and>
    FraudCountFull 64 sample_target (to_f32 sample_query) sample_query idx (new_scratch 64) = Some (fc, scr') \<and>
    FraudCountBrute sample_query \<lparr>Vectors = sample_vectors, DLabels = sample_labels, Count = 6\<rparr> = Some (int (unat fc))"
  by (rule full_search_matches_brute_force [OF sample_build_input _ sample_query_quantized sample_shape sample_no_tie]) simp

text \<open>C6. With at least five references the five distances the full sweep ends with are the
  five smallest exact distances, ties or not.\<close>

theorem full_search_distances:
  assumes "build_input K src vectors n centroids assign" and "amd64 tgt \<longrightarrow> K mod 16 = 0" and "quantized q"
    and "length (CentroidDists scr) = K" "length (Picked scr) = MaxNProbe" "K \<le> 64 * length (Scanned scr)"
    and "5 \<le> n"
  shows "\<exists>idx fc scr'. Build fused K src vectors n centroids assign = Some (Inr idx) \<and>
    FraudCountFull K tgt (to_f32 q) q idx scr = Some (fc, scr') \<and>
    map fst (ents (Top scr')) = take 5 (sort (map (\<lambda>i. sq_dist q (vec_of vectors i)) [0..<n]))"
proof -
  obtain idx where idx: "Build fused K src vectors n centroids assign = Some (Inr idx)" "wf_index idx"
    "unat (ixK idx) = K" "mset (members idx) = mset (labelled vectors src n)"
    using Build_wf [OF assms(1)] by blast
  have ok: "search_ok tgt q idx" "scr_shape idx scr"
    using assms idx by (auto simp: search_ok_def scr_shape_def build_input_def)
  from FraudCountFull_eq [OF ok] obtain scr' cs where
    "FraudCountFull K tgt (to_f32 q) q idx scr = Some (frauds (unset @ cs), scr')" "ents (Top scr') = knn5 (unset @ cs)"
    "mset cs = mset (cands q idx [0..<unat (ixK idx)])" unfolding idx(3) by blast
  moreover from this(3) have "map fst (knn5 (unset @ cs)) = take 5 (sort (map fst (dataset_cands q (labelled vectors src n))))"
    using dists_exact idx(2,4) assms(3,7) by (auto simp: labelled_def)
  moreover have "map fst (dataset_cands q (labelled vectors src n)) = map (\<lambda>i. sq_dist q (vec_of vectors i)) [0..<n]"
    by (simp add: dataset_cands_def labelled_def)
  ultimately show ?thesis using idx(1) by metis
qed

theorem full_search_distances_witness:
  "\<exists>idx fc scr'. Build False 64 sample_labels sample_vectors 6 sample_centroids sample_assign = Some (Inr idx) \<and>
    FraudCountFull 64 sample_target (to_f32 sample_query) sample_query idx (new_scratch 64) = Some (fc, scr') \<and>
    map fst (ents (Top scr')) = take 5 (sort (map (\<lambda>i. sq_dist sample_query (vec_of sample_vectors i)) [0..<6]))"
  by (rule full_search_distances [OF sample_build_input _ sample_query_quantized sample_shape]) simp_all

text \<open>C3. The production search (\<open>FraudCountIVF\<close>) never panics on a built index: it returns a count
  of at most five and leaves the scratch buffers fit for the next request.\<close>

theorem production_search_total:
  assumes "build_input K src vectors n centroids assign" and "amd64 tgt \<longrightarrow> K mod 16 = 0" and "quantized q"
    and "length (CentroidDists scr) = K" "length (Picked scr) = MaxNProbe" "K \<le> 64 * length (Scanned scr)"
  shows "\<exists>idx fc scr'. Build fused K src vectors n centroids assign = Some (Inr idx) \<and>
    FraudCountIVF tgt (to_f32 q) q idx scr = Some (fc, scr') \<and> unat fc \<le> 5 \<and> scr_shape idx scr'"
proof -
  obtain idx where idx: "Build fused K src vectors n centroids assign = Some (Inr idx)" "wf_index idx" "unat (ixK idx) = K"
    using Build_wf [OF assms(1)] by blast
  have ok: "search_ok tgt q idx" "scr_shape idx scr"
    using assms idx by (auto simp: search_ok_def scr_shape_def build_input_def)
  obtain ids scr' where "FraudCountIVF tgt (to_f32 q) q idx scr = Some (frauds (unset @ cands q idx ids), scr')"
    "search_state q idx ids scr'" by (rule FraudCountIVF_scans [OF ok])
  moreover from this(2) have "unat (frauds (unset @ cands q idx ids)) \<le> 5"
    by (intro frauds_le_5 cands_labels [OF idx(2) assms(3)]) (simp add: search_state_def)
  ultimately show ?thesis using idx(1) by (auto simp: search_state_def)
qed

theorem production_search_total_witness:
  "\<exists>idx fc scr'. Build False 64 sample_labels sample_vectors 6 sample_centroids sample_assign = Some (Inr idx) \<and>
    FraudCountIVF sample_target (to_f32 sample_query) sample_query idx (new_scratch 64) = Some (fc, scr') \<and>
    unat fc \<le> 5 \<and> scr_shape idx scr'"
  by (rule production_search_total [OF sample_build_input _ sample_query_quantized sample_shape]) simp

text \<open>C4. Which clusters the production search scans: the eight with the nearest centroids, and
  when the gate asks for it the next nearest of the rest, as many as \<open>EscalateNByClass\<close> says for
  the count so far.  The count is that of the five nearest references among them.\<close>

theorem production_search_scans:
  assumes "search_ok tgt q idx" and "scr_shape idx scr"
  shows "\<exists>scr' ids. let K = unat (ixK idx); d = scores tgt q idx; fc = frauds (unset @ cands q idx ids);
        worst = fst (knn5 (unset @ cands q idx ids) ! 4) in
     nearest d [0..<K] 8 ids \<and>
     (if needs_sweep fc worst = Some True then
        \<exists>ids'. nearest d (filter (\<lambda>c. c \<notin> set ids) [0..<K]) (EscalateNByClass ! unat fc) ids' \<and>
          FraudCountIVF tgt (to_f32 q) q idx scr = Some (frauds (unset @ cands q idx (ids @ ids')), scr') \<and>
          search_state q idx (ids @ ids') scr'
      else FraudCountIVF tgt (to_f32 q) q idx scr = Some (fc, scr') \<and> search_state q idx ids scr')"
  using assms by (rule FraudCountIVF_eq)

definition sample_index :: IVFIndex where
  "sample_index = (case Build False 64 sample_labels sample_vectors 6 sample_centroids sample_assign of
     Some (Inr idx) \<Rightarrow> idx | _ \<Rightarrow> undefined)"

lemma sample_index_ok: "wf_index sample_index" "search_ok sample_target sample_query sample_index"
    "scr_shape sample_index (new_scratch 64)" "unat (ixK sample_index) = 64"
    "mset (members sample_index) = mset (labelled sample_vectors sample_labels 6)"
proof -
  obtain idx where idx: "Build False 64 sample_labels sample_vectors 6 sample_centroids sample_assign = Some (Inr idx)"
    "wf_index idx" "unat (ixK idx) = 64" "mset (members idx) = mset (labelled sample_vectors sample_labels 6)"
    using Build_wf [OF sample_build_input] by blast
  then have eq: "sample_index = idx" by (simp add: sample_index_def)
  show "wf_index sample_index" "unat (ixK sample_index) = 64"
    "mset (members sample_index) = mset (labelled sample_vectors sample_labels 6)" using idx eq by auto
  then show "search_ok sample_target sample_query sample_index" "scr_shape sample_index (new_scratch 64)"
    using sample_query_quantized sample_shape by (simp_all add: search_ok_def scr_shape_def)
qed

theorem production_search_scans_witness:
  "\<exists>scr' ids. let K = unat (ixK sample_index); d = scores sample_target sample_query sample_index;
        fc = frauds (unset @ cands sample_query sample_index ids);
        worst = fst (knn5 (unset @ cands sample_query sample_index ids) ! 4) in
     nearest d [0..<K] 8 ids \<and>
     (if needs_sweep fc worst = Some True then
        \<exists>ids'. nearest d (filter (\<lambda>c. c \<notin> set ids) [0..<K]) (EscalateNByClass ! unat fc) ids' \<and>
          FraudCountIVF sample_target (to_f32 sample_query) sample_query sample_index (new_scratch 64) =
            Some (frauds (unset @ cands sample_query sample_index (ids @ ids')), scr') \<and>
          search_state sample_query sample_index (ids @ ids') scr'
      else FraudCountIVF sample_target (to_f32 sample_query) sample_query sample_index (new_scratch 64) = Some (fc, scr') \<and>
        search_state sample_query sample_index ids scr')"
  by (rule production_search_scans [OF sample_index_ok(2,3)])

text \<open>C5. The production search is exact whenever the clusters it left out hold nothing nearer than
  its fifth place and no two references compete for that place: the count is then the brute-force count.\<close>

theorem production_search_exact:
  assumes "search_ok tgt q idx" and "scr_shape idx scr" and "mset (members idx) = mset (labelled (Vectors ds) (DLabels ds) (Count ds))"
    and "dataset_ok ds" and "no_tie (dataset_cands q (labelled (Vectors ds) (DLabels ds) (Count ds)))"
    and "FraudCountIVF tgt (to_f32 q) q idx scr = Some (fc, scr')"
    and "\<And>c e. c < unat (ixK idx) \<Longrightarrow> \<not> scanned_bit (Scanned scr') c \<Longrightarrow> e \<in> set (cluster_cands q idx c) \<Longrightarrow>
      WorstI64 (Top scr') \<le> fst e"
  shows "FraudCountBrute q ds = Some (int (unat fc))"
proof -
  have ok: "wf_index idx" "quantized q" using assms(1) by (auto simp: search_ok_def)
  obtain ids where r: "fc = frauds (unset @ cands q idx ids)" "search_state q idx ids scr'" "distinct ids"
    using FraudCountIVF_scans [OF assms(1,2)] assms(6) by (metis option.inject prod.inject)
  have "\<exists>cs. mset cs = mset (cands q idx [0..<unat (ixK idx)]) \<and> frauds (unset @ cs) = frauds (unset @ cands q idx ids)"
    by (rule search_stops_exactly [OF ok r(2,3)]) (rule assms(7))
  then obtain cs where "mset cs = mset (cands q idx [0..<unat (ixK idx)])" "frauds (unset @ cs) = fc"
    using r(1) by blast
  then have "fc = frauds (dataset_cands q (labelled (Vectors ds) (DLabels ds) (Count ds)))"
    using frauds_exact [OF ok _ assms(3,5)] by metis
  then show ?thesis using FraudCountBrute_eq [OF assms(4)] by simp
qed

definition small_index :: IVFIndex where
  "small_index = (case Build False 8 sample_labels sample_vectors 6 sample_centroids [0, 5, 0, 7, 5, 5] of
     Some (Inr idx) \<Rightarrow> idx | _ \<Rightarrow> undefined)"

definition small_target :: target where
  "small_target = \<lparr>amd64 = False, fuses = True\<rparr>"

lemma small_index_ok: "wf_index small_index" "unat (ixK small_index) = 8"
    "mset (members small_index) = mset (labelled sample_vectors sample_labels 6)"
    "search_ok small_target sample_query small_index" "scr_shape small_index ((new_scratch 64)\<lparr>CentroidDists := replicate 8 NaN\<rparr>)"
proof -
  have "build_input 8 sample_labels sample_vectors 6 sample_centroids [0, 5, 0, 7, 5, 5]"
    using sample_build_input by (auto simp: build_input_def sample_centroids_def centroid_ok_def)
  then obtain idx where idx: "Build False 8 sample_labels sample_vectors 6 sample_centroids [0, 5, 0, 7, 5, 5] = Some (Inr idx)"
    "wf_index idx" "unat (ixK idx) = 8" "mset (members idx) = mset (labelled sample_vectors sample_labels 6)"
    using Build_wf by blast
  then have eq: "small_index = idx" by (simp add: small_index_def)
  show "wf_index small_index" "unat (ixK small_index) = 8"
    "mset (members small_index) = mset (labelled sample_vectors sample_labels 6)" using idx eq by auto
  then show "search_ok small_target sample_query small_index"
    "scr_shape small_index ((new_scratch 64)\<lparr>CentroidDists := replicate 8 NaN\<rparr>)"
    using sample_query_quantized by (simp_all add: search_ok_def scr_shape_def new_scratch_def small_target_def)
qed

lemma nearest_all:
  assumes "nearest d [0..<K] n ids" "K \<le> n"
  shows "set ids = {..<K}"
proof (rule card_subset_eq)
  show "set ids \<subseteq> {..<K}" using assms(1) by (auto simp: nearest_def)
  show "card (set ids) = card {..<K}" using assms by (simp add: nearest_def distinct_card)
qed simp

lemma small_search_scans_all:
  \<comment> \<open>with eight clusters the fast tier leaves none out\<close>
  assumes "search_ok tgt q idx" "scr_shape idx scr" "unat (ixK idx) = 8"
  shows "\<exists>ids scr'. FraudCountIVF tgt (to_f32 q) q idx scr = Some (frauds (unset @ cands q idx ids), scr') \<and>
    search_state q idx ids scr' \<and> set ids = {..<8}"
proof -
  obtain scr' ids where n: "nearest (scores tgt q idx) [0..<8] 8 ids"
    and r: "let fc = frauds (unset @ cands q idx ids); worst = fst (knn5 (unset @ cands q idx ids) ! 4) in
     (if needs_sweep fc worst = Some True then
        \<exists>ids'. nearest (scores tgt q idx) (filter (\<lambda>c. c \<notin> set ids) [0..<8]) (EscalateNByClass ! unat fc) ids' \<and>
          FraudCountIVF tgt (to_f32 q) q idx scr = Some (frauds (unset @ cands q idx (ids @ ids')), scr') \<and>
          search_state q idx (ids @ ids') scr'
      else FraudCountIVF tgt (to_f32 q) q idx scr = Some (fc, scr') \<and> search_state q idx ids scr')"
    using FraudCountIVF_eq [OF assms(1,2)] unfolding assms(3) Let_def by blast
  have all: "set ids = {..<8}" by (rule nearest_all [OF n]) simp
  show ?thesis
  proof (cases "needs_sweep (frauds (unset @ cands q idx ids)) (fst (knn5 (unset @ cands q idx ids) ! 4)) = Some True")
    case True
    then obtain ids' where "nearest (scores tgt q idx) (filter (\<lambda>c. c \<notin> set ids) [0..<8])
          (EscalateNByClass ! unat (frauds (unset @ cands q idx ids))) ids'"
        "FraudCountIVF tgt (to_f32 q) q idx scr = Some (frauds (unset @ cands q idx (ids @ ids')), scr')"
        "search_state q idx (ids @ ids') scr'" using r unfolding Let_def by auto
    moreover from this(1) have "set (ids @ ids') = {..<8}" using all by (auto simp: nearest_def)
    ultimately show ?thesis by blast
  next
    case False
    then show ?thesis using r all unfolding Let_def by auto
  qed
qed

theorem production_search_exact_witness:
  "\<exists>fc scr'. FraudCountIVF small_target (to_f32 sample_query) sample_query small_index
       ((new_scratch 64)\<lparr>CentroidDists := replicate 8 NaN\<rparr>) = Some (fc, scr') \<and>
     FraudCountBrute sample_query \<lparr>Vectors = sample_vectors, DLabels = sample_labels, Count = 6\<rparr> = Some (int (unat fc))"
proof -
  let ?ds = "\<lparr>Vectors = sample_vectors, DLabels = sample_labels, Count = 6\<rparr>"
  note ok = small_index_ok(4,5)
  obtain ids scr' where r: "FraudCountIVF small_target (to_f32 sample_query) sample_query small_index
       ((new_scratch 64)\<lparr>CentroidDists := replicate 8 NaN\<rparr>) = Some (frauds (unset @ cands sample_query small_index ids), scr')"
    "search_state sample_query small_index ids scr'" and all: "set ids = {..<8}"
    using small_search_scans_all [OF ok small_index_ok(2)] by blast
  have "FraudCountBrute sample_query ?ds = Some (int (unat (frauds (unset @ cands sample_query small_index ids))))"
  proof (rule production_search_exact [OF ok _ _ _ r(1)])
    show "mset (members small_index) = mset (labelled (Vectors ?ds) (DLabels ?ds) (Count ?ds))"
      using small_index_ok(3) by simp
    show "dataset_ok ?ds" using sample_build_input by (auto simp: build_input_def dataset_ok_def)
    show "no_tie (dataset_cands sample_query (labelled (Vectors ?ds) (DLabels ?ds) (Count ?ds)))" using sample_no_tie by simp
    fix c e assume "c < unat (ixK small_index)" "\<not> scanned_bit (Scanned scr') c"
    then show "WorstI64 (Top scr') \<le> fst e" using r(2) all small_index_ok(2) by (auto simp: search_state_def)
  qed
  then show ?thesis using r(1) by blast
qed

section \<open>The parts of the search\<close>

text \<open>C16. \<open>Build\<close> succeeds on every well-formed input and its index holds exactly the labelled
  vectors it was given, in blocks padded with phantom lanes, with bounding boxes and radii that
  cover every cluster.\<close>

theorem Build_represents:
  assumes "build_input K src vectors n centroids assign"
  shows "\<exists>idx. Build fused K src vectors n centroids assign = Some (Inr idx) \<and> wf_index idx \<and>
    unat (ixK idx) = K \<and> mset (members idx) = mset (labelled vectors src n)"
  using assms by (rule Build_wf)

theorem Build_represents_witness:
  "\<exists>idx. Build True 64 sample_labels sample_vectors 6 sample_centroids sample_assign = Some (Inr idx) \<and> wf_index idx \<and>
    unat (ixK idx) = 64 \<and> mset (members idx) = mset (labelled sample_vectors sample_labels 6)"
  by (rule Build_represents [OF sample_build_input])

text \<open>C12. The filters of \<open>scanCluster\<close> (triangle inequality on the radius, bounding box, block kernel,
  lane test) prune nothing that matters: a scan leaves the top five as if every slot of the
  cluster had been offered to \<open>InsertI64\<close> with its exact distance.\<close>

theorem scanCluster_offers_all:
  assumes "wf_index idx" and "c < unat (ixK idx)" and "quantized qi" and "scr_ok scr"
    and "c < length (CentroidDists scr)"
    and "CentroidDists scr ! c = score fused (to_f32 qi) (Centroids idx) (unat (ixK idx)) [0..<14] c"
  shows "\<exists>scr'. scanCluster tgt c (to_f32 qi) qi idx scr = Some scr' \<and> same_frame scr scr' \<and>
    Top scr' = fold (\<lambda>(d, l) t. InsertI64 t d l)
      (map (\<lambda>p. (sq_dist qi (slot_vec (BlockData idx) p), Labels idx ! p)) (cslots idx c)) (Top scr)"
  using scanCluster_eq [OF assms, of tgt] by (simp add: search_top.insert_all_def cluster_cands_def)

lemma scored_scratch:
  "scr_ok \<lparr>CentroidDists = scores sample_target sample_query sample_index, Picked = [], Scanned = [], Top = Reset new_Top5, BlockSum = []\<rparr>"
  by (rule scr_ok_Reset) simp

theorem scanCluster_offers_all_witness:
  "\<exists>scr'. scanCluster sample_target 5 (to_f32 sample_query) sample_query sample_index
      \<lparr>CentroidDists = scores sample_target sample_query sample_index, Picked = [], Scanned = [], Top = Reset new_Top5, BlockSum = []\<rparr> = Some scr' \<and>
    same_frame \<lparr>CentroidDists = scores sample_target sample_query sample_index, Picked = [], Scanned = [], Top = Reset new_Top5, BlockSum = []\<rparr> scr' \<and>
    Top scr' = fold (\<lambda>(d, l) t. InsertI64 t d l)
      (map (\<lambda>p. (sq_dist sample_query (slot_vec (BlockData sample_index) p), Labels sample_index ! p)) (cslots sample_index 5))
      (Reset new_Top5)"
  using scanCluster_offers_all [OF sample_index_ok(1) _ sample_query_quantized scored_scratch, of 5 True sample_target]
  by (simp add: sample_index_ok(4) scores_def sample_target_def)

text \<open>C13. The block kernel is sound on every target: a lane it reports dead, or whose sum is not below
  the threshold, is at least as far as the fifth place.  The rounding of the sums stays within
  the margin \<open>kernelSafety\<close>.\<close>

theorem kernel_sound:
  assumes "length qi = 14" and "w \<le> 2 ^ 62" and "lane < 8"
    and "ScanBlock8AVX2 tgt (to_f32 qi) block (worst32 w) = (alive, accs)"
    and "alive \<longrightarrow> fle (worst32 w) (accs ! lane)"
  shows "w \<le> exactI64Dist qi block lane"
  using assms build_kernel.dead_block [of qi w lane tgt block accs] build_kernel.dead_lane [of qi w lane tgt block accs]
  by (cases alive) (auto simp: exactI64Dist_eq)

lemma asm_dim_uniform:
  assumes "d < 14"
  shows "asm_dim (replicate 14 (Fin 10000)) (replicate 112 0) d (replicate 8 s) = replicate 8 (fma F32 (Fin 10000) (Fin 10000) s)"
proof -
  have "fsub F32 (Fin 10000) (fl_of_int F32 0) = Fin 10000" by code_simp
  then have "block_diff (replicate 14 (Fin 10000)) (replicate 112 0) d lane = Fin 10000" if "lane < 8" for lane
    using assms that by (simp add: block_diff_def)
  then show ?thesis by (simp add: asm_dim_def upt_rec Let_def eval_nat_numeral)
qed
lemma uniform_sums: "fma F32 (Fin 10000) (Fin 10000) (Fin 0) = Fin 100000000" "fma F32 (Fin 10000) (Fin 10000) (Fin 100000000) = Fin 200000000"
 "fma F32 (Fin 10000) (Fin 10000) (Fin 200000000) = Fin 300000000" "fma F32 (Fin 10000) (Fin 10000) (Fin 300000000) = Fin 400000000" 
  "fadd F32 (Fin 400000000) (Fin 400000000) = Fin 800000000"
  by code_simp+
lemma sample_dead_block:
  "ScanBlock8AVX2 sample_target (to_f32 (replicate 14 10000)) (replicate 112 0) (worst32 5000000) = (False, replicate 8 (Fin 800000000))"
proof -
  have 1: "to_f32 (replicate 14 10000) = replicate 14 (Fin 10000)" "worst32 5000000 = Fin 5065536" by code_simp+
  have 2: "fold (asm_dim (replicate 14 (Fin 10000)) (replicate 112 0)) [0, 2, 4, 6] (replicate 8 (Fin 0)) = replicate 8 (Fin 400000000)"
    "fold (asm_dim (replicate 14 (Fin 10000)) (replicate 112 0)) [1, 3, 5, 7] (replicate 8 (Fin 0)) = replicate 8 (Fin 400000000)"
    by (simp_all only: fold_simps comp_def id_def asm_dim_uniform uniform_sums less_numeral_simps zero_less_numeral one_less_numeral_iff semiring_norm simp_thms)
  have 3: "asm_merge (replicate 8 (Fin 400000000)) (replicate 8 (Fin 400000000)) = replicate 8 (Fin 800000000)"
    unfolding asm_merge_def by (rule nth_equalityI) (auto simp: uniform_sums(5) simp del: fadd.simps)
  show ?thesis unfolding 1 ScanBlock8AVX2_def ScanBlock8_asm_def Let_def 2 3 by (simp add: sample_target_def any_alive_def eval_nat_numeral)
qed

theorem kernel_sound_witness:
  "ScanBlock8AVX2 sample_target (to_f32 (replicate 14 10000)) (replicate 112 0) (worst32 5000000) = (False, replicate 8 (Fin 800000000)) \<and>
    5000000 \<le> exactI64Dist (replicate 14 10000) (replicate 112 0) 3"
  using sample_dead_block kernel_sound [OF _ _ _ sample_dead_block, of 3] by simp

text \<open>C17. \<open>PickNextNUnscanned\<close> writes the \<open>n\<close> unmarked clusters with the smallest scores, nearest first,
  and \<open>^uint16(0)\<close> into the places that are left: the heap of the code is a correct selection.\<close>

theorem next_unscanned_are_nearest:
  assumes "finite_scores dists" and "length dists \<le> 64 * length scanned" and "n \<le> MaxNProbe" and "n \<le> length picked"
  shows "\<exists>ids. PickNextNUnscanned dists scanned n picked =
      Some (map of_nat ids @ replicate (n - length ids) NOID @ drop n picked) \<and>
    nearest dists (unscanned scanned (length dists)) n ids"
  using assms by (rule PickNextNUnscanned_nearest)

theorem next_unscanned_are_nearest_witness:
  "\<exists>ids. PickNextNUnscanned [Fin 3, Fin 1, Fin 2, Fin 7, Fin 0] [18] 4 [9, 9, 9, 9, 9] =
      Some (map of_nat ids @ replicate (4 - length ids) NOID @ [9]) \<and>
    nearest [Fin 3, Fin 1, Fin 2, Fin 7, Fin 0] [0, 2, 3] 4 ids"
proof -
  have len: "length [Fin 3, Fin 1, Fin 2, Fin 7, Fin 0] = 5" "unscanned [18] 5 = [0, 2, 3]" by code_simp+
  show ?thesis
    using next_unscanned_are_nearest [of "[Fin 3, Fin 1, Fin 2, Fin 7, Fin 0]" "[18]" 4 "[9, 9, 9, 9, 9]"]
    unfolding len by (simp add: finite_scores_def MaxNProbe_def)
qed

text \<open>C18. \<open>PickTopNCentroids\<close> writes the \<open>n\<close> clusters with the smallest scores, nearest first, on every
  target and for every \<open>n\<close> (for \<open>n = 1\<close> the SIMD or scalar minimum search).\<close>

theorem top_n_are_nearest:
  assumes "scores_ok dists" and "dists \<noteq> []" "length dists \<le> 65535" and "n \<le> length picked"
  shows "\<exists>ids. PickTopNCentroids tgt dists n picked =
      Some (map of_nat ids @ replicate (n - length ids) NOID @ drop n picked) \<and>
    nearest dists [0..<length dists] n ids"
  using assms by (rule PickTopNCentroids_nearest)

theorem top_n_are_nearest_witness:
  "\<exists>ids. PickTopNCentroids sample_target [Fin 3, Fin 1, Fin 2] 2 [7, 7] =
      Some (map of_nat ids @ replicate (2 - length ids) NOID) \<and> nearest [Fin 3, Fin 1, Fin 2] [0..<3] 2 ids"
  using top_n_are_nearest [of "[Fin 3, Fin 1, Fin 2]" 2 "[7, 7]" sample_target]
  by (simp add: scores_ok_def numeral_2_eq_2 numeral_3_eq_3)

text \<open>The minimum searches return a cluster with the smallest score, the assembly one included;
  the scalar one returns the first such cluster.\<close>

theorem argmin_minimal:
  assumes "scores_ok dists" and "dists \<noteq> []"
  shows "\<exists>r. pickArgminFast tgt dists = Some r \<and>
    (\<exists>i < length dists. r = of_nat i \<and> (\<forall>j < length dists. fval (dists ! i) \<le> fval (dists ! j)))"
  using pickArgminFast_ok [OF assms] by (simp add: argmin_ok_def)

theorem argmin_minimal_witness:
  "\<exists>r. pickArgminFast sample_target [Fin 3, Fin 1, Fin 2, Fin 1, Fin 5, Fin 6, Fin 7, Fin 8] = Some r \<and>
    (\<exists>i < 8. r = of_nat i \<and> (\<forall>j < 8. fval ([Fin 3, Fin 1, Fin 2, Fin 1, Fin 5, Fin 6, Fin 7, Fin 8] ! i) \<le>
      fval ([Fin 3, Fin 1, Fin 2, Fin 1, Fin 5, Fin 6, Fin 7, Fin 8] ! j)))"
  using argmin_minimal [of "[Fin 3, Fin 1, Fin 2, Fin 1, Fin 5, Fin 6, Fin 7, Fin 8]" sample_target]
  by (simp add: scores_ok_def eval_nat_numeral)

text \<open>On ties the assembly minimum search does not keep the comment's promise that the lowest
  index wins: with equal smallest scores at 3 and 4 the scalar search returns 3, the assembly 4.\<close>

theorem argmin_asm_tie:
  "let dists = [Fin 5, Fin 5, Fin 5, Fin 1, Fin 1, Fin 5, Fin 5, Fin 5]
   in pickArgminScalar dists = Some 3 \<and> argminAVX2 dists = 4"
  by code_simp

text \<open>C19. Offering any sequence of candidates to the five-slot store leaves the five nearest, the
  earlier one first on ties: the first five of a stable sort by distance.\<close>

theorem InsertI64_keeps_nearest:
  "ents (fold (\<lambda>(d, l) t. InsertI64 t d l) cs (Reset t)) = take 5 (sort_key fst (replicate 5 (2 ^ 62, 0) @ cs))"
  using ents_insert_all_Reset(1) [of cs t] by (simp add: search_top.insert_all_def knn5_def unset_def)

text \<open>C20. The three insertion routines (the search's, the specialist's and the brute force's cascade)
  are equivalent on every sequence of candidates.\<close>

theorem insertion_routines_agree:
  "ents (fold (\<lambda>(d, l) t. InsertI64 t d l) cs (Reset t)) = five_ents (fold (\<lambda>(d, l) v. bruteInsert d l v) cs five_init) \<and>
   ents (fold (\<lambda>(d, l) t. sp_InsertI64 t d l) cs (sp_Reset t)) = five_ents (fold (\<lambda>(d, l) v. bruteInsert d l v) cs five_init)"
proof -
  have b: "five_inv five_init" "five_ents five_init = knn5 unset"
    by (simp_all add: five_inv_def five_init_def knn5_def unset_def numeral_eq_Suc)
  have "five_ents (fold (\<lambda>(d, l) v. bruteInsert d l v) cs five_init) = knn5 (unset @ cs)"
    using brute_top.contents_insert_all [OF b, of cs] by (simp add: brute_top.insert_all_def)
  moreover have "ents (fold (\<lambda>(d, l) t. InsertI64 t d l) cs (Reset t)) = knn5 (unset @ cs)"
    using ents_insert_all_Reset(1) [of cs t] by (simp add: search_top.insert_all_def)
  ultimately show ?thesis by (simp add: sp_InsertI64_eq sp_Reset_def Reset_def)
qed

text \<open>C21. The centroid scores are accurate on every target: the square root of a score is within nine
  half-ulps, relatively, of the distance between the query and the centroid.\<close>

theorem scores_accurate:
  assumes "wf_index idx" and "quantized qi" and "amd64 tgt \<longrightarrow> unat (ixK idx) mod 16 = 0" and "length out = unat (ixK idx)"
  shows "\<exists>out'. ScoreAllCentroids tgt (to_f32 qi) (Centroids idx) (unat (ixK idx)) out = Some out' \<and>
    (\<forall>c < unat (ixK idx). \<exists>s. out' ! c = Fin s \<and> 0 \<le> s \<and>
      \<bar>sqrt s - sqrt (ssd (ivec qi) (cval idx c))\<bar> \<le> sqrt (ssd (ivec qi) (cval idx c)) * 9 * eps + 1 / 2 ^ 52)"
proof -
  have sh: "shape_ok idx" "\<forall>x \<in> set (Centroids idx). centroid_ok x" "length qi = 14"
    using assms by (auto simp: wf_index_def quantized_def)
  let ?out = "map (score (amd64 tgt \<or> fuses tgt) (to_f32 qi) (Centroids idx) (unat (ixK idx)) [0..<14]) [0..<unat (ixK idx)]"
  have "ScoreAllCentroids tgt (to_f32 qi) (Centroids idx) (unat (ixK idx)) out = Some ?out"
    using ScoreAllCentroids_eq [of "unat (ixK idx)" out "Centroids idx" tgt] assms(3,4) sh(1) by (simp add: shape_ok_def)
  moreover have "\<exists>s. ?out ! c = Fin s \<and> 0 \<le> s \<and>
      \<bar>sqrt s - sqrt (ssd (ivec qi) (cval idx c))\<bar> \<le> sqrt (ssd (ivec qi) (cval idx c)) * 9 * eps + 1 / 2 ^ 52"
    if "c < unat (ixK idx)" for c
    using score_near [OF sh(1,2) that sh(3), of "amd64 tgt \<or> fuses tgt"] that
    by (auto simp: abs_le_iff algebra_simps)
  ultimately show ?thesis by blast
qed

theorem scores_accurate_witness:
  "\<exists>out'. ScoreAllCentroids sample_target (to_f32 sample_query) (Centroids sample_index) 64 (replicate 64 (Fin 0)) = Some out' \<and>
    (\<forall>c < 64. \<exists>s. out' ! c = Fin s \<and> 0 \<le> s \<and>
      \<bar>sqrt s - sqrt (ssd (ivec sample_query) (cval sample_index c))\<bar> \<le>
        sqrt (ssd (ivec sample_query) (cval sample_index c)) * 9 * eps + 1 / 2 ^ 52)"
  using scores_accurate [OF sample_index_ok(1) sample_query_quantized, of sample_target "replicate 64 (Fin 0)"]
  unfolding sample_index_ok(4) by simp

text \<open>\<open>sortIDsByCentroidDist\<close> permutes the ids, but need not sort them: the closure reads the
  distances by position while only the ids move.  For three vectors at distances 2, 3 and 1 from the
  centroid the ids end as 0, 2, 1.\<close>

theorem sort_ids_not_by_distance:
  "sortIDsByCentroidDist False [0, 1, 2] (concat (map (\<lambda>x. x # replicate 13 0) [2, 3, 1])) (replicate 14 (Fin 0)) = Some [0, 2, 1]"
proof -
  have dims: "[0..<14] = [0, 1, 2, 3, 4, 5, 6, 7, 8, 9, 10, 11, 12, 13 :: nat]" by (simp add: upt_rec)
  have "centroid_dist64 False (2 # replicate 13 0) (replicate 14 (Fin 0)) = Fin 4"
    "centroid_dist64 False (3 # replicate 13 0) (replicate 14 (Fin 0)) = Fin 9"
    "centroid_dist64 False (1 # replicate 13 0) (replicate 14 (Fin 0)) = Fin 1"
    unfolding centroid_dist64_def dims fold_simps by (simp_all add: fl_small Let_def nth_Cons')
  then have "map (\<lambda>v. centroid_dist64 False v (replicate 14 (Fin 0))) (map (\<lambda>x. x # replicate 13 0) [2, 3, 1]) = [Fin 4, Fin 9, Fin 1]"
    by simp
  moreover have "those (map (vector_at (concat (map (\<lambda>x. x # replicate 13 0) [2, 3, 1]))) [0, 1, 2]) =
      Some (map (\<lambda>x. x # replicate 13 0) [2, 3, 1])" by code_simp
  moreover have "SliceStable (\<lambda>_ a b. flt ([Fin 4, Fin 9, Fin 1] ! a) ([Fin 4, Fin 9, Fin 1] ! b)) [0, 1, 2] = [0, 2, 1 :: nat]"
    by code_simp
  ultimately show ?thesis by (simp add: sortIDsByCentroidDist_def)
qed

end
